(* ===== verification/Prelude.thy ===== *)
theory Prelude
  imports "HOL-Library.Monad_Syntax" "HOL-Library.Multiset" "HOL-Library.AList"
begin

text \<open>
  The prelude of the development: how Rust's panics and containers are read in HOL, and the
  facts about lists, options and association lists that the components share.

  A computation that may panic has type \<open>'a option\<close>, with \<open>None\<close> for the panic: a failed
  \<^verbatim>\<open>assert!\<close>, an \<^verbatim>\<open>unwrap\<close> or \<^verbatim>\<open>expect\<close> of \<^verbatim>\<open>None\<close>, an index out of
  bounds, or an integer that leaves its range in a build with overflow checks. A Rust
  \<^verbatim>\<open>Result\<close> is a sum (\<open>Inl\<close> for \<^verbatim>\<open>Err\<close>), a Rust \<^verbatim>\<open>Option\<close> an \<open>option\<close>.

  A \<^verbatim>\<open>HashMap\<close> is the association list of its entries in the order in which it would
  iterate them; no result depends on that order, since every lemma is about an arbitrary such
  list. A \<^verbatim>\<open>Vec\<close> or a slice is a list.
\<close>

section \<open>Panics\<close>

named_theorems panic_simps \<open>rules that run the panic monad\<close>

definition rs_assert :: "bool \<Rightarrow> unit option" where
  "rs_assert b = (if b then Some () else None)"

lemma rs_assert_simps [simp, panic_simps]:
  "rs_assert True = Some ()"
  "rs_assert False = None"
  by (simp_all add: rs_assert_def)

lemma rs_assert_eq_Some [simp]: "rs_assert b = Some u \<longleftrightarrow> b"
  by (simp add: rs_assert_def)

lemma rs_assert_bind: "rs_assert b \<bind> f = (if b then f () else None)"
  by (simp add: rs_assert_def)

lemma bind_eq_SomeE:
  assumes "m \<bind> f = Some y"
  obtains x where "m = Some x" and "f x = Some y"
  using assms by (cases m) auto

text \<open>Subtraction of unsigned integers; it leaves the range below zero.\<close>

definition rs_sub :: "nat \<Rightarrow> nat \<Rightarrow> nat option" where
  "rs_sub a b = (if b \<le> a then Some (a - b) else None)"

lemma rs_sub_Suc [simp]: "rs_sub (Suc n) 1 = Some n" "rs_sub (Suc n) (Suc 0) = Some n"
  by (simp_all add: rs_sub_def)

section \<open>Slices and vectors\<close>

definition rs_index :: "'a list \<Rightarrow> nat \<Rightarrow> 'a option" where
  "rs_index xs i = (if i < length xs then Some (xs ! i) else None)"

lemma rs_index_Some [simp]: "i < length xs \<Longrightarrow> rs_index xs i = Some (xs ! i)"
  by (simp add: rs_index_def)

lemma rs_index_None [simp]: "\<not> i < length xs \<Longrightarrow> rs_index xs i = None"
  by (simp add: rs_index_def)

lemma rs_index_eq_Some: "rs_index xs i = Some x \<longleftrightarrow> i < length xs \<and> xs ! i = x"
  by (simp add: rs_index_def)

text \<open>\<^verbatim>\<open>Iterator::position\<close>.\<close>

fun position :: "('a \<Rightarrow> bool) \<Rightarrow> 'a list \<Rightarrow> nat option" where
  "position p [] = None"
| "position p (x # xs) = (if p x then Some 0 else map_option Suc (position p xs))"

lemma position_None: "position p xs = None \<longleftrightarrow> (\<forall>x \<in> set xs. \<not> p x)"
  by (induction xs) auto

lemma position_Some:
  "position p xs = Some i \<longleftrightarrow> i < length xs \<and> p (xs ! i) \<and> (\<forall>j < i. \<not> p (xs ! j))"
proof (induction xs arbitrary: i)
  case Nil
  then show ?case by simp
next
  case (Cons x xs)
  show ?case
    by (cases i) (auto simp: Cons.IH less_Suc_eq_0_disj)
qed

lemma position_split:
  assumes "position p xs = Some i"
  obtains ys y zs where "xs = ys @ y # zs" and "length ys = i" and "p y"
    and "\<forall>x \<in> set ys. \<not> p x"
proof -
  from assms have i: "i < length xs" "p (xs ! i)" "\<forall>j < i. \<not> p (xs ! j)"
    by (auto simp: position_Some)
  have "xs = take i xs @ xs ! i # drop (Suc i) xs"
    by (rule id_take_nth_drop [OF i(1)])
  moreover from i have "\<forall>x \<in> set (take i xs). \<not> p x"
    by (auto simp: in_set_conv_nth)
  ultimately show thesis using i that [of "take i xs" "xs ! i" "drop (Suc i) xs"] by simp
qed

text \<open>
  \<^verbatim>\<open>slice::partition_point\<close>: on a slice that is partitioned by the predicate (as every slice
  it is called on here is), the length of the part where the predicate holds.
\<close>

definition partition_point :: "('a \<Rightarrow> bool) \<Rightarrow> 'a list \<Rightarrow> nat" where
  "partition_point p xs = length (takeWhile p xs)"

lemma partition_point_le [simp]: "partition_point p xs \<le> length xs"
  by (simp add: partition_point_def length_takeWhile_le)

lemma take_partition_point [simp]: "take (partition_point p xs) xs = takeWhile p xs"
  by (metis partition_point_def takeWhile_eq_take)

lemma drop_partition_point [simp]: "drop (partition_point p xs) xs = dropWhile p xs"
  by (metis partition_point_def dropWhile_eq_drop)

text \<open>\<^verbatim>\<open>Vec::insert\<close>, \<^verbatim>\<open>Vec::remove\<close> and \<^verbatim>\<open>Vec::swap_remove\<close>, on a valid index.\<close>

definition insert_nth :: "nat \<Rightarrow> 'a \<Rightarrow> 'a list \<Rightarrow> 'a list" where
  "insert_nth i x xs = take i xs @ x # drop i xs"

definition remove_nth :: "nat \<Rightarrow> 'a list \<Rightarrow> 'a list" where
  "remove_nth i xs = take i xs @ drop (Suc i) xs"

definition swap_remove :: "nat \<Rightarrow> 'a list \<Rightarrow> 'a list" where
  "swap_remove i xs = butlast (xs[i := last xs])"

lemma length_insert_nth [simp]: "length (insert_nth i x xs) = Suc (length xs)"
  by (simp add: insert_nth_def)

lemma set_insert_nth [simp]: "set (insert_nth i x xs) = insert x (set xs)"
  by (simp add: insert_nth_def) (metis append_take_drop_id set_append)

lemma mset_insert_nth [simp]: "mset (insert_nth i x xs) = add_mset x (mset xs)"
  by (simp add: insert_nth_def) (metis append_take_drop_id mset_append)

lemma length_remove_nth [simp]: "i < length xs \<Longrightarrow> length (remove_nth i xs) = length xs - 1"
  by (simp add: remove_nth_def)

lemma remove_nth_append [simp]: "remove_nth (length ys) (ys @ z # zs) = ys @ zs"
  by (simp add: remove_nth_def)

lemma mset_remove_nth: "i < length xs \<Longrightarrow> mset (remove_nth i xs) = mset xs - {#xs ! i#}"
  by (subst (2) id_take_nth_drop [of i xs]) (simp_all add: remove_nth_def)

lemma set_remove_nth_subset: "set (remove_nth i xs) \<subseteq> set xs"
  by (auto simp: remove_nth_def dest: in_set_takeD in_set_dropD)

lemma distinct_remove_nth: "distinct xs \<Longrightarrow> distinct (remove_nth i xs)"
  using set_take_disj_set_drop_if_distinct [of xs i "Suc i"] by (simp add: remove_nth_def)

lemma lessThan_minus_last: "0 < n \<Longrightarrow> {..<n} - {n - 1} = {..<n - (1::nat)}"
  by (cases n) (auto simp: lessThan_Suc)

section \<open>Association lists\<close>

lemma alist_update_split:
  "k \<notin> fst ` set xs \<Longrightarrow> AList.update k w (xs @ (k, v) # ys) = xs @ (k, w) # ys"
  by (induction xs) auto

lemma alist_update_new: "k \<notin> fst ` set xs \<Longrightarrow> AList.update k w xs = xs @ [(k, w)]"
  by (induction xs) auto

lemma alist_delete_new: "k \<notin> fst ` set xs \<Longrightarrow> AList.delete k xs = xs"
  by (induction xs) (auto simp: AList.delete_eq)

lemma alist_delete_split:
  "k \<notin> fst ` set xs \<Longrightarrow> k \<notin> fst ` set ys \<Longrightarrow> AList.delete k (xs @ (k, v) # ys) = xs @ ys"
  using alist_delete_new [of k xs] alist_delete_new [of k ys] by (simp add: AList.delete_eq)

lemma alist_delete_hd [simp]: "AList.delete k ((k, v) # xs) = AList.delete k xs"
  by (simp add: AList.delete_eq)

section \<open>Ordered maps\<close>

text \<open>\<open>BTreeMap::insert\<close>.\<close>

fun bt_insert :: "'k :: linorder \<Rightarrow> 'v \<Rightarrow> ('k \<times> 'v) list \<Rightarrow> ('k \<times> 'v) list" where
  "bt_insert k v [] = [(k, v)]"
| "bt_insert k v ((k', v') # m) =
     (if k < k' then (k, v) # (k', v') # m else if k = k' then (k', v) # m else (k', v') # bt_insert k v m)"

lemma bt_insert_last: "\<forall>e \<in> set m. fst e < k \<Longrightarrow> bt_insert k v m = m @ [(k, v)]"
proof (induction m)
  case (Cons e m)
  then show ?case by (cases e) (auto dest: less_asym)
qed simp

lemma bt_insert_sorted:
  assumes "sorted_wrt (<) (map fst m)"
  shows "sorted_wrt (<) (map fst (bt_insert k v m)) \<and> set (bt_insert k v m) \<subseteq> insert (k, v) (set m) \<and>
    map_of (bt_insert k v m) = (map_of m)(k \<mapsto> v)"
  using assms
proof (induction m)
  case (Cons e m)
  have sub: "x \<in> fst ` set (bt_insert k v m) \<Longrightarrow> x = k \<or> x \<in> fst ` set m" for x
    using Cons.IH Cons.prems by (auto simp: image_iff)
  show ?case using Cons sub
    by (cases e) (auto simp: fun_eq_iff)
qed simp

text \<open>\<open>Iterator::min_by_key\<close>: the first place of a least element.\<close>

fun min_place :: "'k :: linorder list \<Rightarrow> nat" where
  "min_place [] = 0"
| "min_place [k] = 0"
| "min_place (k # ks) = (let j = min_place ks in if k \<le> ks ! j then 0 else Suc j)"

lemma min_place_less: "ks \<noteq> [] \<Longrightarrow> min_place ks < length ks"
  by (induction ks rule: min_place.induct) (auto simp: Let_def)

lemma min_place_le: "ks \<noteq> [] \<Longrightarrow> j < length ks \<Longrightarrow> ks ! min_place ks \<le> ks ! j"
proof (induction ks arbitrary: j rule: min_place.induct)
  case (3 k k' ks)
  show ?case
  proof (cases j)
    case 0
    then show ?thesis by (auto simp: Let_def)
  next
    case (Suc i)
    then have "(k' # ks) ! min_place (k' # ks) \<le> (k' # ks) ! i" using 3 by simp
    with Suc show ?thesis by (auto simp: Let_def)
  qed
qed auto

section \<open>Association lists\<close>

lemma update_keys: "fst ` set (AList.update k v m) = insert k (fst ` set m)"
  by (induction m) auto

lemma update_entries: "set (AList.update k v m) \<subseteq> insert (k, v) (set m)"
  by (induction m) auto

end
