(* ===== verification/Bounded_Array.thy ===== *)
theory Bounded_Array
  imports Prelude
begin

text \<open>
  The fixed-capacity vector \<open>Array<T, N>\<close> (\<open>src/rust/g1/base/src/collections/array.rs\<close>), down to its
  \<open>MaybeUninit\<close> cells. A cell is \<open>None\<close> when it was never written; the unsafe reads of the source
  (\<open>assume_init_read\<close>, slices taken with \<open>assume_init_ref\<close>) yield \<open>None\<close> on such a cell, so that a proof
  that an operation returns is also a proof that it reads initialised memory only. Memory that was
  moved out keeps its bits, as in the source.
\<close>

section \<open>Cells\<close>

record 'a arr =
  acells :: "'a option list"
  alen :: nat

abbreviation acap :: "'a arr \<Rightarrow> nat" where
  "acap a \<equiv> length (acells a)"

definition read_cell :: "'a option list \<Rightarrow> nat \<Rightarrow> 'a option" where
  "read_cell cs i = (if i < length cs then cs ! i else None)"

definition read_range :: "'a option list \<Rightarrow> nat \<Rightarrow> nat \<Rightarrow> 'a list option" where
  "read_range cs i j = (if i \<le> j \<and> j \<le> length cs then those (map (read_cell cs) [i..<j]) else None)"

text \<open>\<open>ptr::copy\<close> of \<open>n\<close> cells within the array, and of values into it.\<close>

definition copy_cells :: "'a option list \<Rightarrow> nat \<Rightarrow> 'a option list \<Rightarrow> 'a option list" where
  "copy_cells src dst cs = take dst cs @ src @ drop (dst + length src) cs"

definition copy_within :: "'a arr \<Rightarrow> nat \<Rightarrow> nat \<Rightarrow> nat \<Rightarrow> 'a arr option" where
  "copy_within a start stop dst = do {
     count \<leftarrow> rs_sub stop start;
     rs_assert (dst + count \<le> acap a);
     rs_assert (stop \<le> acap a);
     Some (a\<lparr>acells := copy_cells (take count (drop start (acells a))) dst (acells a)\<rparr>)
   }"

definition arr_new :: "nat \<Rightarrow> 'a arr" where
  "arr_new n = \<lparr>acells = replicate n None, alen = 0\<rparr>"

definition as_slice :: "'a arr \<Rightarrow> 'a list option" where
  "as_slice a = read_range (acells a) 0 (alen a)"

definition move_to :: "'a arr \<Rightarrow> ('a list \<times> 'a arr) option" where
  "move_to a = do {
     xs \<leftarrow> read_range (acells a) 0 (alen a);
     Some (xs, a\<lparr>alen := 0\<rparr>)
   }"

definition arr_is_empty :: "'a arr \<Rightarrow> bool" where
  "arr_is_empty a \<longleftrightarrow> alen a = 0"

definition arr_is_full :: "'a arr \<Rightarrow> bool" where
  "arr_is_full a \<longleftrightarrow> alen a = acap a"

definition arr_try_insert :: "'a arr \<Rightarrow> nat \<Rightarrow> 'a \<Rightarrow> ('a + unit) option \<times> 'a arr" where
  "arr_try_insert a i x =
     (if \<not> i \<le> alen a then (None, a)
      else if alen a = acap a then (Some (Inl x), a)
      else
        case (if i < alen a then copy_within a i (alen a) (i + 1) else Some a) of
          None \<Rightarrow> (None, a)
        | Some a \<Rightarrow> (Some (Inr ()), a\<lparr>acells := (acells a)[i := Some x], alen := alen a + 1\<rparr>))"

definition arr_try_push :: "'a arr \<Rightarrow> 'a \<Rightarrow> ('a + unit) option \<times> 'a arr" where
  "arr_try_push a x = arr_try_insert a (alen a) x"

definition arr_insert :: "'a arr \<Rightarrow> nat \<Rightarrow> 'a \<Rightarrow> 'a arr option" where
  "arr_insert a i x = (case arr_try_insert a i x of (Some (Inr _), a) \<Rightarrow> Some a | _ \<Rightarrow> None)"

definition arr_push :: "'a arr \<Rightarrow> 'a \<Rightarrow> 'a arr option" where
  "arr_push a x = (case arr_try_push a x of (Some (Inr _), a) \<Rightarrow> Some a | _ \<Rightarrow> None)"

fun arr_extend :: "'a arr \<Rightarrow> 'a list \<Rightarrow> 'a arr option" where
  "arr_extend a [] = Some a"
| "arr_extend a (x # xs) =
     (case arr_try_push a x of
        (None, _) \<Rightarrow> None
      | (Some (Inl _), a) \<Rightarrow> Some a
      | (Some (Inr _), a) \<Rightarrow> arr_extend a xs)"

definition arr_remove :: "'a arr \<Rightarrow> nat \<Rightarrow> ('a \<times> 'a arr) option" where
  "arr_remove a i = do {
     rs_assert (i < alen a);
     x \<leftarrow> read_cell (acells a) i;
     a \<leftarrow> copy_within a (i + 1) (alen a) i;
     len \<leftarrow> rs_sub (alen a) 1;
     Some (x, a\<lparr>alen := len\<rparr>)
   }"

definition arr_pop :: "'a arr \<Rightarrow> ('a option \<times> 'a arr) option" where
  "arr_pop a =
     (if alen a > 0
      then do {
        let a = a\<lparr>alen := alen a - 1\<rparr>;
        x \<leftarrow> read_cell (acells a) (alen a);
        Some (Some x, a)
      }
      else Some (None, a))"

text \<open>The values that \<open>truncate\<close> drops come with its result.\<close>

definition arr_truncate :: "'a arr \<Rightarrow> nat \<Rightarrow> ('a list \<times> 'a arr) option" where
  "arr_truncate a n =
     (if n < alen a
      then do {
        dropped \<leftarrow> read_range (acells a) n (alen a);
        Some (dropped, a\<lparr>alen := n\<rparr>)
      }
      else Some ([], a))"

definition arr_clear :: "'a arr \<Rightarrow> ('a list \<times> 'a arr) option" where
  "arr_clear a = arr_truncate a 0"

definition arr_try_append :: "'a arr \<Rightarrow> 'a arr \<Rightarrow> (bool \<times> 'a arr \<times> 'a arr) option" where
  "arr_try_append a b =
     (if alen a + alen b > acap a then Some (False, a, b)
      else do {
        (xs, b) \<leftarrow> move_to b;
        rs_assert (alen a + length xs \<le> acap a);
        Some (True, a\<lparr>acells := copy_cells (map Some xs) (alen a) (acells a), alen := alen a + length xs\<rparr>, b)
      })"

definition arr_try_append_vec :: "'a arr \<Rightarrow> 'a list \<Rightarrow> bool \<times> 'a arr \<times> 'a list" where
  "arr_try_append_vec a xs =
     (if alen a + length xs > acap a then (False, a, xs)
      else (True, a\<lparr>acells := copy_cells (map Some xs) (alen a) (acells a), alen := alen a + length xs\<rparr>, []))"

definition arr_append_to_vec :: "'a arr \<Rightarrow> 'a list \<Rightarrow> ('a list \<times> 'a arr) option" where
  "arr_append_to_vec a xs = do {
     (ys, a) \<leftarrow> move_to a;
     Some (xs @ ys, a)
   }"

definition arr_realloc :: "nat \<Rightarrow> 'a arr \<Rightarrow> ('a arr + 'a arr) option" where
  "arr_realloc m a =
     (if alen a > m then Some (Inl a)
      else do {
        (xs, _) \<leftarrow> move_to a;
        Some (Inr \<lparr>acells = map Some xs @ replicate (m - length xs) None, alen = length xs\<rparr>)
      })"

section \<open>Consuming iterators\<close>

record 'a arr_iter =
  icells :: "'a option list"
  istart :: nat
  iend :: nat

definition into_iter :: "'a arr \<Rightarrow> 'a arr_iter" where
  "into_iter a = \<lparr>icells = acells a, istart = 0, iend = alen a\<rparr>"

definition ii_next :: "'a arr_iter \<Rightarrow> ('a option \<times> 'a arr_iter) option" where
  "ii_next it =
     (if istart it < iend it
      then do { x \<leftarrow> read_cell (icells it) (istart it); Some (Some x, it\<lparr>istart := istart it + 1\<rparr>) }
      else Some (None, it))"

definition ii_next_back :: "'a arr_iter \<Rightarrow> ('a option \<times> 'a arr_iter) option" where
  "ii_next_back it =
     (if istart it < iend it
      then do { x \<leftarrow> read_cell (icells it) (iend it - 1); Some (Some x, it\<lparr>iend := iend it - 1\<rparr>) }
      else Some (None, it))"

text \<open>\<open>Range::nth\<close> and \<open>nth_back\<close> exhaust the range when it is too short; the skipped values are dropped.\<close>

definition ii_nth :: "'a arr_iter \<Rightarrow> nat \<Rightarrow> ('a option \<times> 'a list \<times> 'a arr_iter) option" where
  "ii_nth it n =
     (if istart it + n < iend it
      then do {
        dropped \<leftarrow> read_range (icells it) (istart it) (istart it + n);
        x \<leftarrow> read_cell (icells it) (istart it + n);
        Some (Some x, dropped, it\<lparr>istart := istart it + n + 1\<rparr>)
      }
      else do {
        dropped \<leftarrow> read_range (icells it) (istart it) (iend it);
        Some (None, dropped, it\<lparr>istart := iend it\<rparr>)
      })"

definition ii_nth_back :: "'a arr_iter \<Rightarrow> nat \<Rightarrow> ('a option \<times> 'a list \<times> 'a arr_iter) option" where
  "ii_nth_back it n =
     (if istart it + n < iend it
      then do {
        dropped \<leftarrow> read_range (icells it) (iend it - n) (iend it);
        x \<leftarrow> read_cell (icells it) (iend it - n - 1);
        Some (Some x, dropped, it\<lparr>iend := iend it - n - 1\<rparr>)
      }
      else do {
        dropped \<leftarrow> read_range (icells it) (istart it) (iend it);
        Some (None, dropped, it\<lparr>iend := istart it\<rparr>)
      })"

definition ii_drop :: "'a arr_iter \<Rightarrow> 'a list option" where
  "ii_drop it = read_range (icells it) (istart it) (iend it)"

section \<open>Representation\<close>

definition arr_rep :: "'a arr \<Rightarrow> 'a list \<Rightarrow> bool" where
  "arr_rep a xs \<longleftrightarrow> (\<exists>rest. acells a = map Some xs @ rest) \<and> alen a = length xs"

lemma arr_repE:
  assumes "arr_rep a xs"
  obtains rest where "a = \<lparr>acells = map Some xs @ rest, alen = length xs\<rparr>"
  using assms by (cases a) (auto simp: arr_rep_def)

lemma arr_rep_le: "arr_rep a xs \<Longrightarrow> length xs \<le> acap a"
  by (auto elim!: arr_repE)

lemma those_Some: "those (map (\<lambda>i. Some (g i)) is) = Some (map g is)"
  by (induction "is") auto

lemma read_range_init:
  assumes "i \<le> j" and "j \<le> length xs"
  shows "read_range (map Some xs @ rest) i j = Some (take (j - i) (drop i xs))"
proof -
  have "map (read_cell (map Some xs @ rest)) [i..<j] = map (\<lambda>k. Some (xs ! k)) [i..<j]"
    using assms by (auto simp: read_cell_def nth_append)
  moreover have "map ((!) xs) [i..<j] = take (j - i) (drop i xs)"
    using assms by (intro nth_equalityI) auto
  ultimately have "those (map (read_cell (map Some xs @ rest)) [i..<j]) = Some (take (j - i) (drop i xs))"
    by (simp only: those_Some)
  with assms show ?thesis by (simp add: read_range_def)
qed

lemma as_slice_rep: "arr_rep a xs \<Longrightarrow> as_slice a = Some xs"
  by (auto elim!: arr_repE simp: as_slice_def read_range_init)

lemma arr_rep_new: "arr_rep (arr_new n) []" "acap (arr_new n) = n"
  by (simp_all add: arr_rep_def arr_new_def)

section \<open>The operations on the contents\<close>

lemma try_insert_rep:
  assumes "arr_rep a xs"
  shows "i > length xs \<Longrightarrow> arr_try_insert a i x = (None, a)"
    and "i \<le> length xs \<Longrightarrow> length xs = acap a \<Longrightarrow> arr_try_insert a i x = (Some (Inl x), a)"
    and "i \<le> length xs \<Longrightarrow> length xs < acap a \<Longrightarrow>
      \<exists>a'. arr_try_insert a i x = (Some (Inr ()), a') \<and> arr_rep a' (insert_nth i x xs) \<and> acap a' = acap a"
proof -
  obtain rest where a: "a = \<lparr>acells = map Some xs @ rest, alen = length xs\<rparr>" by (rule arr_repE [OF assms])
  have n: "alen a = length xs" by (simp add: a)
  show "i > length xs \<Longrightarrow> arr_try_insert a i x = (None, a)"
    by (simp add: arr_try_insert_def n)
  show "arr_try_insert a i x = (Some (Inl x), a)" if "i \<le> length xs" "length xs = acap a"
    using that by (simp add: arr_try_insert_def n)
  assume i: "i \<le> length xs" and "length xs < acap a"
  then obtain c rest' where r: "rest = c # rest'" by (cases rest) (auto simp: a)
  show "\<exists>a'. arr_try_insert a i x = (Some (Inr ()), a') \<and> arr_rep a' (insert_nth i x xs) \<and> acap a' = acap a"
  proof (cases "i < length xs")
    case True
    let ?cs = "copy_cells (map Some (drop i xs)) (i + 1) (map Some xs @ rest)"
    have cp: "copy_within a i (length xs) (i + 1) = Some (a\<lparr>acells := ?cs\<rparr>)"
      using True r by (simp add: copy_within_def a rs_sub_def take_map drop_map)
    have "?cs = map Some (take (Suc i) xs) @ map Some (drop i xs) @ rest'"
      using True r by (simp add: copy_cells_def take_map)
    moreover have "(map Some (take (Suc i) xs) @ ys)[i := Some x] = map Some (take i xs @ [x]) @ ys" for ys
      using True by (simp add: take_Suc_conv_app_nth list_update_append)
    ultimately have "?cs[i := Some x] = map Some (insert_nth i x xs) @ rest'"
      by (simp add: insert_nth_def)
    with True r cp show ?thesis by (auto simp: arr_try_insert_def a arr_rep_def copy_cells_def)
  next
    case False
    with i r show ?thesis by (auto simp: arr_try_insert_def a arr_rep_def insert_nth_def list_update_append)
  qed
qed

lemma arr_remove_rep:
  assumes "arr_rep a xs"
  shows "\<not> i < length xs \<Longrightarrow> arr_remove a i = None"
    and "i < length xs \<Longrightarrow>
      \<exists>a'. arr_remove a i = Some (xs ! i, a') \<and> arr_rep a' (remove_nth i xs) \<and> acap a' = acap a"
proof -
  obtain rest where a: "a = \<lparr>acells = map Some xs @ rest, alen = length xs\<rparr>" by (rule arr_repE [OF assms])
  show "\<not> i < length xs \<Longrightarrow> arr_remove a i = None" by (simp add: arr_remove_def a)
  assume i: "i < length xs"
  let ?cs = "copy_cells (map Some (drop (Suc i) xs)) i (map Some xs @ rest)"
  have "copy_within a (i + 1) (length xs) i = Some (a\<lparr>acells := ?cs\<rparr>)"
    using i by (simp add: copy_within_def a rs_sub_def take_map drop_map rs_assert_def)
  moreover have "\<exists>rest'. ?cs = map Some (remove_nth i xs) @ rest'"
    using i by (simp add: copy_cells_def remove_nth_def take_map)
  moreover have "length ?cs = length (map Some xs @ rest)" using i by (simp add: copy_cells_def)
  ultimately show "\<exists>a'. arr_remove a i = Some (xs ! i, a') \<and> arr_rep a' (remove_nth i xs) \<and> acap a' = acap a"
    using i by (auto simp: arr_remove_def a arr_rep_def read_cell_def nth_append rs_sub_def)
qed

lemma arr_pop_rep:
  assumes "arr_rep a xs"
  shows "\<exists>a'. arr_pop a = Some (if xs = [] then None else Some (last xs), a') \<and> arr_rep a' (butlast xs) \<and>
    acap a' = acap a"
  using assms by (cases xs rule: rev_cases) (auto simp: arr_pop_def arr_rep_def read_cell_def nth_append)

lemma arr_truncate_rep:
  assumes "arr_rep a xs"
  shows "\<exists>a'. arr_truncate a n = Some (drop n xs, a') \<and> arr_rep a' (take n xs) \<and> acap a' = acap a"
proof -
  obtain rest where a: "a = \<lparr>acells = map Some xs @ rest, alen = length xs\<rparr>" by (rule arr_repE [OF assms])
  show ?thesis
  proof (cases "n < length xs")
    case True
    have "map Some xs = map Some (take n xs) @ map Some (drop n xs)"
      by (simp flip: map_append)
    then have "\<exists>rest'. map Some xs @ rest = map Some (take n xs) @ rest'" by simp
    with True show ?thesis by (simp add: arr_truncate_def a read_range_init arr_rep_def min_def)
  next
    case False
    with assms show ?thesis by (simp add: arr_truncate_def a)
  qed
qed

lemma arr_push_rep:
  assumes "arr_rep a xs"
  shows "arr_try_push a x = (if length xs = acap a then (Some (Inl x), a) else arr_try_push a x)"
    and "length xs < acap a \<Longrightarrow>
      \<exists>a'. arr_try_push a x = (Some (Inr ()), a') \<and> arr_rep a' (xs @ [x]) \<and> acap a' = acap a"
proof -
  have n: "alen a = length xs" using assms by (simp add: arr_rep_def)
  show "arr_try_push a x = (if length xs = acap a then (Some (Inl x), a) else arr_try_push a x)"
    using try_insert_rep(2) [OF assms, of "length xs" x] by (simp add: arr_try_push_def n)
  show "length xs < acap a \<Longrightarrow>
      \<exists>a'. arr_try_push a x = (Some (Inr ()), a') \<and> arr_rep a' (xs @ [x]) \<and> acap a' = acap a"
    using try_insert_rep(3) [OF assms, of "length xs" x] by (simp add: arr_try_push_def n insert_nth_def)
qed

lemma arr_extend_rep:
  assumes "arr_rep a xs"
  shows "\<exists>a'. arr_extend a ys = Some a' \<and> arr_rep a' (take (acap a) (xs @ ys)) \<and> acap a' = acap a"
  using assms
proof (induction ys arbitrary: a xs)
  case Nil
  then show ?case using arr_rep_le [OF Nil] by simp
next
  case (Cons y ys)
  show ?case
  proof (cases "length xs = acap a")
    case True
    then have "arr_try_push a y = (Some (Inl y), a)" using arr_push_rep(1) [OF Cons.prems, of y] by simp
    with True Cons.prems show ?thesis by simp
  next
    case False
    then have "length xs < acap a" using arr_rep_le [OF Cons.prems] by simp
    then obtain a1 where a1: "arr_try_push a y = (Some (Inr ()), a1)" "arr_rep a1 (xs @ [y])" "acap a1 = acap a"
      using arr_push_rep(2) [OF Cons.prems, of y] by blast
    with Cons.IH [OF a1(2)] show ?thesis by auto
  qed
qed

lemma move_to_rep: "arr_rep a xs \<Longrightarrow> move_to a = Some (xs, a\<lparr>alen := 0\<rparr>) \<and> arr_rep (a\<lparr>alen := 0\<rparr>) []"
  by (auto elim!: arr_repE simp: move_to_def read_range_init) (simp add: arr_rep_def)

lemma append_cells:
  assumes "arr_rep a xs" and "length xs + length ys \<le> acap a"
  shows "arr_rep (a\<lparr>acells := copy_cells (map Some ys) (alen a) (acells a), alen := alen a + length ys\<rparr>) (xs @ ys)"
    and "length (copy_cells (map Some ys) (alen a) (acells a)) = acap a"
  using assms by (auto elim!: arr_repE simp: arr_rep_def copy_cells_def)

section \<open>The contract\<close>

text \<open>
  A vector of bounded capacity, as its clients see it. The client lemma is the one shared by the
  sorted containers of the routing table: inserting at the partition point of a sorted vector.
\<close>

locale bounded_vec =
  fixes rep :: "'v \<Rightarrow> 'a list \<Rightarrow> bool"
    and cap :: "'v \<Rightarrow> nat"
    and slice :: "'v \<Rightarrow> 'a list option"
    and try_insert :: "'v \<Rightarrow> nat \<Rightarrow> 'a \<Rightarrow> ('a + unit) option \<times> 'v"
    and remove :: "'v \<Rightarrow> nat \<Rightarrow> ('a \<times> 'v) option"
  assumes rep_le: "rep v xs \<Longrightarrow> length xs \<le> cap v"
    and slice: "rep v xs \<Longrightarrow> slice v = Some xs"
    and try_insert_full: "rep v xs \<Longrightarrow> i \<le> length xs \<Longrightarrow> length xs = cap v \<Longrightarrow>
      try_insert v i x = (Some (Inl x), v)"
    and try_insert: "rep v xs \<Longrightarrow> i \<le> length xs \<Longrightarrow> length xs < cap v \<Longrightarrow>
      \<exists>v'. try_insert v i x = (Some (Inr ()), v') \<and> rep v' (insert_nth i x xs) \<and> cap v' = cap v"
    and remove: "rep v xs \<Longrightarrow> i < length xs \<Longrightarrow>
      \<exists>v'. remove v i = Some (xs ! i, v') \<and> rep v' (remove_nth i xs) \<and> cap v' = cap v"
begin

lemma insert_sorted:
  assumes "rep v xs"
  shows "length xs = cap v \<Longrightarrow> try_insert v (partition_point (\<lambda>y. f y \<le> f x) xs) x = (Some (Inl x), v)"
    and "length xs < cap v \<Longrightarrow>
      \<exists>v'. try_insert v (partition_point (\<lambda>y. f y \<le> (f x :: 'k :: linorder)) xs) x = (Some (Inr ()), v') \<and>
        rep v' (takeWhile (\<lambda>y. f y \<le> f x) xs @ x # dropWhile (\<lambda>y. f y \<le> f x) xs) \<and> cap v' = cap v"
  using try_insert_full [OF assms partition_point_le] try_insert [OF assms partition_point_le, of _ x]
  by (simp_all add: insert_nth_def)

end

interpretation av: bounded_vec arr_rep acap as_slice arr_try_insert arr_remove
  by unfold_locales (auto simp: arr_rep_le as_slice_rep try_insert_rep(2,3) arr_remove_rep(2))

section \<open>Properties\<close>

datatype 'a arr_op =
    ATryInsert nat 'a
  | APush 'a
  | AExtend "'a list"
  | ARemove nat
  | APop
  | ATruncate nat
  | AAppendVec "'a list"

text \<open>An operation hands out the values it returns, gives back or drops.\<close>

fun arr_exec :: "'a arr_op \<Rightarrow> 'a arr \<Rightarrow> ('a list \<times> 'a arr) option" where
  "arr_exec (ATryInsert i x) a =
     (case arr_try_insert a i x of
        (None, _) \<Rightarrow> None
      | (Some (Inl y), a) \<Rightarrow> Some ([y], a)
      | (Some (Inr _), a) \<Rightarrow> Some ([], a))"
| "arr_exec (APush x) a = map_option (Pair []) (arr_push a x)"
| "arr_exec (AExtend xs) a = map_option (Pair []) (arr_extend a xs)"
| "arr_exec (ARemove i) a = map_option (\<lambda>(x, a). ([x], a)) (arr_remove a i)"
| "arr_exec APop a = map_option (\<lambda>(r, a). (case r of None \<Rightarrow> [] | Some x \<Rightarrow> [x], a)) (arr_pop a)"
| "arr_exec (ATruncate n) a = arr_truncate a n"
| "arr_exec (AAppendVec xs) a = (case arr_try_append_vec a xs of (_, a, ys) \<Rightarrow> Some (ys, a))"

fun arr_run :: "'a arr_op list \<Rightarrow> 'a arr \<Rightarrow> ('a list list \<times> 'a arr) option" where
  "arr_run [] a = Some ([], a)"
| "arr_run (p # ps) a = do {
     (out, a) \<leftarrow> arr_exec p a;
     (outs, a) \<leftarrow> arr_run ps a;
     Some (out # outs, a)
   }"

text \<open>The same operations on a list of at most \<open>n\<close> elements.\<close>

fun bl_exec :: "nat \<Rightarrow> 'a arr_op \<Rightarrow> 'a list \<Rightarrow> ('a list \<times> 'a list) option" where
  "bl_exec n (ATryInsert i x) xs =
     (if i > length xs then None else if length xs = n then Some ([x], xs) else Some ([], insert_nth i x xs))"
| "bl_exec n (APush x) xs = (if length xs = n then None else Some ([], xs @ [x]))"
| "bl_exec n (AExtend ys) xs = Some ([], take n (xs @ ys))"
| "bl_exec n (ARemove i) xs = (if i < length xs then Some ([xs ! i], remove_nth i xs) else None)"
| "bl_exec n APop xs = Some (if xs = [] then [] else [last xs], butlast xs)"
| "bl_exec n (ATruncate m) xs = Some (drop m xs, take m xs)"
| "bl_exec n (AAppendVec ys) xs = Some (if length xs + length ys > n then (ys, xs) else ([], xs @ ys))"

fun bl_run :: "nat \<Rightarrow> 'a arr_op list \<Rightarrow> 'a list \<Rightarrow> ('a list list \<times> 'a list) option" where
  "bl_run n [] xs = Some ([], xs)"
| "bl_run n (p # ps) xs = do {
     (out, xs) \<leftarrow> bl_exec n p xs;
     (outs, xs) \<leftarrow> bl_run n ps xs;
     Some (out # outs, xs)
   }"

lemma arr_exec_rep:
  assumes r: "arr_rep a xs"
  shows "(case bl_exec (acap a) p xs of
      None \<Rightarrow> arr_exec p a = None
    | Some (out, ys) \<Rightarrow> \<exists>a'. arr_exec p a = Some (out, a') \<and> arr_rep a' ys \<and> acap a' = acap a)"
proof (cases p)
  case (ATryInsert i x)
  show ?thesis
  proof (cases "i > length xs")
    case True
    with try_insert_rep(1) [OF r] ATryInsert show ?thesis by simp
  next
    case i: False
    show ?thesis
    proof (cases "length xs = acap a")
      case True
      with try_insert_rep(2) [OF r] i r ATryInsert show ?thesis by simp
    next
      case False
      with arr_rep_le [OF r] have "length xs < acap a" by simp
      from try_insert_rep(3) [OF r _ this, of i x] i obtain a' where
        "arr_try_insert a i x = (Some (Inr ()), a')" "arr_rep a' (insert_nth i x xs)" "acap a' = acap a"
        by auto
      with ATryInsert False i show ?thesis by simp
    qed
  qed
next
  case (APush x)
  show ?thesis
  proof (cases "length xs = acap a")
    case True
    with arr_push_rep(1) [OF r, of x] APush show ?thesis by (simp add: arr_push_def)
  next
    case False
    with arr_rep_le [OF r] have "length xs < acap a" by simp
    from arr_push_rep(2) [OF r this, of x] obtain a' where "arr_try_push a x = (Some (Inr ()), a')"
      "arr_rep a' (xs @ [x])" "acap a' = acap a" by blast
    with APush False show ?thesis by (simp add: arr_push_def)
  qed
next
  case (AExtend ys)
  with arr_extend_rep [OF r, of ys] show ?thesis by auto
next
  case (ARemove i)
  with arr_remove_rep [OF r, of i] show ?thesis by (cases "i < length xs") auto
next
  case APop
  with arr_pop_rep [OF r] show ?thesis by auto
next
  case (ATruncate n)
  with arr_truncate_rep [OF r, of n] show ?thesis by auto
next
  case (AAppendVec ys)
  have "alen a = length xs" using r by (simp add: arr_rep_def)
  with AAppendVec append_cells [OF r, of ys] r show ?thesis
    by (cases "length xs + length ys > acap a") (simp_all add: arr_try_append_vec_def)
qed

lemma arr_run_rep:
  assumes "arr_rep a xs"
  shows "(case bl_run (acap a) ops xs of
      None \<Rightarrow> arr_run ops a = None
    | Some (outs, ys) \<Rightarrow> \<exists>a'. arr_run ops a = Some (outs, a') \<and> arr_rep a' ys \<and> acap a' = acap a)"
  using assms
proof (induction ops arbitrary: a xs)
  case (Cons p ops)
  show ?case
  proof (cases "bl_exec (acap a) p xs")
    case None
    with arr_exec_rep [OF Cons.prems, of p] show ?thesis by simp
  next
    case (Some r)
    obtain out ys where r: "r = (out, ys)" by (cases r)
    with arr_exec_rep [OF Cons.prems, of p] Some obtain a1 where
      a1: "arr_exec p a = Some (out, a1)" "arr_rep a1 ys" "acap a1 = acap a" by auto
    from Cons.IH [OF a1(2)] a1 show ?thesis
      by (cases "bl_run (acap a) ops ys") (auto simp: Some r)
  qed
qed simp


text \<open>The consuming iterator: what is left is the range of cells not yet handed out or dropped.\<close>

datatype ii_op = INext | INextBack | INth nat | INthBack nat

fun ii_exec :: "ii_op \<Rightarrow> 'a arr_iter \<Rightarrow> ('a option \<times> 'a list \<times> 'a arr_iter) option" where
  "ii_exec INext it = map_option (\<lambda>(x, it). (x, [], it)) (ii_next it)"
| "ii_exec INextBack it = map_option (\<lambda>(x, it). (x, [], it)) (ii_next_back it)"
| "ii_exec (INth n) it = ii_nth it n"
| "ii_exec (INthBack n) it = ii_nth_back it n"

text \<open>The run collects every value that was returned or dropped, and ends with the iterator's drop.\<close>

fun ii_run :: "ii_op list \<Rightarrow> 'a arr_iter \<Rightarrow> 'a list option" where
  "ii_run [] it = ii_drop it"
| "ii_run (p # ps) it = do {
     (x, dropped, it) \<leftarrow> ii_exec p it;
     out \<leftarrow> ii_run ps it;
     Some ((case x of None \<Rightarrow> [] | Some x \<Rightarrow> [x]) @ dropped @ out)
   }"

definition ii_rep :: "'a arr_iter \<Rightarrow> 'a list \<Rightarrow> bool" where
  "ii_rep it ys \<longleftrightarrow> (\<exists>xs rest. icells it = map Some xs @ rest \<and> istart it \<le> iend it \<and> iend it \<le> length xs \<and>
     ys = take (iend it - istart it) (drop (istart it) xs))"

lemma ii_repE:
  assumes "ii_rep it ys"
  obtains as bs rest where "icells it = map Some (as @ ys @ bs) @ rest" "istart it = length as"
    "iend it = length as + length ys"
proof -
  from assms obtain xs rest where x: "icells it = map Some xs @ rest" "istart it \<le> iend it"
    "iend it \<le> length xs" "ys = take (iend it - istart it) (drop (istart it) xs)"
    unfolding ii_rep_def by blast
  let ?as = "take (istart it) xs" and ?bs = "drop (iend it) xs"
  have "xs = ?as @ ys @ ?bs"
    using x(2) unfolding x(4) by (metis append_take_drop_id drop_drop le_add_diff_inverse2 add.commute)
  then show thesis using x by (intro that [of ?as ?bs rest]) auto
qed

lemma ii_repI:
  assumes "icells it = map Some (as @ ys @ bs) @ rest" "istart it = length as" "iend it = length as + length ys"
  shows "ii_rep it ys"
  unfolding ii_rep_def using assms by (intro exI [of _ "as @ ys @ bs"] exI [of _ rest]) auto

lemma ii_exec_rep:
  assumes "ii_rep it ys"
  shows "\<exists>x dropped it' zs. ii_exec p it = Some (x, dropped, it') \<and> ii_rep it' zs \<and>
    mset ys = mset (case x of None \<Rightarrow> [] | Some x \<Rightarrow> [x]) + mset dropped + mset zs"
proof -
  obtain as bs rest where r: "icells it = map Some (as @ ys @ bs) @ rest" "istart it = length as"
    "iend it = length as + length ys" by (rule ii_repE [OF assms])
  have rr: "read_range (icells it) (length as + i) (length as + j) = Some (take (j - i) (drop i ys))"
    if "i \<le> j" "j \<le> length ys" for i j
  proof -
    have "read_range (map Some (as @ ys @ bs) @ rest) (length as + i) (length as + j) =
        Some (take (j - i) (drop (length as + i) (as @ ys @ bs)))"
      using that by (subst read_range_init) auto
    then show ?thesis using that by (simp add: r(1))
  qed
  have rc: "read_cell (icells it) (length as + i) = Some (ys ! i)" if "i < length ys" for i
    using that by (simp add: r(1) read_cell_def nth_append)
  show ?thesis
  proof (cases p)
    case INext
    show ?thesis
    proof (cases ys)
      case Nil
      with INext r assms show ?thesis by (auto simp: ii_next_def)
    next
      case (Cons y zs)
      have "ii_rep (it\<lparr>istart := istart it + 1\<rparr>) zs"
        using r Cons by (intro ii_repI [of _ "as @ [y]" zs bs rest]) auto
      with INext r Cons rc [of 0] show ?thesis by (auto simp: ii_next_def)
    qed
  next
    case INextBack
    show ?thesis
    proof (cases ys rule: rev_cases)
      case Nil
      with INextBack r assms show ?thesis by (auto simp: ii_next_back_def)
    next
      case (snoc zs y)
      have "ii_rep (it\<lparr>iend := iend it - 1\<rparr>) zs"
        using r snoc by (intro ii_repI [of _ as zs "[y] @ bs" rest]) auto
      with INextBack r snoc rc [of "length zs"] show ?thesis by (auto simp: ii_next_back_def)
    qed
  next
    case (INth n)
    show ?thesis
    proof (cases "n < length ys")
      case True
      have s: "ys = take n ys @ ys ! n # drop (Suc n) ys" by (rule id_take_nth_drop [OF True])
      have "ii_rep (it\<lparr>istart := istart it + n + 1\<rparr>) (drop (Suc n) ys)"
        using r True s by (intro ii_repI [of _ "as @ take (Suc n) ys" _ bs rest]) (auto simp flip: map_append)
      moreover have "mset ys = {#ys ! n#} + mset (take n ys) + mset (drop (Suc n) ys)"
        by (subst s) simp
      ultimately show ?thesis using INth r True rc [OF True] rr [of 0 n] by (simp add: ii_nth_def) blast
    next
      case False
      have "ii_rep (it\<lparr>istart := iend it\<rparr>) []"
        using r by (intro ii_repI [of _ "as @ ys" _ bs rest]) auto
      with INth r False rr [of 0 "length ys"] show ?thesis by (auto simp: ii_nth_def)
    qed
  next
    case (INthBack n)
    show ?thesis
    proof (cases "n < length ys")
      case True
      let ?k = "length ys - n - 1"
      have k: "?k < length ys" "length ys - n = Suc ?k" using True by auto
      have s: "ys = take ?k ys @ ys ! ?k # drop (Suc ?k) ys" by (rule id_take_nth_drop [OF k(1)])
      have "ii_rep (it\<lparr>iend := iend it - n - 1\<rparr>) (take ?k ys)"
        using r k by (intro ii_repI [of _ as _ "drop ?k ys @ bs" rest]) (auto simp flip: map_append)
      moreover have "mset ys = {#ys ! ?k#} + mset (drop (Suc ?k) ys) + mset (take ?k ys)"
        by (subst s) simp
      moreover have "iend it - n = length as + Suc ?k" "iend it - n - 1 = length as + ?k"
        using r(3) k by auto
      ultimately show ?thesis
        using INthBack r True rc [OF k(1)] rr [of "Suc ?k" "length ys"] k
        by (simp add: ii_nth_back_def) blast
    next
      case False
      have "ii_rep (it\<lparr>iend := istart it\<rparr>) []"
        using r by (intro ii_repI [of _ as _ "ys @ bs" rest]) auto
      with INthBack r False rr [of 0 "length ys"] show ?thesis by (auto simp: ii_nth_back_def)
    qed
  qed
qed

lemma ii_run_rep: "ii_rep it ys \<Longrightarrow> \<exists>out. ii_run ps it = Some out \<and> mset out = mset ys"
proof (induction ps arbitrary: it ys)
  case Nil
  then obtain as bs rest where "icells it = map Some (as @ ys @ bs) @ rest" "istart it = length as"
    "iend it = length as + length ys" by (rule ii_repE)
  then show ?case using read_range_init [of "length as" "length as + length ys" "as @ ys @ bs" rest]
    by (simp add: ii_drop_def)
next
  case (Cons p ps)
  obtain x dropped it' zs where e: "ii_exec p it = Some (x, dropped, it')" "ii_rep it' zs"
    "mset ys = mset (case x of None \<Rightarrow> [] | Some x \<Rightarrow> [x]) + mset dropped + mset zs"
    using ii_exec_rep [OF Cons.prems] by blast
  with Cons.IH [OF e(2)] show ?case by auto
qed

text \<open>
  Consuming an array gives up every element exactly once: for any interleaving of \<open>next\<close>,
  \<open>next_back\<close>, \<open>nth\<close> and \<open>nth_back\<close>, the values returned, those skipped and dropped, and those dropped
  with the iterator are together the elements of the array, and no uninitialised cell is read.
\<close>

theorem into_iter_conserves:
  assumes "arr_rep a xs"
  shows "\<exists>out. ii_run ps (into_iter a) = Some out \<and> mset out = mset xs"
proof -
  obtain rest where "a = \<lparr>acells = map Some xs @ rest, alen = length xs\<rparr>" by (rule arr_repE [OF assms])
  then have "ii_rep (into_iter a) xs" by (intro ii_repI [of _ "[]" xs "[]" rest]) (auto simp: into_iter_def)
  then show ?thesis by (rule ii_run_rep)
qed

theorem into_iter_conserves_witness:
  "\<exists>out. ii_run [INth 1, INextBack] (into_iter \<lparr>acells = [Some (1::nat), Some 2, Some 3, Some 4, None], alen = 4\<rparr>)
     = Some out \<and> mset out = {#1, 2, 3, 4#}"
proof -
  have "arr_rep \<lparr>acells = [Some (1::nat), Some 2, Some 3, Some 4, None], alen = 4\<rparr> [1, 2, 3, 4]"
    by (simp add: arr_rep_def)
  from into_iter_conserves [OF this, of "[INth 1, INextBack]"] show ?thesis by simp
qed

end
