(* ===== verification/Layout.thy ===== *)
theory Layout
  imports Prelude "HOL-Library.Word"
begin

text \<open>
  The geometry of a torrent (\<open>src/rust/bt/base/src/layout.rs\<close>): pieces of equal size, the last one
  shorter, each divided into blocks; and the bitfields over pieces
  (\<open>src/rust/bt/base/src/bitfield.rs\<close>).

  \<open>u32\<close> and \<open>u64\<close> values are natural numbers with their ranges written out. Additions and
  multiplications that may leave the range take the build's \<open>overflow-checks\<close> setting: with the checks
  they panic, without them they wrap. \<open>piece_size\<close>, \<open>piece_offset\<close> and \<open>blocks\<close> are given with the checks.
\<close>

unbundle bit_operations_syntax

lemma those_append:
  "those xs = Some as \<Longrightarrow> those ys = Some bs \<Longrightarrow> those (xs @ ys) = Some (as @ bs)"
  by (induction xs arbitrary: as) (auto split: option.splits)

section \<open>64-bit arithmetic\<close>

definition u32_max :: nat where "u32_max = 2 ^ 32 - 1"

definition u64_max :: nat where "u64_max = 2 ^ 64 - 1"

definition fit64 :: "bool \<Rightarrow> nat \<Rightarrow> nat option" where
  "fit64 checks n = (if n \<le> u64_max then Some n else if checks then None else Some (n mod 2 ^ 64))"

lemma fit64_in_range [simp]: "n \<le> u64_max \<Longrightarrow> fit64 checks n = Some n"
  by (simp add: fit64_def)

lemma fit64_le: "fit64 checks n = Some m \<Longrightarrow> m \<le> n \<and> m \<le> u64_max"
  by (auto simp: fit64_def u64_max_def split: if_splits)

section \<open>Layout\<close>

type_synonym piece_index = nat

datatype block_range = BlockRange (br_index: piece_index) (br_offset: nat) (br_size: nat)

text \<open>The derived order is lexicographic.\<close>

instantiation block_range :: linorder
begin

definition less_eq_block_range :: "block_range \<Rightarrow> block_range \<Rightarrow> bool" where
  "less_eq_block_range a b \<longleftrightarrow>
     br_index a < br_index b \<or> br_index a = br_index b \<and>
       (br_offset a < br_offset b \<or> br_offset a = br_offset b \<and> br_size a \<le> br_size b)"

definition less_block_range :: "block_range \<Rightarrow> block_range \<Rightarrow> bool" where
  "less_block_range a b \<longleftrightarrow> a \<le> b \<and> \<not> b \<le> a"

instance
  by standard (auto simp: less_eq_block_range_def less_block_range_def block_range.expand)

end

record layout =
  lsize :: nat
  lnum_pieces :: nat
  lpiece_size :: nat
  llast_piece_size :: nat

datatype layout_error =
    EmptyTorrent (ee_size: nat) (ee_num_pieces: nat) (ee_piece_size: nat)
  | SizeError (es_size: nat) (es_lower: nat) (es_upper: nat)

definition layout_new :: "bool \<Rightarrow> nat \<Rightarrow> nat \<Rightarrow> nat \<Rightarrow> (layout_error + layout) option" where
  "layout_new checks sz num_pieces piece_size =
     (if \<not> (sz > 0 \<and> num_pieces > 0 \<and> piece_size > 0)
      then Some (Inl (EmptyTorrent sz num_pieces piece_size))
      else do {
        lower \<leftarrow> fit64 checks ((num_pieces - 1) * piece_size);
        upper \<leftarrow> fit64 checks (num_pieces * piece_size);
        if \<not> (lower < sz \<and> sz \<le> upper)
        then Some (Inl (SizeError sz lower upper))
        else Some (Inr \<lparr>lsize = sz, lnum_pieces = num_pieces, lpiece_size = piece_size,
                        llast_piece_size = sz - lower\<rparr>)
      })"

definition check_index :: "layout \<Rightarrow> piece_index \<Rightarrow> bool" where
  "check_index l i \<longleftrightarrow> i < lnum_pieces l"

definition piece_size :: "layout \<Rightarrow> piece_index \<Rightarrow> nat option" where
  "piece_size l i =
     (if i + 1 > u32_max then None
      else if i + 1 < lnum_pieces l then Some (lpiece_size l)
      else if i + 1 = lnum_pieces l then Some (llast_piece_size l)
      else None)"

definition check_range :: "bool \<Rightarrow> layout \<Rightarrow> block_range \<Rightarrow> bool option" where
  "check_range checks l r =
     (if \<not> check_index l (br_index r) then Some False
      else if \<not> br_size r > 0 then Some False
      else do {
        stop \<leftarrow> fit64 checks (br_offset r + br_size r);
        ps \<leftarrow> piece_size l (br_index r);
        Some (stop \<le> ps)
      })"

definition piece_offset :: "layout \<Rightarrow> piece_index \<Rightarrow> nat option" where
  "piece_offset l i =
     (if i < lnum_pieces l then fit64 True (i * lpiece_size l)
      else if i = lnum_pieces l then Some (lsize l)
      else None)"

definition to_piece_index :: "layout \<Rightarrow> nat \<Rightarrow> (piece_index \<times> nat) option" where
  "to_piece_index l offset = do {
     rs_assert (offset \<le> lsize l);
     rs_assert (offset div lpiece_size l \<le> u32_max);
     Some (offset div lpiece_size l, offset mod lpiece_size l)
   }"

function blocks_from :: "piece_index \<Rightarrow> nat \<Rightarrow> nat \<Rightarrow> nat \<Rightarrow> block_range list option" where
  "blocks_from index psize bsize i =
     (if bsize = 0 then None
      else if i * bsize > u64_max then None
      else if i * bsize < psize
      then do {
        bs \<leftarrow> blocks_from index psize bsize (Suc i);
        Some (BlockRange index (i * bsize) (min bsize (psize - i * bsize)) # bs)
      }
      else Some [])"
  by pat_completeness auto
termination
  by (relation "measure (\<lambda>(index, psize, bsize, i). psize - i * bsize)") auto

declare blocks_from.simps [simp del]

definition layout_blocks :: "layout \<Rightarrow> piece_index \<Rightarrow> nat \<Rightarrow> block_range list option" where
  "layout_blocks l index block_size = do {
     rs_assert (block_size \<noteq> 0);
     ps \<leftarrow> piece_size l index;
     blocks_from index ps block_size 0
   }"

section \<open>Well-formed layouts\<close>

definition layout_ok :: "layout \<Rightarrow> bool" where
  "layout_ok l \<longleftrightarrow> 0 < lnum_pieces l \<and> lnum_pieces l \<le> u32_max \<and> 0 < lpiece_size l \<and>
     0 < llast_piece_size l \<and> llast_piece_size l \<le> lpiece_size l \<and>
     lsize l = (lnum_pieces l - 1) * lpiece_size l + llast_piece_size l \<and> lsize l \<le> u64_max"

lemma layout_new_ok:
  assumes "layout_new True sz n ps = Some (Inr l)" and "n \<le> u32_max" and "sz \<le> u64_max"
  shows "layout_ok l" and "lsize l = sz" "lnum_pieces l = n" "lpiece_size l = ps"
proof -
  have f: "fit64 True m = Some k \<longleftrightarrow> m = k \<and> m \<le> u64_max" for m k
    by (auto simp: fit64_def)
  from assms(1) have r: "l = \<lparr>lsize = sz, lnum_pieces = n, lpiece_size = ps,
      llast_piece_size = sz - (n - 1) * ps\<rparr>" "0 < sz" "0 < n" "0 < ps"
      "(n - 1) * ps < sz" "sz \<le> n * ps"
    by (auto simp: layout_new_def f split: if_splits elim!: bind_eq_SomeE)
  have "n * ps = (n - 1) * ps + ps" using r(3) by (cases n) auto
  with r assms(2,3) show "layout_ok l" by (simp add: layout_ok_def)
  show "lsize l = sz" "lnum_pieces l = n" "lpiece_size l = ps" using r(1) by auto
qed

lemma layout_size_bounds:
  assumes "layout_ok l"
  shows "(lnum_pieces l - 1) * lpiece_size l < lsize l" and "lsize l \<le> lnum_pieces l * lpiece_size l"
proof -
  show "(lnum_pieces l - 1) * lpiece_size l < lsize l" using assms by (simp add: layout_ok_def)
  have "lnum_pieces l * lpiece_size l = (lnum_pieces l - 1) * lpiece_size l + lpiece_size l"
    using assms by (cases "lnum_pieces l") (auto simp: layout_ok_def)
  then show "lsize l \<le> lnum_pieces l * lpiece_size l" using assms by (simp add: layout_ok_def)
qed

lemma piece_size_ok:
  assumes "layout_ok l" and "i < lnum_pieces l"
  shows "piece_size l i =
    Some (if i + 1 < lnum_pieces l then lpiece_size l else llast_piece_size l)"
  using assms by (auto simp: piece_size_def layout_ok_def)

lemma piece_start_lt:
  assumes "layout_ok l" and "i < lnum_pieces l"
  shows "i * lpiece_size l < lsize l"
proof -
  have "i * lpiece_size l \<le> (lnum_pieces l - 1) * lpiece_size l" using assms(2) by (intro mult_le_mono1) auto
  with layout_size_bounds(1) [OF assms(1)] show ?thesis by (rule le_less_trans [rotated])
qed

lemma piece_offset_ok:
  assumes "layout_ok l" and "i \<le> lnum_pieces l"
  shows "piece_offset l i = Some (if i = lnum_pieces l then lsize l else i * lpiece_size l)"
  using assms piece_start_lt [OF assms(1), of i] by (auto simp: piece_offset_def layout_ok_def)

lemma piece_offset_step:
  assumes "layout_ok l" and "i < lnum_pieces l"
  shows "piece_offset l (Suc i) = Some (the (piece_offset l i) + the (piece_size l i))"
proof (cases "Suc i = lnum_pieces l")
  case True
  then have "i = lnum_pieces l - 1" by simp
  with True assms show ?thesis by (simp add: piece_offset_ok piece_size_ok layout_ok_def)
next
  case False
  with assms show ?thesis by (simp add: piece_offset_ok piece_size_ok)
qed

section \<open>Blocks tile a piece, pieces tile the torrent\<close>

fun tiles :: "nat \<Rightarrow> (nat \<times> nat) list \<Rightarrow> nat \<Rightarrow> bool" where
  "tiles a [] b \<longleftrightarrow> a = b"
| "tiles a ((off, n) # xs) b \<longleftrightarrow> off = a \<and> 0 < n \<and> tiles (a + n) xs b"

lemma tiles_append: "tiles a xs b \<Longrightarrow> tiles b ys c \<Longrightarrow> tiles a (xs @ ys) c"
  by (induction a xs b rule: tiles.induct) auto

lemma tiles_shift: "tiles a xs b \<Longrightarrow> tiles (k + a) (map (\<lambda>(off, n). (k + off, n)) xs) (k + b)"
  by (induction a xs b rule: tiles.induct) (auto simp: add.assoc)

lemma tiles_range: "tiles a xs b \<Longrightarrow> (off, n) \<in> set xs \<Longrightarrow> a \<le> off \<and> off + n \<le> b"
proof (induction a xs b rule: tiles.induct)
  case (2 a off n xs b)
  have "a \<le> b" if "tiles a xs b" for a xs b using that by (induction a xs b rule: tiles.induct) auto
  with 2 show ?case by fastforce
qed simp

definition block_spans :: "block_range list \<Rightarrow> (nat \<times> nat) list" where
  "block_spans rs = map (\<lambda>r. (br_offset r, br_size r)) rs"

lemma blocks_from_ok:
  assumes "0 < bs" and "ps + bs \<le> u64_max" and "i * bs \<le> ps + bs"
  shows "\<exists>rs. blocks_from idx ps bs i = Some rs \<and> tiles (min (i * bs) ps) (block_spans rs) ps \<and>
    (\<forall>r \<in> set rs. br_index r = idx \<and> br_size r \<le> bs)"
  using assms
proof (induction idx ps bs i rule: blocks_from.induct)
  case (1 idx ps bs i)
  have small: "\<not> i * bs > u64_max" using 1(3,4) by simp
  show ?case
  proof (cases "i * bs < ps")
    case True
    then have "Suc i * bs \<le> ps + bs" by simp
    with 1(1) [OF _ small True] 1(2,3) obtain rs where
      rs: "blocks_from idx ps bs (Suc i) = Some rs" "tiles (min (Suc i * bs) ps) (block_spans rs) ps"
      "\<forall>r \<in> set rs. br_index r = idx \<and> br_size r \<le> bs" by auto
    let ?r = "BlockRange idx (i * bs) (min bs (ps - i * bs))"
    have "blocks_from idx ps bs i = Some (?r # rs)"
      using rs(1) True small 1(2) by (subst blocks_from.simps) simp
    moreover have "tiles (min (i * bs) ps) (block_spans (?r # rs)) ps"
    proof -
      have "k + min bs (ps - k) = min (bs + k) ps" if "k < ps" for k using that by (auto simp: min_def)
      from this [OF True] have "i * bs + min bs (ps - i * bs) = min (Suc i * bs) ps" by simp
      then show ?thesis using rs(2) True 1(2) by (simp add: block_spans_def)
    qed
    ultimately show ?thesis using rs(3) by simp
  next
    case False
    with small 1(2) have "blocks_from idx ps bs i = Some []" by (subst blocks_from.simps) simp
    with False show ?thesis by (simp add: block_spans_def)
  qed
qed

lemma layout_blocks_ok:
  assumes l: "layout_ok l" and "i < lnum_pieces l" and "0 < bs" and "lpiece_size l + bs \<le> u64_max"
  shows "\<exists>rs. layout_blocks l i bs = Some rs \<and> tiles 0 (block_spans rs) (the (piece_size l i)) \<and>
    (\<forall>r \<in> set rs. br_index r = i \<and> br_size r \<le> bs \<and> check_range True l r = Some True)"
proof -
  obtain ps where ps: "piece_size l i = Some ps" "ps \<le> lpiece_size l"
    using piece_size_ok [OF assms(1,2)] l by (auto simp: layout_ok_def)
  obtain rs where rs: "blocks_from i ps bs 0 = Some rs" "tiles 0 (block_spans rs) ps"
    "\<forall>r \<in> set rs. br_index r = i \<and> br_size r \<le> bs"
    using blocks_from_ok [of bs ps 0 i] assms(3,4) ps(2) by auto
  have pos: "0 < n" if "tiles a xs b" "(off, n) \<in> set xs" for a xs b off n
    using that by (induction a xs b rule: tiles.induct) auto
  have "check_range True l r = Some True" if "r \<in> set rs" for r
  proof -
    have m: "(br_offset r, br_size r) \<in> set (block_spans rs)" using that by (auto simp: block_spans_def)
    from tiles_range [OF rs(2) m] pos [OF rs(2) m] have "br_offset r + br_size r \<le> ps" "0 < br_size r" by auto
    with rs(3) that ps assms(2,4) show ?thesis by (simp add: check_range_def check_index_def)
  qed
  with rs ps assms(3) show ?thesis by (simp add: layout_blocks_def)
qed

definition torrent_spans :: "layout \<Rightarrow> block_range list \<Rightarrow> (nat \<times> nat) list" where
  "torrent_spans l rs = map (\<lambda>r. (the (piece_offset l (br_index r)) + br_offset r, br_size r)) rs"

lemma pieces_tile:
  assumes l: "layout_ok l" and bs: "0 < bs" "lpiece_size l + bs \<le> u64_max" and "k \<le> lnum_pieces l"
  shows "\<exists>rss. those (map (\<lambda>i. layout_blocks l i bs) [0..<k]) = Some rss \<and>
    tiles 0 (torrent_spans l (concat rss)) (the (piece_offset l k)) \<and>
    (\<forall>r \<in> set (concat rss). br_size r \<le> bs \<and> check_range True l r = Some True)"
  using assms(4)
proof (induction k)
  case 0
  with l show ?case by (simp add: torrent_spans_def piece_offset_ok layout_ok_def)
next
  case (Suc k)
  then obtain rss where rss: "those (map (\<lambda>i. layout_blocks l i bs) [0..<k]) = Some rss"
    "tiles 0 (torrent_spans l (concat rss)) (the (piece_offset l k))"
    "\<forall>r \<in> set (concat rss). br_size r \<le> bs \<and> check_range True l r = Some True" by auto
  obtain rs where rs: "layout_blocks l k bs = Some rs" "tiles 0 (block_spans rs) (the (piece_size l k))"
    "\<forall>r \<in> set rs. br_index r = k \<and> br_size r \<le> bs \<and> check_range True l r = Some True"
    using layout_blocks_ok [OF l _ bs, of k] Suc.prems by auto
  let ?o = "the (piece_offset l k)"
  have "torrent_spans l rs = map (\<lambda>(off, n). (?o + off, n)) (block_spans rs)"
    using rs(3) by (simp add: torrent_spans_def block_spans_def)
  then have "tiles ?o (torrent_spans l rs) (the (piece_offset l (Suc k)))"
    using tiles_shift [OF rs(2), of ?o] piece_offset_step [OF l, of k] Suc.prems by simp
  with rss(2) have "tiles 0 (torrent_spans l (concat (rss @ [rs]))) (the (piece_offset l (Suc k)))"
    by (auto simp: torrent_spans_def intro: tiles_append)
  moreover have "those (map (\<lambda>i. layout_blocks l i bs) [0..<Suc k]) = Some (rss @ [rs])"
    using rss(1) rs(1) by (simp add: those_append)
  ultimately show ?case using rss(3) rs(3) by (intro exI [of _ "rss @ [rs]"]) auto
qed

section \<open>Bitfields\<close>

text \<open>\<open>BitVec<u8, Msb0>\<close>: a list of bits; the bits of a byte from the most significant one.\<close>

type_synonym bitfield = "bool list"
type_synonym byte = "8 word"

definition byte_bits :: "byte \<Rightarrow> bool list" where
  "byte_bits b = map (\<lambda>i. bit b (7 - i)) [0..<8]"

definition view_bits :: "byte list \<Rightarrow> bool list" where
  "view_bits bs = concat (map byte_bits bs)"

definition check_spare_bits :: "bool list \<Rightarrow> nat \<Rightarrow> bool" where
  "check_spare_bits bits n \<longleftrightarrow> length bits \<ge> n \<and> (\<forall>b \<in> set (drop n bits). \<not> b)"

text \<open>
  The error carries the spare bits. Slicing \<open>bytes[num_pieces..]\<close> for it panics when there are fewer
  than \<open>num_pieces\<close> bits.
\<close>

definition try_from_bytes :: "byte list \<Rightarrow> nat \<Rightarrow> (bool list + bitfield) option" where
  "try_from_bytes bytes n =
     (let bits = view_bits bytes in
      if check_spare_bits bits n then Some (Inr (take n bits))
      else if n \<le> length bits then Some (Inl (drop n bits))
      else None)"

definition iter_haves :: "bitfield \<Rightarrow> piece_index list" where
  "iter_haves bs = filter (\<lambda>i. bs ! i) [0..<length bs]"

definition iter_have_nots :: "bitfield \<Rightarrow> piece_index list" where
  "iter_have_nots bs = filter (\<lambda>i. \<not> bs ! i) [0..<length bs]"

lemma length_view_bits [simp]: "length (view_bits bs) = 8 * length bs"
  by (induction bs) (simp_all add: view_bits_def byte_bits_def)

lemma nth_view_bits: "i < 8 * length bs \<Longrightarrow> view_bits bs ! i = bit (bs ! (i div 8)) (7 - i mod 8)"
proof (induction bs arbitrary: i)
  case (Cons b bs)
  have v: "view_bits (b # bs) = byte_bits b @ view_bits bs" "length (byte_bits b) = 8"
    by (simp_all add: view_bits_def byte_bits_def)
  show ?case
  proof (cases "i < 8")
    case True
    then show ?thesis by (simp add: v nth_append) (simp add: byte_bits_def)
  next
    case False
    then obtain j where j: "i = 8 + j" using le_iff_add [of 8 i] by auto
    moreover have "(8 + j) div 8 = Suc (j div 8)" by simp
    ultimately show ?thesis using Cons by (simp add: v nth_append)
  qed
qed simp

lemma ex_drop: "(\<exists>b \<in> set (drop n xs). P b) \<longleftrightarrow> (\<exists>i < length xs. n \<le> i \<and> P (xs ! i))"
proof
  assume "\<exists>b \<in> set (drop n xs). P b"
  then obtain j where "j < length xs - n" "P (xs ! (n + j))" by (auto simp: in_set_conv_nth)
  then show "\<exists>i < length xs. n \<le> i \<and> P (xs ! i)" by (intro exI [of _ "n + j"]) auto
next
  assume "\<exists>i < length xs. n \<le> i \<and> P (xs ! i)"
  then obtain i where i: "i < length xs" "n \<le> i" "P (xs ! i)" by blast
  then have "drop n xs ! (i - n) = xs ! i" "i - n < length (drop n xs)" by auto
  with i(3) show "\<exists>b \<in> set (drop n xs). P b" by (metis nth_mem)
qed

lemma set_iter_haves: "set (iter_haves bs) = {i. i < length bs \<and> bs ! i}"
  by (auto simp: iter_haves_def)

lemma set_iter_have_nots: "set (iter_have_nots bs) = {i. i < length bs \<and> \<not> bs ! i}"
  by (auto simp: iter_have_nots_def)

section \<open>Properties\<close>

text \<open>
  C19. The blocks of all pieces tile the torrent. For a layout that \<open>Layout::new\<close> accepts (in a build
  with overflow checks) and any positive block size, \<open>blocks\<close> panics on no piece; placed at
  \<open>piece_offset\<close> of their piece, the blocks are contiguous, non-empty, no longer than the block size,
  and cover exactly the bytes from 0 to the torrent's size; and each passes \<open>check_range\<close>.
\<close>

theorem torrent_blocks_tile:
  assumes "layout_new True sz n ps = Some (Inr l)" and "n \<le> u32_max" and "sz \<le> u64_max"
    and "0 < bs" and "ps + bs \<le> u64_max"
  shows "\<exists>rss. those (map (\<lambda>i. layout_blocks l i bs) [0..<n]) = Some rss \<and>
    tiles 0 (torrent_spans l (concat rss)) sz \<and>
    (\<forall>r \<in> set (concat rss). br_size r \<le> bs \<and> check_range True l r = Some True)"
proof -
  note l = layout_new_ok [OF assms(1-3)]
  have "piece_offset l n = Some sz" using l piece_offset_ok [OF l(1), of n] by simp
  with pieces_tile [OF l(1) assms(4), of n] l assms(5) show ?thesis by auto
qed

theorem torrent_blocks_tile_witness:
  "\<exists>l rss. layout_new True 10 3 4 = Some (Inr l) \<and>
     those (map (\<lambda>i. layout_blocks l i 3) [0..<3]) = Some rss \<and> tiles 0 (torrent_spans l (concat rss)) 10"
proof -
  have l: "layout_new True 10 3 4 = Some (Inr \<lparr>lsize = 10, lnum_pieces = 3, lpiece_size = 4, llast_piece_size = 2\<rparr>)"
    by (simp add: layout_new_def u64_max_def)
  from torrent_blocks_tile [OF l, of 3] show ?thesis using l by (auto simp: u64_max_def u32_max_def)
qed

text \<open>
  \<open>to_piece_index\<close> and \<open>piece_offset\<close> are inverse on the bytes of a torrent: every offset below the
  size is found in exactly one piece, at an offset within that piece's size.
\<close>

theorem to_piece_index_inverse:
  assumes "layout_ok l" and "x < lsize l"
  shows "\<exists>i y. to_piece_index l x = Some (i, y) \<and> check_index l i \<and> y < the (piece_size l i) \<and>
    the (piece_offset l i) + y = x \<and>
    (\<forall>j z. check_index l j \<and> z < the (piece_size l j) \<and> the (piece_offset l j) + z = x \<longrightarrow> j = i \<and> z = y)"
proof -
  let ?p = "lpiece_size l" and ?n = "lnum_pieces l"
  have p: "0 < ?p" "?n \<le> u32_max" "lsize l = (?n - 1) * ?p + llast_piece_size l" "0 < ?n"
    "llast_piece_size l \<le> ?p" using assms(1) by (auto simp: layout_ok_def)
  have "x < ?n * ?p" using assms(2) layout_size_bounds(2) [OF assms(1)] by simp
  then have i: "x div ?p < ?n" using p(1) by (simp add: less_mult_imp_div_less)
  have s: "x mod ?p < the (piece_size l (x div ?p))"
  proof (cases "x div ?p + 1 < ?n")
    case True
    then show ?thesis using p(1) i assms(1) by (simp add: piece_size_ok)
  next
    case False
    then have "x div ?p = ?n - 1" using i by simp
    then have "(?n - 1) * ?p + x mod ?p = x" by (metis div_mult_mod_eq)
    then have "x mod ?p < llast_piece_size l" using assms(2) p(3) by linarith
    then show ?thesis using False i assms(1) by (simp add: piece_size_ok)
  qed
  have u: "j = x div ?p \<and> z = x mod ?p"
    if "check_index l j" "z < the (piece_size l j)" "the (piece_offset l j) + z = x" for j z
  proof -
    have j: "j < ?n" using that(1) by (simp add: check_index_def)
    then have "z < ?p" using that(2) p(5) piece_size_ok [OF assms(1) j] by (auto split: if_splits)
    moreover have "j * ?p + z = x" using that(3) j piece_offset_ok [OF assms(1), of j] by simp
    moreover have "(j * ?p + z) div ?p = j" "(j * ?p + z) mod ?p = z" using \<open>z < ?p\<close> by simp_all
    ultimately show ?thesis by simp
  qed
  have t: "to_piece_index l x = Some (x div ?p, x mod ?p)" using assms(2) i p(2) by (simp add: to_piece_index_def)
  have o: "the (piece_offset l (x div ?p)) + x mod ?p = x"
    using piece_offset_ok [OF assms(1), of "x div ?p"] i by simp
  have c: "check_index l (x div ?p)" using i by (simp add: check_index_def)
  show ?thesis by (intro exI conjI allI impI, rule t, rule c, rule s, rule o) (use u in blast)+
qed

theorem to_piece_index_inverse_witness:
  "\<exists>i y. to_piece_index \<lparr>lsize = 10, lnum_pieces = 3, lpiece_size = 4, llast_piece_size = 2\<rparr> 9 = Some (i, y) \<and>
     the (piece_offset \<lparr>lsize = 10, lnum_pieces = 3, lpiece_size = 4, llast_piece_size = 2\<rparr> i) + y = 9"
  using to_piece_index_inverse [of "\<lparr>lsize = 10, lnum_pieces = 3, lpiece_size = 4, llast_piece_size = 2\<rparr>" 9]
  by (auto simp: layout_ok_def u32_max_def u64_max_def)


text \<open>
  C39. \<open>try_from_bytes\<close> reads a bitfield in BEP 3 order: it succeeds exactly when the bytes have a bit
  for every piece and every spare bit is zero, and the pieces it reports are those whose bit is set;
  with set spare bits it is an error, with too few bits it panics.
\<close>

theorem try_from_bytes_spec:
  "try_from_bytes bytes n =
     (if 8 * length bytes < n then None
      else if \<exists>i < 8 * length bytes. n \<le> i \<and> bit (bytes ! (i div 8)) (7 - i mod 8)
      then Some (Inl (drop n (view_bits bytes)))
      else Some (Inr (map (\<lambda>i. bit (bytes ! (i div 8)) (7 - i mod 8)) [0..<n])))"
proof -
  have e: "(\<forall>b \<in> set (drop n (view_bits bytes)). \<not> b) \<longleftrightarrow>
      \<not> (\<exists>i < 8 * length bytes. n \<le> i \<and> bit (bytes ! (i div 8)) (7 - i mod 8))"
    using ex_drop [of n "view_bits bytes" "\<lambda>b. b"] nth_view_bits [of _ bytes] by auto
  have "take n (view_bits bytes) = map (\<lambda>i. bit (bytes ! (i div 8)) (7 - i mod 8)) [0..<n]"
    if "n \<le> 8 * length bytes"
    using that by (auto intro!: nth_equalityI simp: nth_view_bits)
  then show ?thesis using e by (auto simp: try_from_bytes_def check_spare_bits_def Let_def)
qed

end
