(* ===== verification/Node_Id.thy ===== *)
theory Node_Id
  imports Layout "HOL-Library.List_Lexorder"
begin

text \<open>
  Node ids of the DHT and their XOR metric (\<open>src/rust/bt/base/src/node_id.rs\<close>). An id is its 20 bytes;
  its bits are read most significant first. A distance is a list of 160 bits, ordered as \<open>BitArray\<close> is:
  lexicographically, a clear bit before a set one.
\<close>

type_synonym node_id = "byte list"
type_synonym node_distance = "bool list"

definition NODE_ID_SIZE :: nat where "NODE_ID_SIZE = 20"

definition NODE_ID_BIT_SIZE :: nat where "NODE_ID_BIT_SIZE = NODE_ID_SIZE * 8"

lemma NODE_ID_BIT_SIZE_eq [simp]: "NODE_ID_BIT_SIZE = 160"
  by (simp add: NODE_ID_BIT_SIZE_def NODE_ID_SIZE_def)

definition node_try_from :: "byte list \<Rightarrow> node_id option" where
  "node_try_from bs = (if length bs = NODE_ID_SIZE then Some bs else None)"

definition node_bits :: "node_id \<Rightarrow> bool list" where
  "node_bits a = view_bits a"

definition distance :: "node_id \<Rightarrow> node_id \<Rightarrow> node_distance" where
  "distance a b = map2 (\<noteq>) (node_bits a) (node_bits b)"

definition leading_zeros :: "bool list \<Rightarrow> nat" where
  "leading_zeros bs = length (takeWhile Not bs)"

text \<open>Writing bits back into bytes, as the mutable bit slice does.\<close>

definition bits_byte :: "bool list \<Rightarrow> byte" where
  "bits_byte bs = horner_sum of_bool 2 (rev bs)"

fun bits_bytes :: "bool list \<Rightarrow> byte list" where
  "bits_bytes (b0 # b1 # b2 # b3 # b4 # b5 # b6 # b7 # bs) =
     bits_byte [b0, b1, b2, b3, b4, b5, b6, b7] # bits_bytes bs"
| "bits_bytes _ = []"

definition invert_then_random_suffix :: "node_id \<Rightarrow> nat \<Rightarrow> byte list \<Rightarrow> node_id" where
  "invert_then_random_suffix a i random =
     (if i < NODE_ID_BIT_SIZE
      then let bits = (node_bits a)[i := \<not> node_bits a ! i] in
           bits_bytes
             (if i + 1 < NODE_ID_BIT_SIZE
              then take (i + 1) bits @ drop (i + 1) (node_bits random)
              else bits)
      else a)"

section \<open>Bits and bytes\<close>

abbreviation node_ok :: "node_id \<Rightarrow> bool" where
  "node_ok a \<equiv> length a = 20"

lemma length_node_bits [simp]: "length (node_bits a) = 8 * length a"
  by (simp add: node_bits_def)

lemma byte_bits_inj: "byte_bits a = byte_bits b \<Longrightarrow> a = b"
proof (rule bit_word_eqI)
  fix n
  assume e: "byte_bits a = byte_bits b" and "n < LENGTH(8)"
  then have n: "7 - n < 8" "7 - (7 - n) = n" by auto
  from e have "byte_bits a ! (7 - n) = byte_bits b ! (7 - n)" by simp
  with n show "bit a n \<longleftrightarrow> bit b n" by (simp add: byte_bits_def)
qed

lemma view_bits_inj: "length a = length b \<Longrightarrow> view_bits a = view_bits b \<Longrightarrow> a = b"
proof (induction a b rule: list_induct2)
  case (Cons x xs y ys)
  have "length (byte_bits x) = length (byte_bits y)" by (simp add: byte_bits_def)
  with Cons show ?case by (auto simp: view_bits_def dest: byte_bits_inj)
qed simp

lemma byte_bits_bits_byte: "length bs = 8 \<Longrightarrow> byte_bits (bits_byte bs) = bs"
  by (intro nth_equalityI)
    (auto simp: byte_bits_def bits_byte_def bit_horner_sum_bit_word_iff rev_nth)

lemma view_bits_bytes: "8 dvd length bs \<Longrightarrow> view_bits (bits_bytes bs) = bs \<and> 8 * length (bits_bytes bs) = length bs"
proof (induction bs rule: bits_bytes.induct)
  case (1 b0 b1 b2 b3 b4 b5 b6 b7 bs)
  then have "8 dvd length bs" by (simp add: dvd_def) presburger
  with 1 show ?case by (simp add: view_bits_def byte_bits_bits_byte)
qed (auto simp: view_bits_def dest!: dvd_imp_le)

section \<open>The metric\<close>

lemma length_distance [simp]: "node_ok a \<Longrightarrow> node_ok b \<Longrightarrow> length (distance a b) = 160"
  by (simp add: distance_def)

lemma nth_distance:
  "node_ok a \<Longrightarrow> node_ok b \<Longrightarrow> i < 160 \<Longrightarrow> distance a b ! i \<longleftrightarrow> node_bits a ! i \<noteq> node_bits b ! i"
  by (simp add: distance_def)

lemma distance_commute: "node_ok a \<Longrightarrow> node_ok b \<Longrightarrow> distance a b = distance b a"
  by (intro nth_equalityI) (auto simp: nth_distance)

lemma leading_zeros_le: "leading_zeros bs \<le> length bs"
  by (simp add: leading_zeros_def length_takeWhile_le)

lemma leading_zeros_ge_iff:
  assumes "k \<le> length bs"
  shows "k \<le> leading_zeros bs \<longleftrightarrow> (\<forall>j < k. \<not> bs ! j)"
proof
  assume k: "k \<le> leading_zeros bs"
  show "\<forall>j < k. \<not> bs ! j"
  proof (intro allI impI)
    fix j
    assume "j < k"
    with k have "j < length (takeWhile Not bs)" by (simp add: leading_zeros_def)
    then show "\<not> bs ! j" by (metis nth_mem set_takeWhileD takeWhile_nth)
  qed
next
  assume a: "\<forall>j < k. \<not> bs ! j"
  show "k \<le> leading_zeros bs"
  proof (rule ccontr)
    assume "\<not> k \<le> leading_zeros bs"
    then have l: "leading_zeros bs < k" by simp
    then have "bs ! leading_zeros bs" using assms nth_length_takeWhile [of Not bs] by (auto simp: leading_zeros_def)
    with a l show False by blast
  qed
qed

lemma common_prefix:
  assumes "node_ok a" and "node_ok b" and "k \<le> 160"
  shows "k \<le> leading_zeros (distance a b) \<longleftrightarrow> take k (node_bits a) = take k (node_bits b)"
proof -
  have "k \<le> leading_zeros (distance a b) \<longleftrightarrow> (\<forall>j < k. node_bits a ! j = node_bits b ! j)"
    using assms leading_zeros_ge_iff [of k "distance a b"] by (auto simp: nth_distance)
  also have "\<dots> \<longleftrightarrow> take k (node_bits a) = take k (node_bits b)"
    using assms by (auto simp: list_eq_iff_nth_eq)
  finally show ?thesis .
qed

lemma node_bits_inj: "node_ok a \<Longrightarrow> node_ok b \<Longrightarrow> node_bits a = node_bits b \<Longrightarrow> a = b"
  by (simp add: node_bits_def view_bits_inj)

lemma same_node_iff:
  assumes "node_ok a" and "node_ok b"
  shows "160 \<le> leading_zeros (distance a b) \<longleftrightarrow> a = b"
  using common_prefix [OF assms, of 160] assms node_bits_inj by auto

text \<open>
  How many ids share the first \<open>k\<close> bits with a given one: as many as there are suffixes.
\<close>

lemma card_bool_lists: "card {bs :: bool list. length bs = n} = 2 ^ n"
  using card_lists_length_eq [of "UNIV :: bool set" n] by simp

lemma finite_bool_lists: "finite {bs :: bool list. length bs = n}"
  using finite_lists_length_eq [of "UNIV :: bool set" n] by simp

lemma card_same_prefix:
  assumes "node_ok a" and "k \<le> 160" and "\<forall>b \<in> S. node_ok b \<and> k \<le> leading_zeros (distance a b)"
  shows "card S \<le> 2 ^ (160 - k)"
proof -
  let ?f = "\<lambda>b. drop k (node_bits b)"
  have "inj_on ?f S"
  proof (rule inj_onI)
    fix b c
    assume bc: "b \<in> S" "c \<in> S" and e: "?f b = ?f c"
    have "take k (node_bits a) = take k (node_bits b)" "take k (node_bits a) = take k (node_bits c)"
      using bc assms common_prefix by blast+
    with e have "node_bits b = node_bits c" by (metis append_take_drop_id)
    with bc assms(3) show "b = c" using node_bits_inj by blast
  qed
  moreover have "?f ` S \<subseteq> {bs. length bs = 160 - k}" using assms(3) by auto
  ultimately show ?thesis
    using card_inj_on_le [of ?f S "{bs. length bs = 160 - k}"] finite_bool_lists card_bool_lists by simp
qed

section \<open>Properties\<close>

text \<open>
  \<open>invert_then_random_suffix\<close> returns an id for the bucket to refresh: whatever the random bytes,
  for a bit index below 160 the result is a well-formed id whose distance from the original has exactly
  that many leading zeros, and its bits after that position are the random ones.
\<close>

theorem invert_then_random_suffix_bucket:
  assumes "node_ok a" and "node_ok random" and "i < 160"
  shows "node_ok (invert_then_random_suffix a i random) \<and>
    leading_zeros (distance a (invert_then_random_suffix a i random)) = i \<and>
    drop (i + 1) (node_bits (invert_then_random_suffix a i random)) = drop (i + 1) (node_bits random)"
proof -
  let ?r = "invert_then_random_suffix a i random"
  let ?bits = "take (i + 1) ((node_bits a)[i := \<not> node_bits a ! i]) @ drop (i + 1) (node_bits random)"
  have r: "?r = bits_bytes ?bits" using assms by (auto simp: invert_then_random_suffix_def Let_def)
  have "8 dvd length ?bits" using assms by simp
  from view_bits_bytes [OF this] have v: "node_bits ?r = ?bits" "node_ok ?r"
    using assms by (simp_all add: r node_bits_def)
  have d: "distance a ?r ! j \<longleftrightarrow> j = i" if "j \<le> i" for j
    using that assms v by (auto simp: nth_distance nth_append nth_list_update split: if_splits)
  have "i \<le> leading_zeros (distance a ?r)"
    using d assms v(2) by (subst leading_zeros_ge_iff) auto
  moreover have "\<not> i + 1 \<le> leading_zeros (distance a ?r)"
    using d [of i] assms v(2) by (subst leading_zeros_ge_iff) auto
  ultimately show ?thesis using v assms by simp
qed

theorem invert_then_random_suffix_bucket_witness:
  "leading_zeros (distance (replicate 20 0) (invert_then_random_suffix (replicate 20 0) 11 (replicate 20 255))) = 11"
  using invert_then_random_suffix_bucket [of "replicate 20 0" "replicate 20 255" 11] by simp

text \<open>
  The XOR metric: the distance is zero (160 leading zeros) only between equal ids, it is symmetric,
  and the number of its leading zeros is the length of the common prefix of the two ids.
\<close>

theorem xor_metric:
  assumes "node_ok a" and "node_ok b"
  shows "(leading_zeros (distance a b) = 160 \<longleftrightarrow> a = b) \<and> distance a b = distance b a \<and>
    (\<forall>k \<le> 160. k \<le> leading_zeros (distance a b) \<longleftrightarrow> take k (node_bits a) = take k (node_bits b))"
proof (intro conjI allI impI)
  have "leading_zeros (distance a b) \<le> 160" using leading_zeros_le [of "distance a b"] assms by simp
  then show "leading_zeros (distance a b) = 160 \<longleftrightarrow> a = b" using same_node_iff [OF assms] by linarith
qed (rule distance_commute [OF assms], rule common_prefix [OF assms])

theorem xor_metric_witness:
  "distance (replicate 20 1) (replicate 20 3) = distance (replicate 20 3) (replicate 20 (1::byte))"
  using xor_metric [of "replicate 20 1" "replicate 20 3"] by simp

end
