(* ===== verification/Route.thy ===== *)
theory Route
  imports Bounded_Array Node_Id "HOL-Library.Option_ord"
begin

text \<open>
  The routing table of the DHT (\<open>src/rust/bt/dht/route/src\<close>): buckets of at most \<open>K\<close> nodes sorted by
  their last successful query (\<open>bucket.rs\<close>, on top of \<open>Array\<close>), the queue of bucket refresh deadlines
  (\<open>refresh.rs\<close>), and the table that splits its last bucket as it fills up (\<open>lib.rs\<close>).

  An endpoint is of any type \<open>'e\<close>. Instants are integers (nanoseconds); the reading of the clock is an
  argument. \<open>Option<Instant>\<close> is ordered with \<open>None\<close> first, as in Rust.
\<close>

section \<open>Buckets\<close>

definition K :: nat where "K = 8"

definition minutes :: "int \<Rightarrow> int" where "minutes n = n * 60 * 1000000000"

definition INACTIVITY_TIMEOUT :: int where "INACTIVITY_TIMEOUT = minutes 15"

definition FAILURE_THRESHOLD :: nat where "FAILURE_THRESHOLD = 3"

record 'e node_info =
  ni_id :: node_id
  ni_endpoint :: 'e

record 'e bucket_item =
  bi_info :: "'e node_info"
  bi_last_ok :: "int option"
  bi_num_errs :: nat

type_synonym 'e bucket = "'e bucket_item arr"

definition bi_new :: "'e node_info \<Rightarrow> int option \<Rightarrow> 'e bucket_item" where
  "bi_new info last_ok = \<lparr>bi_info = info, bi_last_ok = last_ok, bi_num_errs = 0\<rparr>"

abbreviation bi_id :: "'e bucket_item \<Rightarrow> node_id" where
  "bi_id item \<equiv> ni_id (bi_info item)"

definition bk_new :: "'e bucket" where
  "bk_new = arr_new K"

lemma arr_remove_alen: "arr_remove a i = Some (x, a') \<Longrightarrow> alen a' < alen a"
  by (auto simp: arr_remove_def copy_within_def rs_sub_def elim!: bind_eq_SomeE split: if_splits)

function split_loop :: "'e bucket \<Rightarrow> 'e bucket \<Rightarrow> nat \<Rightarrow> nat \<Rightarrow> bool \<Rightarrow> ('e bucket \<times> 'e bucket) option" where
  "split_loop b closer i bit_index v =
     (if i < alen b
      then do {
        items \<leftarrow> as_slice b;
        item \<leftarrow> rs_index items i;
        w \<leftarrow> rs_index (node_bits (bi_id item)) bit_index;
        if w = v
        then do {
          (x, b') \<leftarrow> arr_remove b i;
          closer \<leftarrow> arr_push closer x;
          split_loop b' closer i bit_index v
        }
        else split_loop b closer (i + 1) bit_index v
      }
      else Some (b, closer))"
  by pat_completeness auto
termination
  by (relation "measure (\<lambda>(b, closer, i, bit_index, v). alen b - i)") (auto dest: arr_remove_alen)

declare split_loop.simps [simp del]

definition split_off :: "'e bucket \<Rightarrow> nat \<Rightarrow> bool \<Rightarrow> ('e bucket \<times> 'e bucket) option" where
  "split_off b bit_index v = split_loop b bk_new 0 bit_index v"

definition bk_partition_point :: "'e bucket \<Rightarrow> int option \<Rightarrow> nat option" where
  "bk_partition_point b last_ok = do {
     items \<leftarrow> as_slice b;
     Some (partition_point (\<lambda>item. bi_last_ok item \<le> last_ok) items)
   }"

definition bk_position :: "'e bucket \<Rightarrow> node_id \<Rightarrow> nat option option" where
  "bk_position b a = do {
     items \<leftarrow> as_slice b;
     Some (position (\<lambda>item. bi_id item = a) items)
   }"

definition bk_insert_sorted :: "'e bucket \<Rightarrow> 'e bucket_item \<Rightarrow> (('e bucket_item + unit) \<times> 'e bucket) option" where
  "bk_insert_sorted b item = do {
     i \<leftarrow> bk_partition_point b (bi_last_ok item);
     (case arr_try_insert b i item of
        (None, _) \<Rightarrow> None
      | (Some r, b) \<Rightarrow> Some (r, b))
   }"

definition bk_iter :: "'e bucket \<Rightarrow> 'e node_info list option" where
  "bk_iter b = do { items \<leftarrow> as_slice b; Some (map bi_info (rev items)) }"

definition bk_stale :: "'e bucket \<Rightarrow> int \<Rightarrow> 'e node_info list option" where
  "bk_stale b now = do {
     i \<leftarrow> bk_partition_point b (Some (now - INACTIVITY_TIMEOUT));
     items \<leftarrow> as_slice b;
     Some (map bi_info (take i items))
   }"

definition bk_insert :: "'e bucket \<Rightarrow> 'e bucket_item \<Rightarrow> (('e bucket_item + unit) \<times> 'e bucket) option" where
  "bk_insert b item = do {
     r \<leftarrow> bk_position b (bi_id item);
     (case r of
        Some i \<Rightarrow> do {
          items \<leftarrow> as_slice b;
          old \<leftarrow> rs_index items i;
          if bi_last_ok item \<le> bi_last_ok old then Some (Inr (), b)
          else do {
            (_, b) \<leftarrow> arr_remove b i;
            bk_insert_sorted b item
          }
        }
      | None \<Rightarrow> bk_insert_sorted b item)
   }"

definition bk_update_ok :: "'e bucket \<Rightarrow> 'e node_info \<Rightarrow> int \<Rightarrow> (bool \<times> 'e bucket) option" where
  "bk_update_ok b info when = do {
     r \<leftarrow> bk_position b (ni_id info);
     (case r of
        None \<Rightarrow> Some (False, b)
      | Some i \<Rightarrow> do {
          items \<leftarrow> as_slice b;
          old \<leftarrow> rs_index items i;
          if Some when \<le> bi_last_ok old then Some (True, b)
          else do {
            (_, b) \<leftarrow> arr_remove b i;
            (r, b) \<leftarrow> bk_insert_sorted b (bi_new info (Some when));
            (case r of Inl _ \<Rightarrow> None | Inr _ \<Rightarrow> Some (True, b))
          }
        })
   }"

definition bk_update_err :: "'e bucket \<Rightarrow> node_id \<Rightarrow> 'e bucket option" where
  "bk_update_err b a = do {
     r \<leftarrow> bk_position b a;
     (case r of
        None \<Rightarrow> Some b
      | Some i \<Rightarrow> do {
          items \<leftarrow> as_slice b;
          old \<leftarrow> rs_index items i;
          let item = old\<lparr>bi_num_errs := bi_num_errs old + 1\<rparr>;
          let b = b\<lparr>acells := (acells b)[i := Some item]\<rparr>;
          if bi_num_errs item \<ge> FAILURE_THRESHOLD
          then do { (_, b) \<leftarrow> arr_remove b i; Some b }
          else Some b
        })
   }"

definition bk_remove :: "'e bucket \<Rightarrow> node_id \<Rightarrow> ('e bucket_item option \<times> 'e bucket) option" where
  "bk_remove b a = do {
     r \<leftarrow> bk_position b a;
     (case r of
        None \<Rightarrow> Some (None, b)
      | Some i \<Rightarrow> do { (item, b) \<leftarrow> arr_remove b i; Some (Some item, b) })
   }"

section \<open>Refresh queue\<close>

type_synonym refresh_queue = "(int \<times> nat) list"

definition REFRESH_TIMEOUT :: int where "REFRESH_TIMEOUT = minutes 15"

definition rq_new :: refresh_queue where "rq_new = []"

definition rq_insert_sorted :: "refresh_queue \<Rightarrow> int \<times> nat \<Rightarrow> refresh_queue" where
  "rq_insert_sorted q p = insert_nth (partition_point (\<lambda>e. fst e \<le> fst p) q) p q"

definition rq_insert :: "refresh_queue \<Rightarrow> nat \<Rightarrow> int \<Rightarrow> refresh_queue" where
  "rq_insert q bucket_index when =
     (let deadline = when + REFRESH_TIMEOUT in
      case position (\<lambda>e. snd e = bucket_index) q of
        Some i \<Rightarrow>
          if fst (q ! i) \<ge> deadline then q
          else rq_insert_sorted (remove_nth i q) (deadline, bucket_index)
      | None \<Rightarrow> rq_insert_sorted q (deadline, bucket_index))"

definition rq_peek :: "refresh_queue \<Rightarrow> (int \<times> nat) option" where
  "rq_peek q = (case q of [] \<Rightarrow> None | e # _ \<Rightarrow> Some e)"

definition rq_next :: "refresh_queue \<Rightarrow> (int \<times> nat) option \<times> refresh_queue" where
  "rq_next q = (case q of [] \<Rightarrow> (None, q) | e # q \<Rightarrow> (Some e, q))"

section \<open>Table\<close>

record 'e table =
  tb_self_id :: node_id
  tb_buckets :: "'e bucket list"
  tb_refresh :: refresh_queue

record 'e full =
  fl_item :: "'e bucket_item"
  fl_stale :: "'e node_info list"

definition tb_new :: "node_id \<Rightarrow> 'e table" where
  "tb_new self_id = \<lparr>tb_self_id = self_id, tb_buckets = [bk_new], tb_refresh = rq_new\<rparr>"

definition tb_position :: "'e table \<Rightarrow> node_id \<Rightarrow> nat option" where
  "tb_position t a = do {
     m \<leftarrow> rs_sub (length (tb_buckets t)) 1;
     Some (min (leading_zeros (distance (tb_self_id t) a)) m)
   }"

fun closest_loop :: "'e bucket list \<Rightarrow> 'e node_info arr \<Rightarrow> 'e node_info arr option" where
  "closest_loop [] infos = Some infos"
| "closest_loop (b # bs) infos = do {
     xs \<leftarrow> bk_iter b;
     infos \<leftarrow> arr_extend infos xs;
     if arr_is_full infos then Some infos else closest_loop bs infos
   }"

definition get_closest :: "'e table \<Rightarrow> node_id \<Rightarrow> 'e node_info list option" where
  "get_closest t a = do {
     i \<leftarrow> tb_position t a;
     infos \<leftarrow> closest_loop (drop i (tb_buckets t)) (arr_new K);
     xs \<leftarrow> as_slice infos;
     Some (sort_key (\<lambda>info. distance (ni_id info) a) xs)
   }"

function insert_loop :: "'e table \<Rightarrow> 'e bucket_item \<Rightarrow> int \<Rightarrow> (('e full + unit) \<times> 'e table) option" where
  "insert_loop t item now =
     (if length (tb_buckets t) \<le> NODE_ID_BIT_SIZE
      then do {
        i \<leftarrow> tb_position t (bi_id item);
        b \<leftarrow> rs_index (tb_buckets t) i;
        (r, b) \<leftarrow> bk_insert b item;
        (case r of
           Inr _ \<Rightarrow>
             Some (Inr (), t\<lparr>tb_buckets := (tb_buckets t)[i := b], tb_refresh := rq_insert (tb_refresh t) i now\<rparr>)
         | Inl item' \<Rightarrow>
             if i + 1 < length (tb_buckets t)
             then do {
               stale \<leftarrow> bk_stale b now;
               Some (Inl \<lparr>fl_item = item', fl_stale = stale\<rparr>, t\<lparr>tb_buckets := (tb_buckets t)[i := b]\<rparr>)
             }
             else do {
               v \<leftarrow> rs_index (node_bits (tb_self_id t)) i;
               (b, closer) \<leftarrow> split_off b i v;
               insert_loop (t\<lparr>tb_buckets := (tb_buckets t)[i := b] @ [closer]\<rparr>) item' now
             })
      }
      else None)"
  by pat_completeness auto
termination
  by (relation "measure (\<lambda>(t, item, now). 161 - length (tb_buckets t))") auto

declare insert_loop.simps [simp del]

definition tb_insert ::
  "'e table \<Rightarrow> 'e node_info \<Rightarrow> int option \<Rightarrow> int \<Rightarrow> (('e full + unit) \<times> 'e table) option" where
  "tb_insert t info last_ok clock =
     insert_loop t (bi_new info last_ok) (case last_ok of Some when \<Rightarrow> when | None \<Rightarrow> clock)"

definition tb_update_ok :: "'e table \<Rightarrow> 'e node_info \<Rightarrow> int \<Rightarrow> 'e table option" where
  "tb_update_ok t info when = do {
     i \<leftarrow> tb_position t (ni_id info);
     b \<leftarrow> rs_index (tb_buckets t) i;
     (found, b) \<leftarrow> bk_update_ok b info when;
     let t = t\<lparr>tb_buckets := (tb_buckets t)[i := b]\<rparr>;
     Some (if found then t\<lparr>tb_refresh := rq_insert (tb_refresh t) i when\<rparr> else t)
   }"

definition tb_update_err :: "'e table \<Rightarrow> node_id \<Rightarrow> 'e table option" where
  "tb_update_err t a = do {
     i \<leftarrow> tb_position t a;
     b \<leftarrow> rs_index (tb_buckets t) i;
     b \<leftarrow> bk_update_err b a;
     Some (t\<lparr>tb_buckets := (tb_buckets t)[i := b]\<rparr>)
   }"

definition peek_refresh_deadline :: "'e table \<Rightarrow> int option" where
  "peek_refresh_deadline t = map_option fst (rq_peek (tb_refresh t))"

definition next_refresh :: "'e table \<Rightarrow> nat option \<times> 'e table" where
  "next_refresh t =
     (case rq_next (tb_refresh t) of (r, q) \<Rightarrow> (map_option snd r, t\<lparr>tb_refresh := q\<rparr>))"

definition full_next :: "'e full \<Rightarrow> 'e node_info option \<times> 'e full" where
  "full_next f =
     (case fl_stale f of [] \<Rightarrow> (None, f) | info # rest \<Rightarrow> (Some info, f\<lparr>fl_stale := rest\<rparr>))"

definition full_ok :: "'e full \<Rightarrow> 'e table \<Rightarrow> 'e node_info \<Rightarrow> int \<Rightarrow> 'e table option" where
  "full_ok f t info when = do {
     i \<leftarrow> tb_position t (bi_id (fl_item f));
     b \<leftarrow> rs_index (tb_buckets t) i;
     (found, b) \<leftarrow> bk_update_ok b info when;
     let t = t\<lparr>tb_buckets := (tb_buckets t)[i := b]\<rparr>;
     Some (if found then t\<lparr>tb_refresh := rq_insert (tb_refresh t) i when\<rparr> else t)
   }"

definition full_err :: "'e full \<Rightarrow> 'e table \<Rightarrow> node_id \<Rightarrow> ('e full option \<times> 'e table) option" where
  "full_err f t a = do {
     i \<leftarrow> tb_position t a;
     b \<leftarrow> rs_index (tb_buckets t) i;
     (_, b) \<leftarrow> bk_remove b a;
     (r, b) \<leftarrow> bk_insert b (fl_item f);
     let t = t\<lparr>tb_buckets := (tb_buckets t)[i := b]\<rparr>;
     Some (case r of Inl item \<Rightarrow> Some (f\<lparr>fl_item := item\<rparr>) | Inr _ \<Rightarrow> None, t)
   }"

section \<open>Bucket invariants\<close>

lemma K_eq [simp]: "K = 8"
  by (simp add: K_def)

definition bk_rep :: "'e bucket \<Rightarrow> 'e bucket_item list \<Rightarrow> bool" where
  "bk_rep b xs \<longleftrightarrow> arr_rep b xs \<and> acap b = K"

definition bk_wf :: "'e bucket_item list \<Rightarrow> bool" where
  "bk_wf xs \<longleftrightarrow> sorted (map bi_last_ok xs) \<and> distinct (map bi_id xs)"

definition ins_at :: "('a \<Rightarrow> 'k :: linorder) \<Rightarrow> 'a \<Rightarrow> 'a list \<Rightarrow> 'a list" where
  "ins_at f x xs = takeWhile (\<lambda>y. f y \<le> f x) xs @ x # dropWhile (\<lambda>y. f y \<le> f x) xs"

lemma mset_ins_at [simp]: "mset (ins_at f x xs) = add_mset x (mset xs)"
proof -
  have "mset xs = mset (takeWhile (\<lambda>y. f y \<le> f x) xs) + mset (dropWhile (\<lambda>y. f y \<le> f x) xs)"
    by (metis mset_append takeWhile_dropWhile_id)
  then show ?thesis by (simp add: ins_at_def)
qed

lemma set_ins_at [simp]: "set (ins_at f x xs) = insert x (set xs)"
  using mset_ins_at [of f x xs] by (metis set_mset_add_mset_insert set_mset_mset)

lemma sorted_middle:
  "sorted (map f t) \<Longrightarrow> sorted (map f d) \<Longrightarrow> \<forall>y \<in> set t. f y \<le> f x \<Longrightarrow> \<forall>z \<in> set d. f x \<le> f z \<Longrightarrow>
    sorted (map f (t @ x # d))"
  by (auto simp: sorted_append intro: order_trans)

lemma sorted_ins_at:
  assumes "sorted (map f xs)"
  shows "sorted (map f (ins_at f x xs))"
proof -
  let ?t = "takeWhile (\<lambda>y. f y \<le> f x) xs" and ?d = "dropWhile (\<lambda>y. f y \<le> f x) xs"
  have "sorted (map f ?t @ map f ?d)" using assms by (simp flip: map_append)
  then have s: "sorted (map f ?t)" "sorted (map f ?d)"
    by (simp_all only: sorted_append)
  have t: "\<forall>y \<in> set ?t. f y \<le> f x" by (auto dest: set_takeWhileD)
  have "\<forall>z \<in> set ?d. f x \<le> f z"
  proof (cases ?d)
    case Nil
    then show ?thesis by (metis empty_iff list.set(1))
  next
    case (Cons z zs)
    then have "f x < f z" by (metis dropWhile_eq_Cons_conv not_le)
    then show ?thesis using s(2) Cons by auto
  qed
  with s t show ?thesis unfolding ins_at_def by (rule sorted_middle)
qed

lemma distinct_ins_at: "distinct (map g (ins_at f x xs)) \<longleftrightarrow> g x \<notin> g ` set xs \<and> distinct (map g xs)"
proof -
  have "mset (map g (ins_at f x xs)) = mset (g x # map g xs)" by simp
  then have "distinct (map g (ins_at f x xs)) \<longleftrightarrow> distinct (g x # map g xs)"
    by (rule mset_eq_imp_distinct_iff)
  then show ?thesis by simp
qed

lemma bk_rep_new: "bk_rep bk_new []"
  by (simp add: bk_rep_def bk_new_def arr_rep_new)

lemma bk_repD: "bk_rep b xs \<Longrightarrow> as_slice b = Some xs" "bk_rep b xs \<Longrightarrow> length xs \<le> 8"
  "bk_rep b xs \<Longrightarrow> alen b = length xs"
  using av.rep_le [of b xs] by (auto simp: bk_rep_def av.slice arr_rep_def)

lemma bk_remove_at:
  assumes "bk_rep b xs" and "i < length xs"
  obtains b' where "arr_remove b i = Some (xs ! i, b')" "bk_rep b' (remove_nth i xs)"
  using av.remove [of b xs i] assms by (auto simp: bk_rep_def)

lemma bk_remove_split:
  assumes "bk_rep b (ys @ old # zs)"
  obtains b' where "arr_remove b (length ys) = Some (old, b')" "bk_rep b' (ys @ zs)"
proof -
  have "length ys < length (ys @ old # zs)" by simp
  from bk_remove_at [OF assms this] that show thesis by auto
qed

lemma bk_insert_sorted_ok:
  assumes "bk_rep b xs"
  shows "length xs = 8 \<Longrightarrow> bk_insert_sorted b item = Some (Inl item, b)"
    and "length xs < 8 \<Longrightarrow>
      \<exists>b'. bk_insert_sorted b item = Some (Inr (), b') \<and> bk_rep b' (ins_at bi_last_ok item xs)"
proof -
  have r: "arr_rep b xs" "acap b = 8" using assms by (auto simp: bk_rep_def)
  show "length xs = 8 \<Longrightarrow> bk_insert_sorted b item = Some (Inl item, b)"
    using av.insert_sorted(1) [OF r(1), of bi_last_ok item] r
    by (simp add: bk_insert_sorted_def bk_partition_point_def av.slice)
  show "length xs < 8 \<Longrightarrow>
      \<exists>b'. bk_insert_sorted b item = Some (Inr (), b') \<and> bk_rep b' (ins_at bi_last_ok item xs)"
    using av.insert_sorted(2) [OF r(1), of bi_last_ok item] r
    by (auto simp: bk_insert_sorted_def bk_partition_point_def av.slice bk_rep_def ins_at_def)
qed

text \<open>Where an id stands in a bucket.\<close>

lemma bk_position_cases:
  assumes "bk_rep b xs" and "bk_wf xs"
  obtains (absent) "bk_position b a = Some None" "a \<notin> bi_id ` set xs"
  | (present) i ys old zs where "bk_position b a = Some (Some i)" "xs = ys @ old # zs" "length ys = i"
      "bi_id old = a" "a \<notin> bi_id ` set (ys @ zs)"
proof (cases "position (\<lambda>item. bi_id item = a) xs")
  case None
  then show thesis using absent bk_repD(1) [OF assms(1)] by (auto simp: bk_position_def position_None)
next
  case (Some i)
  obtain ys old zs where s: "xs = ys @ old # zs" "length ys = i" "bi_id old = a"
    by (rule position_split [OF Some])
  moreover have "a \<notin> bi_id ` set (ys @ zs)" using assms(2) s by (auto simp: bk_wf_def)
  ultimately show thesis using present bk_repD(1) [OF assms(1)] Some by (simp add: bk_position_def)
qed

lemma bk_wf_remove: "bk_wf (ys @ old # zs) \<Longrightarrow> bk_wf (ys @ zs)"
  by (auto simp: bk_wf_def sorted_append)

lemma bk_wf_ins_at: "bk_wf xs \<Longrightarrow> bi_id item \<notin> bi_id ` set xs \<Longrightarrow> bk_wf (ins_at bi_last_ok item xs)"
  by (auto simp: bk_wf_def sorted_ins_at distinct_ins_at)

lemma bk_replace:
  assumes "bk_rep b (ys @ old # zs)" and "bk_wf (ys @ old # zs)" and "bi_id item = bi_id old"
  obtains b1 b' where "arr_remove b (length ys) = Some (old, b1)" "bk_insert_sorted b1 item = Some (Inr (), b')"
    "bk_rep b' (ins_at bi_last_ok item (ys @ zs))" "bk_wf (ins_at bi_last_ok item (ys @ zs))"
proof -
  obtain b1 where b1: "arr_remove b (length ys) = Some (old, b1)" "bk_rep b1 (ys @ zs)"
    by (rule bk_remove_split [OF assms(1)])
  have "length (ys @ zs) < 8" using bk_repD(2) [OF assms(1)] by simp
  from bk_insert_sorted_ok(2) [OF b1(2) this, of item] obtain b' where
    b': "bk_insert_sorted b1 item = Some (Inr (), b')" "bk_rep b' (ins_at bi_last_ok item (ys @ zs))" by blast
  have "bi_id item \<notin> bi_id ` set (ys @ zs)" using assms(2,3) by (auto simp: bk_wf_def)
  from bk_wf_ins_at [OF bk_wf_remove [OF assms(2)] this] that [OF b1(1) b'] show thesis by blast
qed

lemma bk_insert_ok:
  assumes r: "bk_rep b xs" and w: "bk_wf xs"
  shows "\<exists>r b' xs'. bk_insert b item = Some (r, b') \<and> bk_rep b' xs' \<and> bk_wf xs' \<and>
    (case r of
       Inr _ \<Rightarrow> bi_id ` set xs' = insert (bi_id item) (bi_id ` set xs)
     | Inl item' \<Rightarrow> item' = item \<and> xs' = xs \<and> length xs = 8 \<and> bi_id item \<notin> bi_id ` set xs)"
  using r w
proof (cases rule: bk_position_cases [where a = "bi_id item"])
  case absent
  show ?thesis
  proof (cases "length xs = 8")
    case True
    with absent bk_insert_sorted_ok(1) [OF r True, of item] r w show ?thesis by (simp add: bk_insert_def)
  next
    case False
    then have "length xs < 8" using bk_repD(2) [OF r] by simp
    from bk_insert_sorted_ok(2) [OF r this, of item] obtain b' where
      "bk_insert_sorted b item = Some (Inr (), b')" "bk_rep b' (ins_at bi_last_ok item xs)" by blast
    moreover from this have "bk_insert b item = Some (Inr (), b')" using absent by (simp add: bk_insert_def)
    moreover have "bi_id ` set (ins_at bi_last_ok item xs) = insert (bi_id item) (bi_id ` set xs)" by auto
    ultimately show ?thesis using bk_wf_ins_at [OF w absent(2)]
      by (intro exI [of _ "Inr ()"] exI [of _ b'] exI [of _ "ins_at bi_last_ok item xs"]) simp
  qed
next
  case (present i ys old zs)
  have idx: "as_slice b = Some xs" "rs_index xs i = Some old"
    using bk_repD(1) [OF r] present(2,3) by (auto simp: rs_index_def)
  show ?thesis
  proof (cases "bi_last_ok item \<le> bi_last_ok old")
    case True
    have "bi_id item \<in> bi_id ` set xs" using present(2,4) by auto
    with True present(1) idx r w show ?thesis by (auto simp: bk_insert_def insert_absorb)
  next
    case False
    obtain b1 b' where "arr_remove b (length ys) = Some (old, b1)" "bk_insert_sorted b1 item = Some (Inr (), b')"
      "bk_rep b' (ins_at bi_last_ok item (ys @ zs))" "bk_wf (ins_at bi_last_ok item (ys @ zs))"
      using bk_replace [of b ys old zs item] r w present(2,4) by metis
    moreover have "bk_insert b item = Some (Inr (), b')"
      using calculation(1,2) False present(1,3) idx by (simp add: bk_insert_def)
    moreover have "bi_id ` set (ins_at bi_last_ok item (ys @ zs)) = insert (bi_id item) (bi_id ` set xs)"
      using present(2,4) by auto
    ultimately show ?thesis
      by (intro exI [of _ "Inr ()"] exI [of _ b'] exI [of _ "ins_at bi_last_ok item (ys @ zs)"]) simp
  qed
qed

lemma bk_update_ok_ok:
  assumes r: "bk_rep b xs" and w: "bk_wf xs"
  shows "\<exists>b' xs'. bk_update_ok b info when = Some (ni_id info \<in> bi_id ` set xs, b') \<and> bk_rep b' xs' \<and>
    bk_wf xs' \<and> bi_id ` set xs' = bi_id ` set xs"
  using r w
proof (cases rule: bk_position_cases [where a = "ni_id info"])
  case absent
  with r w show ?thesis by (auto simp: bk_update_ok_def)
next
  case (present i ys old zs)
  have idx: "as_slice b = Some xs" "rs_index xs i = Some old"
    using bk_repD(1) [OF r] present(2,3) by (auto simp: rs_index_def)
  have m: "ni_id info \<in> bi_id ` set xs" using present(2,4) by auto
  show ?thesis
  proof (cases "Some when \<le> bi_last_ok old")
    case True
    with present(1) idx r w m show ?thesis by (auto simp: bk_update_ok_def)
  next
    case False
    let ?item = "bi_new info (Some when)"
    have "bi_id ?item = bi_id old" using present(4) by (simp add: bi_new_def)
    then obtain b1 b' where "arr_remove b (length ys) = Some (old, b1)" "bk_insert_sorted b1 ?item = Some (Inr (), b')"
      "bk_rep b' (ins_at bi_last_ok ?item (ys @ zs))" "bk_wf (ins_at bi_last_ok ?item (ys @ zs))"
      using bk_replace [of b ys old zs ?item] r w present(2) by metis
    moreover have "bi_id ` set (ins_at bi_last_ok ?item (ys @ zs)) = bi_id ` set xs"
      using present(2,4) by (auto simp: bi_new_def)
    moreover have "bk_update_ok b info when = Some (ni_id info \<in> bi_id ` set xs, b')"
      using calculation(1,2) False present(1,3) idx m by (simp add: bk_update_ok_def)
    ultimately show ?thesis by blast
  qed
qed

lemma image_remove:
  assumes "f old = a" and "a \<notin> f ` set (ys @ zs)"
  shows "f ` set (ys @ zs) = f ` set (ys @ old # zs) - {a}"
proof -
  have "f ` set (ys @ old # zs) = insert a (f ` set (ys @ zs))" using assms(1) by auto
  with assms(2) show ?thesis by blast
qed

lemma bk_remove_ok:
  assumes r: "bk_rep b xs" and w: "bk_wf xs"
  shows "\<exists>item b' xs'. bk_remove b a = Some (item, b') \<and> bk_rep b' xs' \<and> bk_wf xs' \<and>
    bi_id ` set xs' = bi_id ` set xs - {a}"
  using r w
proof (cases rule: bk_position_cases [where a = a])
  case absent
  then have "bi_id ` set xs - {a} = bi_id ` set xs" by blast
  with absent r w show ?thesis
    by (intro exI [of _ None] exI [of _ b] exI [of _ xs]) (simp add: bk_remove_def)
next
  case (present i ys old zs)
  obtain b' where "arr_remove b i = Some (old, b')" "bk_rep b' (ys @ zs)"
    using bk_remove_split r present(2,3) by blast
  then have "bk_remove b a = Some (Some old, b')" "bk_rep b' (ys @ zs)"
    using present(1) by (simp_all add: bk_remove_def)
  with image_remove [of bi_id, OF present(4,5)] bk_wf_remove [of ys old zs] w show ?thesis
    unfolding present(2) by blast
qed

lemma bk_rep_update:
  assumes "bk_rep b (ys @ old # zs)"
  shows "bk_rep (b\<lparr>acells := (acells b)[length ys := Some item]\<rparr>) (ys @ item # zs)"
  using assms by (auto simp: bk_rep_def elim!: arr_repE) (auto simp: arr_rep_def list_update_append)

lemma bk_update_err_ok:
  assumes r: "bk_rep b xs" and w: "bk_wf xs"
  shows "\<exists>b' xs'. bk_update_err b a = Some b' \<and> bk_rep b' xs' \<and> bk_wf xs' \<and>
    bi_id ` set xs' \<subseteq> bi_id ` set xs \<and> bi_id ` set xs - {a} \<subseteq> bi_id ` set xs'"
  using r w
proof (cases rule: bk_position_cases [where a = a])
  case absent
  with r w show ?thesis by (auto simp: bk_update_err_def)
next
  case (present i ys old zs)
  let ?item = "old\<lparr>bi_num_errs := bi_num_errs old + 1\<rparr>"
  let ?b = "b\<lparr>acells := (acells b)[i := Some ?item]\<rparr>"
  have idx: "as_slice b = Some xs" "rs_index xs i = Some old"
    using bk_repD(1) [OF r] present(2,3) by (auto simp: rs_index_def)
  have rep: "bk_rep ?b (ys @ ?item # zs)" using bk_rep_update [of b ys old zs ?item] r present(2,3) by simp
  show ?thesis
  proof (cases "bi_num_errs ?item \<ge> FAILURE_THRESHOLD")
    case True
    obtain b' where b': "arr_remove ?b i = Some (?item, b')" "bk_rep b' (ys @ zs)"
      using bk_remove_split rep present(3) by blast
    with True present(1) idx have "bk_update_err b a = Some b'" by (simp add: bk_update_err_def)
    with b'(2) bk_wf_remove [of ys old zs] w present(2,4) show ?thesis
      by (intro exI [of _ b'] exI [of _ "ys @ zs"]) auto
  next
    case False
    with present(1) idx have "bk_update_err b a = Some ?b" by (simp add: bk_update_err_def)
    moreover have "bk_wf (ys @ ?item # zs)" using w present(2) by (simp add: bk_wf_def)
    ultimately show ?thesis using rep present(2)
      by (intro exI [of _ ?b] exI [of _ "ys @ ?item # zs"]) auto
  qed
qed

text \<open>Splitting a bucket partitions it.\<close>

abbreviation id_bit :: "nat \<Rightarrow> 'e bucket_item \<Rightarrow> bool" where
  "id_bit k item \<equiv> node_bits (bi_id item) ! k"

lemma split_loop_ok:
  assumes "bk_rep b (ys @ zs)" and "bk_rep c cs" and "length cs + length zs \<le> 8"
    and "k < 160" and "\<forall>item \<in> set zs. node_ok (bi_id item)"
  shows "\<exists>b' c'. split_loop b c (length ys) k v = Some (b', c') \<and>
    bk_rep b' (ys @ filter (\<lambda>item. id_bit k item \<noteq> v) zs) \<and>
    bk_rep c' (cs @ filter (\<lambda>item. id_bit k item = v) zs)"
  using assms
proof (induction zs arbitrary: b c ys cs)
  case Nil
  then show ?case using bk_repD(3) [OF Nil(1)] by (subst split_loop.simps) simp
next
  case (Cons z zs)
  have len: "length ys < alen b" using bk_repD(3) [OF Cons.prems(1)] by simp
  have idx: "as_slice b = Some (ys @ z # zs)" "rs_index (ys @ z # zs) (length ys) = Some z"
    using bk_repD(1) [OF Cons.prems(1)] by (auto simp: rs_index_def)
  have bit: "rs_index (node_bits (bi_id z)) k = Some (id_bit k z)" using Cons.prems(4,5) by simp
  show ?case
  proof (cases "id_bit k z = v")
    case True
    obtain b1 where b1: "arr_remove b (length ys) = Some (z, b1)" "bk_rep b1 (ys @ zs)"
      by (rule bk_remove_split [OF Cons.prems(1)])
    obtain c1 where c1: "arr_push c z = Some c1" "bk_rep c1 (cs @ [z])"
      using arr_push_rep(2) [of c cs z] Cons.prems(2,3) by (auto simp: arr_push_def bk_rep_def)
    have "split_loop b c (length ys) k v = split_loop b1 c1 (length ys) k v"
      using len idx bit True b1(1) c1(1) by (subst split_loop.simps) simp
    with Cons.IH [OF b1(2) c1(2)] Cons.prems(3-5) True show ?thesis by simp
  next
    case False
    have "split_loop b c (length ys) k v = split_loop b c (length (ys @ [z])) k v"
      using len idx bit False by (subst split_loop.simps) simp
    with Cons.IH [of b "ys @ [z]" c cs] Cons.prems False show ?thesis by simp
  qed
qed

lemma split_off_ok:
  assumes "bk_rep b xs" and "k < 160" and "\<forall>item \<in> set xs. node_ok (bi_id item)"
  shows "\<exists>b' c'. split_off b k v = Some (b', c') \<and> bk_rep b' (filter (\<lambda>item. id_bit k item \<noteq> v) xs) \<and>
    bk_rep c' (filter (\<lambda>item. id_bit k item = v) xs)"
  using split_loop_ok [of b "[]" xs bk_new "[]" k v] bk_rep_new bk_repD(2) [OF assms(1)] assms
  by (simp add: split_off_def)

lemma bk_wf_filter: "bk_wf xs \<Longrightarrow> bk_wf (filter P xs)"
  by (simp add: bk_wf_def sorted_filter distinct_map_filter)

section \<open>Refresh queue invariant\<close>

definition rq_ok :: "refresh_queue \<Rightarrow> bool" where
  "rq_ok q \<longleftrightarrow> sorted (map fst q) \<and> distinct (map snd q)"

lemma rq_insert_sorted_eq: "rq_insert_sorted q p = ins_at fst p q"
  by (simp add: rq_insert_sorted_def insert_nth_def ins_at_def)

lemma rq_insert_ok:
  assumes "rq_ok q"
  shows "rq_ok (rq_insert q i when) \<and>
    set (rq_insert q i when) =
      {e \<in> set q. snd e \<noteq> i} \<union> {(Max (insert (when + REFRESH_TIMEOUT) (fst ` {e \<in> set q. snd e = i})), i)}"
proof (cases "position (\<lambda>e. snd e = i) q")
  case None
  then have n: "\<forall>e \<in> set q. snd e \<noteq> i" by (simp add: position_None)
  then have c: "{e \<in> set q. snd e \<noteq> i} = set q" "{e \<in> set q. snd e = i} = {}" by auto
  have r: "rq_insert q i when = ins_at fst (when + REFRESH_TIMEOUT, i) q"
    using None by (simp add: rq_insert_def rq_insert_sorted_eq)
  have "i \<notin> snd ` set q" using n by auto
  with assms show ?thesis unfolding c r by (simp add: rq_ok_def sorted_ins_at distinct_ins_at)
next
  case (Some k)
  obtain ys e zs where s: "q = ys @ e # zs" "length ys = k" "snd e = i"
    by (rule position_split [OF Some])
  have d: "i \<notin> snd ` set (ys @ zs)" using assms s by (auto simp: rq_ok_def)
  have n: "\<forall>x \<in> set (ys @ zs). snd x \<noteq> i" using d by blast
  have one: "{e \<in> set q. snd e = i} = {e}" "{e \<in> set q. snd e \<noteq> i} = set (ys @ zs)"
    using n s by auto
  have nk: "q ! k = e" "remove_nth k q = ys @ zs" using s by auto
  have e: "e = (fst e, i)" using s(3) by (cases e) simp
  show ?thesis
  proof (cases "when + REFRESH_TIMEOUT \<le> fst e")
    case True
    then have "rq_insert q i when = q" using Some nk by (simp add: rq_insert_def)
    moreover have "Max (insert (when + REFRESH_TIMEOUT) (fst ` {e})) = fst e" using True by simp
    moreover have "set q = set (ys @ zs) \<union> {(fst e, i)}" using s e by auto
    ultimately show ?thesis using assms unfolding one by simp
  next
    case False
    then have "rq_insert q i when = ins_at fst (when + REFRESH_TIMEOUT, i) (ys @ zs)"
      using Some nk by (simp add: rq_insert_def rq_insert_sorted_eq)
    moreover have "Max (insert (when + REFRESH_TIMEOUT) (fst ` {e})) = when + REFRESH_TIMEOUT" using False by simp
    moreover have "rq_ok (ys @ zs)" using assms s by (auto simp: rq_ok_def sorted_append)
    ultimately show ?thesis using d unfolding one
      by (simp add: rq_ok_def sorted_ins_at distinct_ins_at)
  qed
qed

lemma rq_next_ok: "rq_ok q \<Longrightarrow> rq_ok (snd (rq_next q)) \<and> set (snd (rq_next q)) \<subseteq> set q"
  by (cases q) (auto simp: rq_next_def rq_ok_def)

section \<open>Table invariant\<close>

definition bucket_of :: "node_id \<Rightarrow> nat \<Rightarrow> node_id \<Rightarrow> nat" where
  "bucket_of self n a = min (leading_zeros (distance self a)) (n - 1)"

definition max_buckets :: nat where
  "max_buckets = NODE_ID_BIT_SIZE - 2"

definition tb_wf :: "node_id \<Rightarrow> 'e bucket_item list list \<Rightarrow> bool" where
  "tb_wf self xss \<longleftrightarrow> node_ok self \<and> xss \<noteq> [] \<and> length xss \<le> max_buckets \<and>
     (\<forall>i < length xss. bk_wf (xss ! i) \<and>
        (\<forall>item \<in> set (xss ! i). node_ok (bi_id item) \<and> bucket_of self (length xss) (bi_id item) = i))"

definition tb_inv :: "'e table \<Rightarrow> 'e bucket_item list list \<Rightarrow> bool" where
  "tb_inv t xss \<longleftrightarrow> list_all2 bk_rep (tb_buckets t) xss \<and> tb_wf (tb_self_id t) xss \<and>
     rq_ok (tb_refresh t) \<and> (\<forall>e \<in> set (tb_refresh t). snd e < length xss)"

definition tb_ids :: "'e bucket_item list list \<Rightarrow> node_id set" where
  "tb_ids xss = (\<Union>j < length xss. bi_id ` set (xss ! j))"

lemma tb_wfD:
  assumes "tb_wf self xss" and "i < length xss"
  shows "bk_wf (xss ! i)"
    and "item \<in> set (xss ! i) \<Longrightarrow> node_ok (bi_id item)"
    and "item \<in> set (xss ! i) \<Longrightarrow> bucket_of self (length xss) (bi_id item) = i"
  using assms by (auto simp: tb_wf_def)

lemma tb_inv_new: "node_ok self \<Longrightarrow> tb_inv (tb_new self) [[]]"
  by (simp add: tb_inv_def tb_new_def bk_rep_new tb_wf_def bk_wf_def rq_ok_def rq_new_def max_buckets_def)

lemma tb_position_ok:
  assumes "tb_inv t xss"
  shows "tb_position t a = Some (bucket_of (tb_self_id t) (length xss) a)"
    and "bucket_of (tb_self_id t) (length xss) a < length xss"
proof -
  have n: "length (tb_buckets t) = length xss" "0 < length xss"
    using assms by (auto simp: tb_inv_def tb_wf_def dest: list_all2_lengthD)
  then show "tb_position t a = Some (bucket_of (tb_self_id t) (length xss) a)"
    by (simp add: tb_position_def rs_sub_def bucket_of_def Suc_le_eq)
  show "bucket_of (tb_self_id t) (length xss) a < length xss"
    using n(2) unfolding bucket_of_def by (intro le_less_trans [OF min.cobounded2]) simp
qed

lemma tb_bucket:
  assumes "tb_inv t xss" and "i < length xss"
  obtains b where "rs_index (tb_buckets t) i = Some b" "bk_rep b (xss ! i)" "bk_wf (xss ! i)"
proof -
  have "list_all2 bk_rep (tb_buckets t) xss" "bk_wf (xss ! i)" using assms by (auto simp: tb_inv_def tb_wf_def)
  with assms(2) show thesis
    using that [of "tb_buckets t ! i"] by (auto simp: list_all2_conv_all_nth)
qed

lemma tb_wf_update:
  assumes "tb_wf self xss" and "i < length xss" and "bk_wf xs"
    and "\<forall>item \<in> set xs. node_ok (bi_id item) \<and> bucket_of self (length xss) (bi_id item) = i"
  shows "tb_wf self (xss[i := xs])"
  using assms unfolding tb_wf_def by (auto simp: nth_list_update)

lemma tb_inv_update:
  assumes "tb_inv t xss" and "i < length xss" and "bk_rep b xs" and "bk_wf xs"
    and "\<forall>item \<in> set xs. node_ok (bi_id item) \<and> bucket_of (tb_self_id t) (length xss) (bi_id item) = i"
  shows "tb_inv (t\<lparr>tb_buckets := (tb_buckets t)[i := b]\<rparr>) (xss[i := xs])"
  using assms tb_wf_update [of "tb_self_id t" xss i xs]
  by (simp add: tb_inv_def list_all2_update_cong)

lemma tb_inv_refresh:
  assumes "tb_inv t xss" and "i < length xss"
  shows "tb_inv (t\<lparr>tb_refresh := rq_insert (tb_refresh t) i when\<rparr>) xss"
  using assms rq_insert_ok [of "tb_refresh t" i "when"] by (auto simp: tb_inv_def)

lemma ids_split:
  assumes "i < length xss"
  shows "tb_ids xss = (\<Union>j \<in> {..<length xss} - {i}. bi_id ` set (xss ! j)) \<union> bi_id ` set (xss ! i)"
proof -
  have "{..<length xss} = insert i ({..<length xss} - {i})" using assms by auto
  then show ?thesis unfolding tb_ids_def by (metis (no_types, lifting) UN_insert Un_commute)
qed

lemma ids_update:
  assumes "i < length xss"
  shows "tb_ids (xss[i := xs]) = (\<Union>j \<in> {..<length xss} - {i}. bi_id ` set (xss ! j)) \<union> bi_id ` set xs"
  using assms ids_split [of i "xss[i := xs]"] by simp

lemma ids_update_insert:
  "i < length xss \<Longrightarrow> bi_id ` set xs = insert a (bi_id ` set (xss ! i)) \<Longrightarrow>
    tb_ids (xss[i := xs]) = insert a (tb_ids xss)"
  unfolding ids_update by (simp add: ids_split [of i xss])

lemma ids_update_same:
  "i < length xss \<Longrightarrow> bi_id ` set xs = bi_id ` set (xss ! i) \<Longrightarrow> tb_ids (xss[i := xs]) = tb_ids xss"
  unfolding ids_update by (simp add: ids_split [of i xss])

lemma ids_append: "tb_ids (xss @ [xs]) = tb_ids xss \<union> bi_id ` set xs"
  by (simp add: tb_ids_def lessThan_Suc Un_commute nth_append cong: SUP_cong_simp)

text \<open>An id can only stand in its own bucket.\<close>

lemma ids_own_bucket:
  assumes "tb_wf self xss"
  shows "a \<in> tb_ids xss \<longleftrightarrow> bucket_of self (length xss) a < length xss \<and>
    a \<in> bi_id ` set (xss ! bucket_of self (length xss) a)"
  using assms unfolding tb_ids_def tb_wf_def by auto

section \<open>Insertion\<close>

lemma leading_zeros_bit:
  assumes "node_ok a" and "node_ok b" and "k < 160" and "k \<le> leading_zeros (distance a b)"
  shows "Suc k \<le> leading_zeros (distance a b) \<longleftrightarrow> node_bits a ! k = node_bits b ! k"
proof -
  have "Suc k \<le> leading_zeros (distance a b) \<longleftrightarrow> (\<forall>j < Suc k. \<not> distance a b ! j)"
    using assms by (intro leading_zeros_ge_iff) simp
  moreover have "\<forall>j < k. \<not> distance a b ! j"
    using assms leading_zeros_ge_iff [of k "distance a b"] by simp
  ultimately have "Suc k \<le> leading_zeros (distance a b) \<longleftrightarrow> \<not> distance a b ! k"
    by (auto simp: less_Suc_eq)
  then show ?thesis using assms by (simp add: nth_distance)
qed

text \<open>The pigeonhole step: a full last bucket and one more id leave room for another split.\<close>

lemma last_bucket_bound:
  assumes w: "tb_wf self xss" and "node_ok a" and "bucket_of self (length xss) a = length xss - 1"
    and "length (xss ! (length xss - 1)) = 8" and "a \<notin> bi_id ` set (xss ! (length xss - 1))"
  shows "Suc (length xss) \<le> max_buckets"
proof -
  let ?n = "length xss" and ?xs = "xss ! (length xss - 1)"
  let ?S = "insert a (bi_id ` set ?xs)"
  have n: "0 < ?n" "?n \<le> 158" "node_ok self" using w by (auto simp: tb_wf_def max_buckets_def)
  have b: "bk_wf ?xs" "\<forall>item \<in> set ?xs. node_ok (bi_id item) \<and> bucket_of self ?n (bi_id item) = ?n - 1"
    using tb_wfD [OF w, of "?n - 1"] n(1) by auto
  have lz: "?n - 1 \<le> leading_zeros (distance self c)" if "bucket_of self ?n c = ?n - 1" for c
    using that by (simp add: bucket_of_def min_def split: if_splits)
  have "\<forall>c \<in> ?S. node_ok c \<and> ?n - 1 \<le> leading_zeros (distance self c)"
    using b(2) assms(2,3) lz by auto
  then have "card ?S \<le> 2 ^ (160 - (?n - 1))" using n by (intro card_same_prefix) auto
  moreover have "card (bi_id ` set ?xs) = 8"
    using b(1) assms(4) distinct_card [of "map bi_id ?xs"] by (simp add: bk_wf_def)
  then have "card ?S = 9" using assms(5) by (simp add: card_insert_if)
  ultimately have "(2::nat) ^ 3 < 2 ^ (160 - (?n - 1))" by simp
  then have "3 < 160 - (?n - 1)" using power_less_imp_less_exp [of "2::nat" 3] by simp
  then show ?thesis using n by (simp add: max_buckets_def)
qed

lemma split_wf:
  assumes w: "tb_wf self xss" and b: "Suc (length xss) \<le> max_buckets" and xs: "xs = xss ! (length xss - 1)"
    and v: "v = node_bits self ! (length xss - 1)"
  shows "tb_wf self (xss[length xss - 1 := filter (\<lambda>item. id_bit (length xss - 1) item \<noteq> v) xs] @
    [filter (\<lambda>item. id_bit (length xss - 1) item = v) xs])"
proof -
  let ?n = "length xss" and ?far = "filter (\<lambda>item. id_bit (length xss - 1) item \<noteq> v) xs"
  let ?near = "filter (\<lambda>item. id_bit (length xss - 1) item = v) xs"
  have n: "0 < ?n" "?n - 1 < 160" "node_ok self" using w b by (auto simp: tb_wf_def max_buckets_def)
  have old: "bk_wf (xss ! i)" "node_ok (bi_id item)" "bucket_of self ?n (bi_id item) = i"
    if "i < ?n" "item \<in> set (xss ! i)" for i item using tb_wfD [OF w] that by auto
  have wf: "bk_wf xs" using tb_wfD(1) [OF w, of "?n - 1"] n(1) xs by auto
  have last: "node_ok (bi_id item)" "bucket_of self (Suc ?n) (bi_id item) = (if id_bit (?n - 1) item = v then ?n else ?n - 1)"
    if "item \<in> set xs" for item
  proof -
    have o: "node_ok (bi_id item)" "bucket_of self ?n (bi_id item) = ?n - 1"
      using old [of "?n - 1" item] that n(1) xs by auto
    then have "?n - 1 \<le> leading_zeros (distance self (bi_id item))"
      by (simp add: bucket_of_def min_def split: if_splits)
    with leading_zeros_bit [OF n(3) o(1) n(2)] n(1) have
      "?n \<le> leading_zeros (distance self (bi_id item)) \<longleftrightarrow> id_bit (?n - 1) item = v"
      "?n - 1 \<le> leading_zeros (distance self (bi_id item))" using v by auto
    then show "node_ok (bi_id item)"
      "bucket_of self (Suc ?n) (bi_id item) = (if id_bit (?n - 1) item = v then ?n else ?n - 1)"
      using o n(1) by (auto simp: bucket_of_def min_def)
  qed
  have below: "bucket_of self (Suc ?n) (bi_id item) = i" if "i < ?n - 1" "item \<in> set (xss ! i)" for i item
  proof -
    have "bucket_of self ?n (bi_id item) = i" using old(3) [of i item] that by simp
    then show ?thesis using that(1) by (simp add: bucket_of_def min_def split: if_splits)
  qed
  let ?yss = "xss[?n - 1 := ?far] @ [?near]"
  have nth: "i < ?n - 1 \<Longrightarrow> ?yss ! i = xss ! i" "?yss ! (?n - 1) = ?far" "?yss ! ?n = ?near" for i
    using n(1) by (auto simp: nth_append)
  have "bk_wf (?yss ! i) \<and> (\<forall>item \<in> set (?yss ! i). node_ok (bi_id item) \<and>
      bucket_of self (Suc ?n) (bi_id item) = i)" if "i < Suc ?n" for i
  proof -
    from that consider "i < ?n - 1" | "i = ?n - 1" | "i = ?n" by linarith
    then show ?thesis
    proof cases
      case 1
      then have "i < ?n" by simp
      with 1 below old(2) tb_wfD(1) [OF w] show ?thesis unfolding nth(1) [OF 1] by blast
    next
      case 2
      show ?thesis unfolding 2 nth(2) using last bk_wf_filter [OF wf] by simp
    next
      case 3
      show ?thesis unfolding 3 nth(3) using last bk_wf_filter [OF wf] by simp
    qed
  qed
  then show ?thesis using n b unfolding tb_wf_def by simp
qed

lemma list_all2_split:
  assumes "list_all2 P bs xss" and "i < length xss" and "P b xs" and "P c ys"
  shows "list_all2 P (bs[i := b] @ [c]) (xss[i := xs] @ [ys])"
  using assms by (auto intro!: list_all2_appendI list_all2_update_cong)

lemma tb_inv_split:
  assumes t: "tb_inv t xss" and n: "Suc (length xss) \<le> max_buckets"
    and i: "i = length xss - 1" and b: "bk_rep b (xss ! i)"
  obtains b' c where "split_off b i (node_bits (tb_self_id t) ! i) = Some (b', c)"
    "rs_index (node_bits (tb_self_id t)) i = Some (node_bits (tb_self_id t) ! i)"
    "\<exists>xss'. tb_inv (t\<lparr>tb_buckets := (tb_buckets t)[i := b'] @ [c]\<rparr>) xss' \<and> tb_ids xss' = tb_ids xss"
proof -
  let ?self = "tb_self_id t"
  let ?v = "node_bits ?self ! i" and ?xs = "xss ! i"
  let ?far = "filter (\<lambda>item. id_bit i item \<noteq> ?v) ?xs" and ?near = "filter (\<lambda>item. id_bit i item = ?v) ?xs"
  have w: "tb_wf ?self xss" and l2: "list_all2 bk_rep (tb_buckets t) xss" and q: "rq_ok (tb_refresh t)"
    "\<forall>e \<in> set (tb_refresh t). snd e < length xss" using t by (auto simp: tb_inv_def)
  have k: "i < length xss" "i < 160" "node_ok ?self"
    using w n i by (auto simp: tb_wf_def max_buckets_def)
  obtain b' c where s: "split_off b i ?v = Some (b', c)" "bk_rep b' ?far" "bk_rep c ?near"
    using split_off_ok [OF b k(2), of ?v] tb_wfD(2) [OF w k(1)] by blast
  have wf: "tb_wf ?self (xss[i := ?far] @ [?near])" using split_wf [OF w n refl refl] by (simp add: i)
  have "list_all2 bk_rep ((tb_buckets t)[i := b'] @ [c]) (xss[i := ?far] @ [?near])"
    by (rule list_all2_split [OF l2 k(1) s(2,3)])
  then have inv: "tb_inv (t\<lparr>tb_buckets := (tb_buckets t)[i := b'] @ [c]\<rparr>) (xss[i := ?far] @ [?near])"
    using wf q by (auto simp: tb_inv_def)
  have e: "bi_id ` set ?xs = bi_id ` set ?far \<union> bi_id ` set ?near" by auto
  have ids: "tb_ids (xss[i := ?far] @ [?near]) = tb_ids xss"
    unfolding ids_append ids_update [OF k(1)] ids_split [OF k(1)] e by (rule Un_assoc)
  have "rs_index (node_bits ?self) i = Some ?v" using k by simp
  with s(1) show thesis by (rule that) (use inv ids in blast)
qed

text \<open>
  What an insertion leaves: either the id is in the table, or the bucket of the id is full, is not
  the last one, and the table holds the same ids as before.
\<close>

definition insert_post ::
  "'e bucket_item \<Rightarrow> 'e bucket_item list list \<Rightarrow> ('e full + unit) \<Rightarrow> 'e table \<Rightarrow> bool" where
  "insert_post item xss r t' \<longleftrightarrow> (\<exists>xss'. tb_inv t' xss' \<and> length xss \<le> length xss' \<and>
     (case r of
        Inr _ \<Rightarrow> tb_ids xss' = insert (bi_id item) (tb_ids xss)
      | Inl f \<Rightarrow> fl_item f = item \<and> tb_ids xss' = tb_ids xss \<and> bi_id item \<notin> tb_ids xss \<and>
          (let i = bucket_of (tb_self_id t') (length xss') (bi_id item) in
           i + 1 < length xss' \<and> length (xss' ! i) = 8 \<and> set (fl_stale f) \<subseteq> bi_info ` set (xss' ! i) \<and>
           length (fl_stale f) \<le> 8)))"

lemma insert_post_mono:
  assumes "insert_post item xss' r t" and "tb_ids xss' = tb_ids xss" and "length xss \<le> length xss'"
  shows "insert_post item xss r t"
  using assms(1) unfolding insert_post_def assms(2) using assms(3)
  by (elim exE conjE, intro exI conjI) (assumption | erule (1) order_trans)+

lemma bk_stale_ok:
  assumes "bk_rep b xs"
  shows "\<exists>stale. bk_stale b now = Some stale \<and> set stale \<subseteq> bi_info ` set xs \<and> length stale \<le> length xs"
  using bk_repD(1) [OF assms] by (auto simp: bk_stale_def bk_partition_point_def length_takeWhile_le dest: set_takeWhileD)

lemma tb_inv_inserted:
  assumes t: "tb_inv t xss" and i: "i = bucket_of (tb_self_id t) (length xss) (bi_id item)"
    and b: "bk_rep b xs" "bk_wf xs" "bi_id ` set xs = insert (bi_id item) (bi_id ` set (xss ! i))"
    and ok: "node_ok (bi_id item)"
  shows "tb_inv (t\<lparr>tb_buckets := (tb_buckets t)[i := b]\<rparr>) (xss[i := xs])"
    and "tb_ids (xss[i := xs]) = insert (bi_id item) (tb_ids xss)"
proof -
  have w: "tb_wf (tb_self_id t) xss" using t by (simp add: tb_inv_def)
  have l: "i < length xss" using tb_position_ok(2) [OF t] i by simp
  have "node_ok c \<and> bucket_of (tb_self_id t) (length xss) c = i" if "c \<in> bi_id ` set xs" for c
    using that b(3) ok i tb_wfD(2,3) [OF w l] by auto
  then show "tb_inv (t\<lparr>tb_buckets := (tb_buckets t)[i := b]\<rparr>) (xss[i := xs])"
    by (intro tb_inv_update [OF t l b(1,2)]) blast
  show "tb_ids (xss[i := xs]) = insert (bi_id item) (tb_ids xss)" by (rule ids_update_insert [OF l b(3)])
qed

lemma insert_loop_ok:
  assumes "tb_inv t xss" and "node_ok (bi_id item)"
  shows "\<exists>r t'. insert_loop t item now = Some (r, t') \<and> tb_self_id t' = tb_self_id t \<and> insert_post item xss r t'"
  using assms
proof (induction t item now arbitrary: xss rule: insert_loop.induct)
  case (1 t item now)
  let ?i = "bucket_of (tb_self_id t) (length xss) (bi_id item)"
  have w: "tb_wf (tb_self_id t) xss" and len: "length (tb_buckets t) = length xss"
    using 1(2) by (auto simp: tb_inv_def dest: list_all2_lengthD)
  have small: "length (tb_buckets t) \<le> NODE_ID_BIT_SIZE" using w len by (simp add: tb_wf_def max_buckets_def)
  note pos = tb_position_ok [OF 1(2), of "bi_id item"]
  obtain b where b: "rs_index (tb_buckets t) ?i = Some b" "bk_rep b (xss ! ?i)" "bk_wf (xss ! ?i)"
    by (rule tb_bucket [OF 1(2) pos(2)])
  obtain r b' xs' where r: "bk_insert b item = Some (r, b')" "bk_rep b' xs'" "bk_wf xs'"
    "case r of Inr _ \<Rightarrow> bi_id ` set xs' = insert (bi_id item) (bi_id ` set (xss ! ?i))
     | Inl item' \<Rightarrow> item' = item \<and> xs' = xss ! ?i \<and> length (xss ! ?i) = 8 \<and> bi_id item \<notin> bi_id ` set (xss ! ?i)"
    using bk_insert_ok [OF b(2,3), of item] by blast
  show ?case
  proof (cases r)
    case (Inr u)
    note u = tb_inv_inserted [OF 1(2) refl r(2,3) _ 1(3)]
    have ids: "bi_id ` set xs' = insert (bi_id item) (bi_id ` set (xss ! ?i))" using r(4) Inr by simp
    let ?t = "t\<lparr>tb_buckets := (tb_buckets t)[?i := b'], tb_refresh := rq_insert (tb_refresh t) ?i now\<rparr>"
    have "insert_loop t item now = Some (Inr (), ?t)"
      using small pos(1) b(1) r(1) Inr by (subst insert_loop.simps) simp
    moreover have "tb_inv ?t (xss[?i := xs'])"
      using tb_inv_refresh [OF u(1) [OF ids], of ?i now] pos(2) by simp
    ultimately show ?thesis using u(2) [OF ids] by (auto simp: insert_post_def)
  next
    case (Inl item')
    then have f: "item' = item" "xs' = xss ! ?i" "length (xss ! ?i) = 8" "bi_id item \<notin> bi_id ` set (xss ! ?i)"
      using r(4) by auto
    show ?thesis
    proof (cases "?i + 1 < length (tb_buckets t)")
      case True
      obtain stale where stale: "bk_stale b' now = Some stale" "set stale \<subseteq> bi_info ` set (xss ! ?i)"
        "length stale \<le> 8"
        using bk_stale_ok [OF r(2)] f(2,3) by metis
      let ?t = "t\<lparr>tb_buckets := (tb_buckets t)[?i := b']\<rparr>"
      have "insert_loop t item now = Some (Inl \<lparr>fl_item = item, fl_stale = stale\<rparr>, ?t)"
        using small pos(1) b(1) r(1) Inl f(1) True stale(1) by (subst insert_loop.simps) simp
      moreover have "tb_inv ?t (xss[?i := xs'])"
        using tb_wfD(2,3) [OF w pos(2)] f(2) by (intro tb_inv_update [OF 1(2) pos(2) r(2,3)]) auto
      moreover have "bi_id item \<notin> tb_ids xss" using ids_own_bucket [OF w] f(4) by simp
      ultimately show ?thesis using f True stale(2,3) len by (auto simp: insert_post_def Let_def)
    next
      case False
      then have last: "?i = length xss - 1" using pos(2) len by simp
      have "Suc (length xss) \<le> max_buckets"
        using last_bucket_bound [OF w 1(3)] last f(3,4) by simp
      from tb_inv_split [OF 1(2) this last] r(2) f(2) obtain b2 c where
        s: "split_off b' ?i (node_bits (tb_self_id t) ! ?i) = Some (b2, c)"
        "rs_index (node_bits (tb_self_id t)) ?i = Some (node_bits (tb_self_id t) ! ?i)"
        "\<exists>xss'. tb_inv (t\<lparr>tb_buckets := (tb_buckets t)[?i := b2] @ [c]\<rparr>) xss' \<and> tb_ids xss' = tb_ids xss"
        by metis
      let ?t = "t\<lparr>tb_buckets := (tb_buckets t)[?i := b2] @ [c]\<rparr>"
      obtain xss' where x: "tb_inv ?t xss'" "tb_ids xss' = tb_ids xss" using s(3) by blast
      have lx: "length xss' = Suc (length xss)" using x(1) len by (auto simp: tb_inv_def dest: list_all2_lengthD)
      have eq: "insert_loop t item now = insert_loop ?t item now"
        using small pos(1) b(1) r(1) Inl f(1) False s(1,2) by (subst insert_loop.simps) simp
      obtain r2 t2 where "insert_loop ?t item now = Some (r2, t2)" "tb_self_id t2 = tb_self_id ?t"
        "insert_post item xss' r2 t2"
        using 1(1) [OF small pos(1) b(1) r(1) refl Inl False s(2,1) refl x(1)] 1(3) f(1) by blast
      moreover from this(3) have "insert_post item xss r2 t2" using x(2) lx by (auto intro: insert_post_mono)
      ultimately show ?thesis using eq by simp
    qed
  qed
qed

end
