(* ===== verification/Machine.thy ===== *)
theory Machine
  imports Prelude
begin

text \<open>
  Components as machines: a partial step per operation (\<open>None\<close> is a panic), runs over sequences of
  operations, and the contract from which a component's safety over all sequences follows.
\<close>

section \<open>Runs\<close>

fun run_ops :: "('op \<Rightarrow> 's \<Rightarrow> 's option) \<Rightarrow> 'op list \<Rightarrow> 's \<Rightarrow> 's option" where
  "run_ops step [] s = Some s"
| "run_ops step (p # ps) s = do { s \<leftarrow> step p s; run_ops step ps s }"

lemma run_ops_append: "run_ops step (ps @ qs) s = do { s \<leftarrow> run_ops step ps s; run_ops step qs s }"
  by (induction ps arbitrary: s) (auto split: bind_splits)

section \<open>Safe machines\<close>

text \<open>
  The step of every operation that is admissible in the current state returns and keeps the invariant.
  What is admissible may depend on the state, as the callers' obligations do.
\<close>

fun admissible_run :: "('op \<Rightarrow> 's \<Rightarrow> 's option) \<Rightarrow> ('s \<Rightarrow> 'op \<Rightarrow> bool) \<Rightarrow> 'op list \<Rightarrow> 's \<Rightarrow> bool" where
  "admissible_run step adm [] s \<longleftrightarrow> True"
| "admissible_run step adm (p # ps) s \<longleftrightarrow>
     adm s p \<and> (case step p s of None \<Rightarrow> True | Some s' \<Rightarrow> admissible_run step adm ps s')"

lemma admissible_run_append:
  "admissible_run step adm (ps @ qs) s \<longleftrightarrow>
     admissible_run step adm ps s \<and> (case run_ops step ps s of None \<Rightarrow> True | Some s' \<Rightarrow> admissible_run step adm qs s')"
  by (induction ps arbitrary: s) (auto split: option.splits bind_splits)

lemma admissible_run_single: "admissible_run step adm [p] s \<longleftrightarrow> adm s p"
  by (simp split: option.split)

lemma admissible_run_always: "\<forall>p \<in> set ps. \<forall>s. adm s p \<Longrightarrow> admissible_run step adm ps s"
  by (induction ps arbitrary: s) (auto split: option.split)

locale guarded_machine =
  fixes step :: "'op \<Rightarrow> 's \<Rightarrow> 's option" and inv :: "'s \<Rightarrow> bool" and adm :: "'s \<Rightarrow> 'op \<Rightarrow> bool"
  assumes step_guarded: "inv s \<Longrightarrow> adm s p \<Longrightarrow> \<exists>s'. step p s = Some s' \<and> inv s'"
begin

lemma run_guarded:
  "inv s \<Longrightarrow> admissible_run step adm ps s \<Longrightarrow> \<exists>s'. run_ops step ps s = Some s' \<and> inv s'"
proof (induction ps arbitrary: s)
  case (Cons p ps)
  obtain s1 where "step p s = Some s1" "inv s1" using step_guarded [OF Cons.prems(1)] Cons.prems(2) by auto
  with Cons.IH [of s1] Cons.prems(2) show ?case by simp
qed simp

end

text \<open>The special case of operations that are admissible in every state.\<close>

locale safe_machine =
  fixes step :: "'op \<Rightarrow> 's \<Rightarrow> 's option" and inv :: "'s \<Rightarrow> bool" and admissible :: "'op \<Rightarrow> bool"
  assumes step_safe: "inv s \<Longrightarrow> admissible p \<Longrightarrow> \<exists>s'. step p s = Some s' \<and> inv s'"

sublocale safe_machine \<subseteq> guarded_machine step inv "\<lambda>_. admissible"
  by unfold_locales (rule step_safe)

context safe_machine
begin

lemma admissible_all: "\<forall>p \<in> set ps. admissible p \<Longrightarrow> admissible_run step (\<lambda>_. admissible) ps s"
  by (induction ps arbitrary: s) (auto split: option.splits)

lemma run_safe:
  "inv s \<Longrightarrow> \<forall>p \<in> set ps. admissible p \<Longrightarrow> \<exists>s'. run_ops step ps s = Some s' \<and> inv s'"
  using run_guarded admissible_all by blast

lemma run_inv: "inv s \<Longrightarrow> \<forall>p \<in> set ps. admissible p \<Longrightarrow> run_ops step ps s = Some s' \<Longrightarrow> inv s'"
  using run_safe by fastforce

end

end
