(* ===== verification/Route_Spec.thy ===== *)
theory Route_Spec
  imports Route Machine
begin

text \<open>
  The routing table over whole sessions (\<open>src/rust/bt/dht/route/src/lib.rs\<close>, driven as
  \<open>src/rust/bt/dht/node/src/insert.rs\<close> drives it): insertions that may find their bucket full, the
  replacement of its stale nodes one after the other, updates after queries, refreshes, and lookups.
\<close>

section \<open>Sessions\<close>

text \<open>
  A task of \<open>Insert::insert\<close> that found a full bucket: the pending insertion and the stale node
  whose pings it awaits. Tasks interleave; each of them locks the table only between two awaits.
\<close>

type_synonym 'e insert_task = "'e full \<times> 'e node_info"

definition task_next :: "'e full \<Rightarrow> 'e insert_task option" where
  "task_next f = (case full_next f of (None, _) \<Rightarrow> None | (Some stale, f) \<Rightarrow> Some (f, stale))"

definition insert_start ::
  "'e table \<Rightarrow> 'e node_info \<Rightarrow> int option \<Rightarrow> int \<Rightarrow> ('e insert_task option \<times> 'e table) option" where
  "insert_start t node last_ok clock = do {
     (r, t) \<leftarrow> tb_insert t node last_ok clock;
     (case r of
        Inr _ \<Rightarrow> Some (None, t)
      | Inl full \<Rightarrow> if last_ok = None then Some (None, t) else Some (task_next full, t))
   }"

text \<open>The two pings are Boolean outcomes; the second one is only sent when the first one fails.\<close>

definition insert_pinged ::
  "'e insert_task \<Rightarrow> 'e table \<Rightarrow> bool \<Rightarrow> bool \<Rightarrow> int \<Rightarrow> ('e insert_task option \<times> 'e table) option" where
  "insert_pinged task t ping1 ping2 clock =
     (case task of (full, stale) \<Rightarrow>
        if (if ping1 then True else ping2)
        then do { t \<leftarrow> full_ok full t stale clock; Some (task_next full, t) }
        else do {
          (r, t) \<leftarrow> full_err full t (ni_id stale);
          (case r of Some continue \<Rightarrow> Some (task_next continue, t) | None \<Rightarrow> Some (None, t))
        })"

record 'e session =
  ss_table :: "'e table"
  ss_tasks :: "'e insert_task list"

datatype 'e rt_op =
    RInsert "'e node_info" "int option" int
  | RPinged nat bool bool int
  | RUpdateOk "'e node_info" int
  | RUpdateErr node_id
  | RRefresh
  | RClosest node_id

fun rt_exec :: "'e rt_op \<Rightarrow> 'e session \<Rightarrow> 'e session option" where
  "rt_exec (RInsert node last_ok clock) s = do {
     (r, t) \<leftarrow> insert_start (ss_table s) node last_ok clock;
     Some \<lparr>ss_table = t, ss_tasks = ss_tasks s @ (case r of None \<Rightarrow> [] | Some task \<Rightarrow> [task])\<rparr>
   }"
| "rt_exec (RPinged k ping1 ping2 clock) s =
     (if k < length (ss_tasks s)
      then do {
        (r, t) \<leftarrow> insert_pinged (ss_tasks s ! k) (ss_table s) ping1 ping2 clock;
        Some \<lparr>ss_table = t, ss_tasks = (case r of None \<Rightarrow> remove_nth k (ss_tasks s) | Some task \<Rightarrow> (ss_tasks s)[k := task])\<rparr>
      }
      else Some s)"
| "rt_exec (RUpdateOk info when) s = do { t \<leftarrow> tb_update_ok (ss_table s) info when; Some (s\<lparr>ss_table := t\<rparr>) }"
| "rt_exec (RUpdateErr a) s = do { t \<leftarrow> tb_update_err (ss_table s) a; Some (s\<lparr>ss_table := t\<rparr>) }"
| "rt_exec RRefresh s = Some (s\<lparr>ss_table := snd (next_refresh (ss_table s))\<rparr>)"
| "rt_exec (RClosest a) s = do { _ \<leftarrow> get_closest (ss_table s) a; Some s }"

definition ss_new :: "node_id \<Rightarrow> 'e session" where
  "ss_new self = \<lparr>ss_table = tb_new self, ss_tasks = []\<rparr>"

text \<open>Node ids are byte arrays of the right length by their type.\<close>

fun rt_op_ok :: "'e rt_op \<Rightarrow> bool" where
  "rt_op_ok (RInsert node _ _) = node_ok (ni_id node)"
| "rt_op_ok (RUpdateOk info _) = node_ok (ni_id info)"
| "rt_op_ok (RUpdateErr a) = node_ok a"
| "rt_op_ok (RClosest a) = node_ok a"
| "rt_op_ok _ = True"

section \<open>The remaining operations\<close>

lemma update_at_ok:
  assumes t: "tb_inv t xss" and i: "i < length xss" and b: "rs_index (tb_buckets t) i = Some b" "bk_rep b (xss ! i)"
  shows "\<exists>b' found xs. bk_update_ok b info when = Some (found, b') \<and>
    tb_inv (t\<lparr>tb_buckets := (tb_buckets t)[i := b']\<rparr>) (xss[i := xs]) \<and> tb_ids (xss[i := xs]) = tb_ids xss"
proof -
  have w: "tb_wf (tb_self_id t) xss" using t by (simp add: tb_inv_def)
  obtain b' xs where u: "bk_update_ok b info when = Some (ni_id info \<in> bi_id ` set (xss ! i), b')"
    "bk_rep b' xs" "bk_wf xs" "bi_id ` set xs = bi_id ` set (xss ! i)"
    using bk_update_ok_ok [OF b(2) tb_wfD(1) [OF w i], of info "when"] by blast
  have "node_ok c \<and> bucket_of (tb_self_id t) (length xss) c = i" if "c \<in> bi_id ` set xs" for c
    using that u(4) tb_wfD(2,3) [OF w i] by auto
  then have "tb_inv (t\<lparr>tb_buckets := (tb_buckets t)[i := b']\<rparr>) (xss[i := xs])"
    by (intro tb_inv_update [OF t i u(2,3)]) blast
  with u ids_update_same [OF i u(4)] show ?thesis by blast
qed

definition same_shape :: "'e table \<Rightarrow> 'e bucket_item list list \<Rightarrow> 'e table \<Rightarrow> 'e bucket_item list list \<Rightarrow> bool" where
  "same_shape t xss t' xss' \<longleftrightarrow> tb_inv t' xss' \<and> length xss' = length xss \<and> tb_self_id t' = tb_self_id t"

lemma update_and_refresh:
  assumes t: "tb_inv t xss" and i: "i < length xss"
  shows "\<exists>t' xss'. do { b \<leftarrow> rs_index (tb_buckets t) i;
       (found, b) \<leftarrow> bk_update_ok b info when;
       let t = t\<lparr>tb_buckets := (tb_buckets t)[i := b]\<rparr>;
       Some (if found then t\<lparr>tb_refresh := rq_insert (tb_refresh t) i when\<rparr> else t) } = Some t' \<and>
    same_shape t xss t' xss' \<and> tb_ids xss' = tb_ids xss"
proof -
  obtain b where b: "rs_index (tb_buckets t) i = Some b" "bk_rep b (xss ! i)"
    by (rule tb_bucket [OF t i])
  obtain b' found xs where u: "bk_update_ok b info when = Some (found, b')"
    "tb_inv (t\<lparr>tb_buckets := (tb_buckets t)[i := b']\<rparr>) (xss[i := xs])" "tb_ids (xss[i := xs]) = tb_ids xss"
    using update_at_ok [OF t i b, of info "when"] by blast
  have "tb_inv (t\<lparr>tb_buckets := (tb_buckets t)[i := b'], tb_refresh := rq_insert (tb_refresh t) i when\<rparr>) (xss[i := xs])"
    using tb_inv_refresh [OF u(2), of i "when"] i by simp
  with b(1) u show ?thesis
    by (intro exI [of _ "if found then t\<lparr>tb_buckets := (tb_buckets t)[i := b'],
        tb_refresh := rq_insert (tb_refresh t) i when\<rparr> else t\<lparr>tb_buckets := (tb_buckets t)[i := b']\<rparr>"]
        exI [of _ "xss[i := xs]"]) (simp add: same_shape_def)
qed

lemma tb_update_ok_ok:
  assumes "tb_inv t xss"
  shows "\<exists>t' xss'. tb_update_ok t info when = Some t' \<and> same_shape t xss t' xss' \<and> tb_ids xss' = tb_ids xss"
  using update_and_refresh [OF assms tb_position_ok(2) [OF assms], of "ni_id info" info "when"]
  by (simp add: tb_update_ok_def tb_position_ok(1) [OF assms])

lemma full_ok_ok:
  assumes "tb_inv t xss"
  shows "\<exists>t' xss'. full_ok f t info when = Some t' \<and> same_shape t xss t' xss' \<and> tb_ids xss' = tb_ids xss"
  using update_and_refresh [OF assms tb_position_ok(2) [OF assms], of "bi_id (fl_item f)" info "when"]
  by (simp add: full_ok_def tb_position_ok(1) [OF assms])

lemma tb_update_err_ok:
  assumes t: "tb_inv t xss"
  shows "\<exists>t' xss'. tb_update_err t a = Some t' \<and> same_shape t xss t' xss' \<and>
    tb_ids xss - {a} \<subseteq> tb_ids xss' \<and> tb_ids xss' \<subseteq> tb_ids xss"
proof -
  let ?i = "bucket_of (tb_self_id t) (length xss) a"
  have w: "tb_wf (tb_self_id t) xss" using t by (simp add: tb_inv_def)
  note pos = tb_position_ok [OF t, of a]
  obtain b where b: "rs_index (tb_buckets t) ?i = Some b" "bk_rep b (xss ! ?i)"
    by (rule tb_bucket [OF t pos(2)])
  obtain b' xs where u: "bk_update_err b a = Some b'" "bk_rep b' xs" "bk_wf xs"
    "bi_id ` set xs \<subseteq> bi_id ` set (xss ! ?i)" "bi_id ` set (xss ! ?i) - {a} \<subseteq> bi_id ` set xs"
    using bk_update_err_ok [OF b(2) tb_wfD(1) [OF w pos(2)], of a] by blast
  have "node_ok c \<and> bucket_of (tb_self_id t) (length xss) c = ?i" if "c \<in> bi_id ` set xs" for c
    using that u(4) tb_wfD(2,3) [OF w pos(2)] by auto
  then have "tb_inv (t\<lparr>tb_buckets := (tb_buckets t)[?i := b']\<rparr>) (xss[?i := xs])"
    by (intro tb_inv_update [OF t pos(2) u(2,3)]) blast
  then have "same_shape t xss (t\<lparr>tb_buckets := (tb_buckets t)[?i := b']\<rparr>) (xss[?i := xs])"
    by (simp add: same_shape_def)
  moreover have "tb_update_err t a = Some (t\<lparr>tb_buckets := (tb_buckets t)[?i := b']\<rparr>)"
    using pos(1) b(1) u(1) by (simp add: tb_update_err_def)
  moreover have "tb_ids xss - {a} \<subseteq> tb_ids (xss[?i := xs])" "tb_ids (xss[?i := xs]) \<subseteq> tb_ids xss"
    unfolding ids_update [OF pos(2)] ids_split [OF pos(2)] using u(4,5) by blast+
  ultimately show ?thesis by blast
qed

lemma next_refresh_ok:
  assumes "tb_inv t xss"
  shows "same_shape t xss (snd (next_refresh t)) xss"
  using assms rq_next_ok [of "tb_refresh t"]
  by (auto simp: same_shape_def next_refresh_def tb_inv_def split: prod.splits)

section \<open>Replacing stale nodes\<close>

definition full_fits :: "node_id \<Rightarrow> nat \<Rightarrow> 'e full \<Rightarrow> bool" where
  "full_fits self n f \<longleftrightarrow> node_ok (bi_id (fl_item f)) \<and> bucket_of self n (bi_id (fl_item f)) + 1 < n \<and>
     (\<forall>info \<in> set (fl_stale f). node_ok (ni_id info) \<and>
        bucket_of self n (ni_id info) = bucket_of self n (bi_id (fl_item f)))"

text \<open>Only the last bucket is ever split, so an id below it keeps its bucket.\<close>

lemma bucket_of_stable: "bucket_of self n a + 1 < n \<Longrightarrow> n \<le> m \<Longrightarrow> bucket_of self m a = bucket_of self n a"
  by (auto simp: bucket_of_def min_def split: if_splits)

lemma full_fits_mono:
  assumes "full_fits self n f" and "n \<le> m"
  shows "full_fits self m f"
  using assms bucket_of_stable [of self n "bi_id (fl_item f)" m]
  unfolding full_fits_def by (metis bucket_of_stable less_le_trans)

lemma full_err_ok:
  assumes t: "tb_inv t xss" and f: "full_fits (tb_self_id t) (length xss) f"
    and a: "bucket_of (tb_self_id t) (length xss) a = bucket_of (tb_self_id t) (length xss) (bi_id (fl_item f))"
  shows "\<exists>r t' xss'. full_err f t a = Some (r, t') \<and> same_shape t xss t' xss' \<and>
    (case r of None \<Rightarrow> True | Some f' \<Rightarrow> f' = f)"
proof -
  let ?i = "bucket_of (tb_self_id t) (length xss) a" and ?item = "fl_item f"
  have w: "tb_wf (tb_self_id t) xss" using t by (simp add: tb_inv_def)
  note pos = tb_position_ok [OF t, of a]
  obtain b where b: "rs_index (tb_buckets t) ?i = Some b" "bk_rep b (xss ! ?i)"
    by (rule tb_bucket [OF t pos(2)])
  obtain old b1 ys where u: "bk_remove b a = Some (old, b1)" "bk_rep b1 ys" "bk_wf ys"
    "bi_id ` set ys = bi_id ` set (xss ! ?i) - {a}"
    using bk_remove_ok [OF b(2) tb_wfD(1) [OF w pos(2)], of a] by blast
  obtain r b2 xs where v: "bk_insert b1 ?item = Some (r, b2)" "bk_rep b2 xs" "bk_wf xs"
    "case r of Inr _ \<Rightarrow> bi_id ` set xs = insert (bi_id ?item) (bi_id ` set ys)
     | Inl item' \<Rightarrow> item' = ?item \<and> xs = ys \<and> length ys = 8 \<and> bi_id ?item \<notin> bi_id ` set ys"
    using bk_insert_ok [OF u(2,3), of ?item] by blast
  have sub: "bi_id ` set xs \<subseteq> insert (bi_id ?item) (bi_id ` set (xss ! ?i))"
    using v(4) u(4) by (auto split: sum.splits)
  have "node_ok c \<and> bucket_of (tb_self_id t) (length xss) c = ?i" if "c \<in> bi_id ` set xs" for c
    using that sub f a tb_wfD(2,3) [OF w pos(2)] by (auto simp: full_fits_def)
  then have "tb_inv (t\<lparr>tb_buckets := (tb_buckets t)[?i := b2]\<rparr>) (xss[?i := xs])"
    by (intro tb_inv_update [OF t pos(2) v(2,3)]) blast
  then have "same_shape t xss (t\<lparr>tb_buckets := (tb_buckets t)[?i := b2]\<rparr>) (xss[?i := xs])"
    by (simp add: same_shape_def)
  moreover have "full_err f t a = Some (case r of Inl item \<Rightarrow> Some (f\<lparr>fl_item := item\<rparr>) | Inr _ \<Rightarrow> None,
      t\<lparr>tb_buckets := (tb_buckets t)[?i := b2]\<rparr>)"
    using pos(1) b(1) u(1) v(1) by (simp add: full_err_def)
  ultimately show ?thesis using v(4) by (auto split: sum.splits)
qed

lemma insert_full_fits:
  assumes "insert_post item xss (Inl f) t'" and "node_ok (bi_id item)"
  shows "\<exists>xss'. tb_inv t' xss' \<and> length xss \<le> length xss' \<and> full_fits (tb_self_id t') (length xss') f"
proof -
  obtain xss' where x: "tb_inv t' xss'" "length xss \<le> length xss'" "fl_item f = item"
    "bucket_of (tb_self_id t') (length xss') (bi_id item) + 1 < length xss'"
    "set (fl_stale f) \<subseteq> bi_info ` set (xss' ! bucket_of (tb_self_id t') (length xss') (bi_id item))"
    using assms(1) by (auto simp: insert_post_def Let_def)
  let ?i = "bucket_of (tb_self_id t') (length xss') (bi_id item)"
  have w: "tb_wf (tb_self_id t') xss'" using x(1) by (simp add: tb_inv_def)
  have l: "?i < length xss'" using x(4) by simp
  have "node_ok (ni_id info) \<and> bucket_of (tb_self_id t') (length xss') (ni_id info) = ?i"
    if "info \<in> set (fl_stale f)" for info
    using that x(5) tb_wfD(2,3) [OF w l] by auto
  with x assms(2) show ?thesis unfolding full_fits_def by blast
qed


section \<open>Lookups\<close>

lemma bk_iter_ok: "bk_rep b xs \<Longrightarrow> bk_iter b = Some (map bi_info (rev xs))"
  by (simp add: bk_iter_def bk_repD)

lemma closest_loop_ok:
  assumes "list_all2 bk_rep bs xss" and "arr_rep infos ys" and "acap infos = 8"
  shows "\<exists>a. closest_loop bs infos = Some a \<and> arr_rep a (take 8 (ys @ concat (map (\<lambda>xs. map bi_info (rev xs)) xss)))"
  using assms
proof (induction arbitrary: infos ys rule: list_all2_induct)
  case Nil
  then have "length ys \<le> 8" using arr_rep_le [OF Nil(1)] by simp
  with Nil show ?case by simp
next
  case (Cons b bs xs xss)
  let ?xs = "map bi_info (rev xs)"
  obtain a where a: "arr_extend infos ?xs = Some a" "arr_rep a (take 8 (ys @ ?xs))" "acap a = 8"
    using arr_extend_rep [OF Cons.prems(1), of ?xs] Cons.prems(2) by auto
  show ?case
  proof (cases "arr_is_full a")
    case True
    then have "8 \<le> length (ys @ ?xs)" using a(2,3) by (auto simp: arr_is_full_def arr_rep_def)
    with a True bk_iter_ok [OF Cons(1)] show ?thesis by simp
  next
    case False
    then have "length (ys @ ?xs) < 8" using a(2,3) by (auto simp: arr_is_full_def arr_rep_def)
    then have "arr_rep a (ys @ ?xs)" using a(2) by simp
    from Cons.IH [OF this a(3)] False a(1) bk_iter_ok [OF Cons(1)] show ?thesis by simp
  qed
qed

definition closest_pool :: "node_id \<Rightarrow> 'e bucket_item list list \<Rightarrow> node_id \<Rightarrow> 'e node_info list" where
  "closest_pool self xss a =
     concat (map (\<lambda>xs. map bi_info (rev xs)) (drop (bucket_of self (length xss) a) xss))"

lemma get_closest_ok:
  assumes t: "tb_inv t xss"
  shows "get_closest t a =
    Some (sort_key (\<lambda>info. distance (ni_id info) a) (take 8 (closest_pool (tb_self_id t) xss a)))"
proof -
  have "list_all2 bk_rep (tb_buckets t) xss" using t by (simp add: tb_inv_def)
  then have "list_all2 bk_rep (drop (bucket_of (tb_self_id t) (length xss) a) (tb_buckets t))
      (drop (bucket_of (tb_self_id t) (length xss) a) xss)" by (rule list_all2_dropI)
  from closest_loop_ok [OF this, of "arr_new 8" "[]"]
  show ?thesis
    by (auto simp: get_closest_def tb_position_ok(1) [OF t] closest_pool_def as_slice_rep arr_rep_new)
qed


section \<open>Sessions are safe\<close>

definition task_fits :: "node_id \<Rightarrow> nat \<Rightarrow> 'e insert_task \<Rightarrow> bool" where
  "task_fits self n task = full_fits self n ((fst task)\<lparr>fl_stale := snd task # fl_stale (fst task)\<rparr>)"

definition ss_inv :: "node_id \<Rightarrow> 'e session \<Rightarrow> bool" where
  "ss_inv self s \<longleftrightarrow> (\<exists>xss. tb_inv (ss_table s) xss \<and> tb_self_id (ss_table s) = self \<and>
     (\<forall>task \<in> set (ss_tasks s). task_fits self (length xss) task))"

lemma task_next_fits: "full_fits self n f \<Longrightarrow> task_next f = Some task \<Longrightarrow> task_fits self n task"
  by (cases f) (auto simp: task_next_def full_next_def task_fits_def split: list.splits)

lemma task_fitsD:
  assumes "task_fits self n (f, stale)"
  shows "full_fits self n f" and "bucket_of self n (ni_id stale) = bucket_of self n (bi_id (fl_item f))"
  using assms by (auto simp: task_fits_def full_fits_def)

lemma task_fits_mono: "task_fits self n task \<Longrightarrow> n \<le> m \<Longrightarrow> task_fits self m task"
  unfolding task_fits_def by (rule full_fits_mono)

lemma ss_invI:
  assumes "tb_inv t xss" and "tb_self_id t = self" and "\<forall>task \<in> set ts. task_fits self (length xss) task"
  shows "ss_inv self \<lparr>ss_table = t, ss_tasks = ts\<rparr>"
  using assms by (auto simp: ss_inv_def)

lemma ss_inv_same_shape:
  assumes "tb_inv (ss_table s) xss" and "tb_self_id (ss_table s) = self"
    and "\<forall>task \<in> set (ss_tasks s). task_fits self (length xss) task"
    and "same_shape (ss_table s) xss t' xss'"
  shows "ss_inv self (s\<lparr>ss_table := t'\<rparr>)"
  using assms by (auto simp: ss_inv_def same_shape_def)

lemma insert_start_ok:
  assumes t: "tb_inv t xss" and ok: "node_ok (ni_id node)"
  shows "\<exists>r t' xss'. insert_start t node last_ok clock = Some (r, t') \<and> tb_inv t' xss' \<and>
    tb_self_id t' = tb_self_id t \<and> length xss \<le> length xss' \<and>
    (\<forall>task. r = Some task \<longrightarrow> task_fits (tb_self_id t') (length xss') task \<and> length (fl_stale (fst task)) < 8)"
proof -
  let ?item = "bi_new node last_ok"
  have ok': "node_ok (bi_id ?item)" using ok by (simp add: bi_new_def)
  obtain r t' where r: "tb_insert t node last_ok clock = Some (r, t')" "tb_self_id t' = tb_self_id t"
    "insert_post ?item xss r t'"
    using insert_loop_ok [OF t ok'] unfolding tb_insert_def by blast
  show ?thesis
  proof (cases r)
    case (Inl f)
    with r(3) obtain xss' where x: "tb_inv t' xss'" "length xss \<le> length xss'" "full_fits (tb_self_id t') (length xss') f"
      using insert_full_fits ok' by blast
    have "length (fl_stale f) \<le> 8" using r(3) Inl by (auto simp: insert_post_def Let_def)
    then have "task_fits (tb_self_id t') (length xss') task \<and> length (fl_stale (fst task)) < 8"
      if "task_next f = Some task" for task
      using that task_next_fits [OF x(3) that] by (auto simp: task_next_def full_next_def split: list.splits)
    with r Inl x show ?thesis
      by (cases "last_ok = None") (auto simp: insert_start_def intro!: exI [of _ xss'])
  next
    case (Inr u)
    with r show ?thesis by (auto simp: insert_start_def insert_post_def)
  qed
qed

lemma insert_pinged_ok:
  assumes t: "tb_inv t xss" and fits: "task_fits (tb_self_id t) (length xss) task"
  shows "\<exists>r t' xss'. insert_pinged task t ping1 ping2 clock = Some (r, t') \<and> same_shape t xss t' xss' \<and>
    (\<forall>task'. r = Some task' \<longrightarrow> task_fits (tb_self_id t) (length xss) task' \<and>
       Suc (length (fl_stale (fst task'))) = length (fl_stale (fst task)))"
proof -
  obtain f stale where task: "task = (f, stale)" by (cases task)
  note f = task_fitsD [OF fits [unfolded task]]
  have nx: "task_fits (tb_self_id t) (length xss) task' \<and> Suc (length (fl_stale (fst task'))) = length (fl_stale f)"
    if "task_next f = Some task'" for task'
    using that task_next_fits [OF f(1) that]
    by (auto simp: task_next_def full_next_def split: list.splits)
  show ?thesis
  proof (cases "if ping1 then True else ping2")
    case True
    obtain t' xss' where "full_ok f t stale clock = Some t'" "same_shape t xss t' xss'"
      using full_ok_ok [OF t] by blast
    with True nx task show ?thesis by (auto simp: insert_pinged_def)
  next
    case False
    obtain r t' xss' where "full_err f t (ni_id stale) = Some (r, t')" "same_shape t xss t' xss'"
      "case r of None \<Rightarrow> True | Some f' \<Rightarrow> f' = f"
      using full_err_ok [OF t f] by blast
    with False nx task show ?thesis by (cases r) (auto simp: insert_pinged_def split: if_splits)
  qed
qed


lemma rt_exec_safe:
  assumes "ss_inv self s" and "rt_op_ok p"
  shows "\<exists>s'. rt_exec p s = Some s' \<and> ss_inv self s'"
proof -
  obtain xss where x: "tb_inv (ss_table s) xss" "tb_self_id (ss_table s) = self"
    "\<forall>task \<in> set (ss_tasks s). task_fits self (length xss) task"
    using assms(1) by (auto simp: ss_inv_def)
  note keep = ss_inv_same_shape [OF x]
  show ?thesis
  proof (cases p)
    case (RInsert node last_ok clock)
    then obtain r t' xss' where r: "insert_start (ss_table s) node last_ok clock = Some (r, t')" "tb_inv t' xss'"
      "tb_self_id t' = self" "length xss \<le> length xss'"
      "\<forall>task. r = Some task \<longrightarrow> task_fits self (length xss') task"
      using insert_start_ok [OF x(1)] x(2) assms(2) by fastforce
    let ?ts = "ss_tasks s @ (case r of None \<Rightarrow> [] | Some task \<Rightarrow> [task])"
    have "task_fits self (length xss') task" if "task \<in> set (ss_tasks s)" for task
      using task_fits_mono [OF _ r(4)] x(3) that by blast
    then have "\<forall>task \<in> set ?ts. task_fits self (length xss') task"
      using r(5) by (cases r) (simp_all add: ball_Un)
    from ss_invI [OF r(2,3) this] r(1) RInsert show ?thesis by simp
  next
    case (RPinged k ping1 ping2 clock)
    show ?thesis
    proof (cases "k < length (ss_tasks s)")
      case True
      then have fits: "task_fits (tb_self_id (ss_table s)) (length xss) (ss_tasks s ! k)" using x by simp
      obtain r t' xss' where r: "insert_pinged (ss_tasks s ! k) (ss_table s) ping1 ping2 clock = Some (r, t')"
        "same_shape (ss_table s) xss t' xss'"
        "\<forall>task'. r = Some task' \<longrightarrow> task_fits self (length xss) task'"
        using insert_pinged_ok [OF x(1) fits] x(2) by metis
      let ?ts = "case r of None \<Rightarrow> remove_nth k (ss_tasks s) | Some task \<Rightarrow> (ss_tasks s)[k := task]"
      have "\<forall>task \<in> set ?ts. task_fits self (length xss) task"
        using x(3) r(3) by (auto simp: remove_nth_def dest: in_set_takeD in_set_dropD set_update_subset_insert [THEN subsetD]
            split: option.splits)
      then have "ss_inv self \<lparr>ss_table = t', ss_tasks = ?ts\<rparr>"
        using r(2) x(2) by (intro ss_invI [of _ xss']) (auto simp: same_shape_def)
      with RPinged True r(1) show ?thesis by simp
    next
      case False
      with RPinged assms(1) show ?thesis by simp
    qed
  next
    case (RUpdateOk info "when")
    then show ?thesis using tb_update_ok_ok [OF x(1), of info "when"] keep by auto
  next
    case (RUpdateErr a)
    then show ?thesis using tb_update_err_ok [OF x(1), of a] keep by auto
  next
    case RRefresh
    then show ?thesis using keep [OF next_refresh_ok [OF x(1)]] by simp
  next
    case (RClosest a)
    then show ?thesis using get_closest_ok [OF x(1)] assms(1) by simp
  qed
qed

interpretation rt: safe_machine rt_exec "ss_inv self" rt_op_ok for self
  by unfold_locales (rule rt_exec_safe)

lemma ss_inv_new: "node_ok self \<Longrightarrow> ss_inv self (ss_new self)"
  unfolding ss_new_def by (rule ss_invI [OF tb_inv_new]) (simp_all add: tb_new_def)


text \<open>What the invariant promises, in terms of the table alone.\<close>

definition bucket_ok :: "node_id \<Rightarrow> nat \<Rightarrow> nat \<Rightarrow> 'e bucket_item list \<Rightarrow> bool" where
  "bucket_ok self n i xs \<longleftrightarrow> length xs \<le> K \<and> sorted (map bi_last_ok xs) \<and> distinct (map bi_id xs) \<and>
     list_all (\<lambda>item. min (leading_zeros (distance self (bi_id item))) (n - 1) = i) xs"

lemma tb_inv_table:
  assumes t: "tb_inv t xss"
  shows "map as_slice (tb_buckets t) = map Some xss"
    and "0 < length xss" and "length xss \<le> 158"
    and "i < length xss \<Longrightarrow> bucket_ok (tb_self_id t) (length xss) i (xss ! i)"
proof -
  have r: "list_all2 bk_rep (tb_buckets t) xss" and w: "tb_wf (tb_self_id t) xss" using t by (auto simp: tb_inv_def)
  from r show "map as_slice (tb_buckets t) = map Some xss" by (induction) (auto dest: bk_repD)
  from w show "0 < length xss" "length xss \<le> 158" by (auto simp: tb_wf_def max_buckets_def)
  show "bucket_ok (tb_self_id t) (length xss) i (xss ! i)" if i: "i < length xss"
    using tb_wfD [OF w i] bk_repD(2) list_all2_nthD2 [OF r i]
    by (auto simp: bucket_ok_def bk_wf_def list_all_iff bucket_of_def)
qed

text \<open>
  C4. Every session from an empty table, with any interleaving of the insertion tasks and any outcome
  of their pings, runs without a panic: in particular the split loop of \<open>Table::insert\<close> never reaches its
  \<open>unreachable!\<close>, and \<open>update_ok\<close> never finds the bucket full after a removal. It leaves at most 158
  buckets, each with at most \<open>K\<close> nodes sorted by their last success, without duplicates, holding only
  nodes that share exactly the bucket's number of leading bits with the own id.
\<close>

theorem route_sessions_safe:
  assumes "node_ok self" and "\<forall>p \<in> set ps. rt_op_ok p"
  shows "\<exists>s xss. run_ops rt_exec ps (ss_new self) = Some s \<and>
    map as_slice (tb_buckets (ss_table s)) = map Some xss \<and> 0 < length xss \<and> length xss \<le> 158 \<and>
    (\<forall>i < length xss. bucket_ok self (length xss) i (xss ! i)) \<and>
    sorted (map fst (tb_refresh (ss_table s))) \<and> distinct (map snd (tb_refresh (ss_table s))) \<and>
    (\<forall>e \<in> set (tb_refresh (ss_table s)). snd e < length xss)"
proof -
  obtain s xss where s: "run_ops rt_exec ps (ss_new self) = Some s" "tb_inv (ss_table s) xss" "tb_self_id (ss_table s) = self"
    using rt.run_safe [OF ss_inv_new [OF assms(1)] assms(2)] by (auto simp: ss_inv_def)
  then show ?thesis using tb_inv_table [OF s(2)]
    by (intro exI [of _ s] exI [of _ xss]) (auto simp: tb_inv_def rq_ok_def)
qed

theorem route_sessions_safe_witness:
  "\<exists>s xss. run_ops rt_exec [RInsert \<lparr>ni_id = replicate 20 1, ni_endpoint = (7 :: nat)\<rparr> (Some 5) 5, RPinged 0 False True 9,
      RUpdateErr (replicate 20 2), RRefresh, RClosest (replicate 20 3)] (ss_new (replicate 20 0)) = Some s \<and>
    map as_slice (tb_buckets (ss_table s)) = map Some xss \<and> 0 < length xss \<and> length xss \<le> 158"
  using route_sessions_safe [of "replicate 20 0" "[RInsert \<lparr>ni_id = replicate 20 1, ni_endpoint = (7 :: nat)\<rparr> (Some 5) 5,
      RPinged 0 False True 9, RUpdateErr (replicate 20 2), RRefresh, RClosest (replicate 20 3)]"]
  by (auto simp: NODE_ID_SIZE_def)


section \<open>Lookups return the closest nodes of the bucket\<close>

lemma leading_zeros_less:
  "length p = length q \<Longrightarrow> leading_zeros q < leading_zeros p \<Longrightarrow> p < (q :: bool list)"
proof (induction p q rule: list_induct2)
  case (Cons x p y q)
  then show ?case by (cases x; cases y) (simp_all add: leading_zeros_def)
qed (simp add: leading_zeros_def)

lemma closer_than:
  assumes "node_ok b" and "node_ok c" and "k < 160"
  shows "k < leading_zeros (distance b c) \<longleftrightarrow> (\<forall>j < Suc k. node_bits b ! j = node_bits c ! j)"
  using leading_zeros_ge_iff [of "Suc k" "distance b c"] assms by (simp add: Suc_le_eq nth_distance)

lemma agree_below:
  assumes "node_ok b" and "node_ok c" and "k < 160" and "k \<le> leading_zeros (distance b c)"
  shows "\<forall>j < k. node_bits b ! j = node_bits c ! j"
  using leading_zeros_ge_iff [of k "distance b c"] assms by (simp add: nth_distance)

lemma min_three:
  "min lx m = min la m \<Longrightarrow> min ly m \<noteq> min la (m :: nat) \<Longrightarrow>
    min ly la < la \<and> min ly la < lx \<or> min ly la = la \<and> lx = la"
  by (auto simp: min_def split: if_splits)

text \<open>A node of the target's own bucket is closer to the target than any node of another bucket.\<close>

lemma own_bucket_closer:
  assumes ok: "node_ok self" "node_ok a" "node_ok x" "node_ok y"
    and x: "bucket_of self n x = bucket_of self n a" and y: "bucket_of self n y \<noteq> bucket_of self n a"
  shows "distance x a < distance y a"
proof (rule leading_zeros_less)
  let ?l = "\<lambda>b c. leading_zeros (distance b c)" and ?B = node_bits
  define d where "d = min (?l self y) (?l self a)"
  have ne: "?l self y \<noteq> ?l self a" using y by (auto simp: bucket_of_def)
  have "?l self b \<le> 160" if "node_ok b" for b
    using leading_zeros_le [of "distance self b"] that ok(1) by simp
  from this [OF ok(4)] this [OF ok(2)] have d: "d < 160" using ne by (simp add: d_def)
  have "\<not> d < ?l y a"
  proof
    assume "d < ?l y a"
    then have "\<forall>j < Suc d. ?B y ! j = ?B a ! j" by (simp only: closer_than [OF ok(4,2) d])
    then have "d < ?l self y \<longleftrightarrow> d < ?l self a"
      unfolding closer_than [OF ok(1,4) d] closer_than [OF ok(1,2) d] by metis
    with ne show False by (simp add: d_def min_def split: if_splits)
  qed
  moreover have "d < ?l x a"
    using min_three [OF x [unfolded bucket_of_def] y [unfolded bucket_of_def]]
  proof (elim disjE conjE)
    assume "min (?l self y) (?l self a) < ?l self a" "min (?l self y) (?l self a) < ?l self x"
    then have "\<forall>j < Suc d. ?B self ! j = ?B a ! j" "\<forall>j < Suc d. ?B self ! j = ?B x ! j"
      unfolding closer_than [OF ok(1,2) d, symmetric] closer_than [OF ok(1,3) d, symmetric] by (simp_all only: d_def)
    then show ?thesis unfolding closer_than [OF ok(3,2) d] by metis
  next
    assume m: "min (?l self y) (?l self a) = ?l self a" "?l self x = ?l self a"
    have "\<forall>j < d. ?B self ! j = ?B a ! j" "\<forall>j < d. ?B self ! j = ?B x ! j"
      using m by (auto intro!: agree_below [rule_format, OF ok(1,2) d] agree_below [rule_format, OF ok(1,3) d] simp: d_def)
    moreover have "?B self ! d \<noteq> ?B a ! d" "?B self ! d \<noteq> ?B x ! d"
      using m leading_zeros_bit [OF ok(1,2) d] leading_zeros_bit [OF ok(1,3) d] by (simp_all add: d_def)
    ultimately have "\<forall>j < Suc d. ?B x ! j = ?B a ! j" by (metis less_Suc_eq)
    then show ?thesis by (simp only: closer_than [OF ok(3,2) d])
  qed
  ultimately show "?l y a < ?l x a" by linarith
qed (use ok in simp)

lemma distinct_concat_graded:
  assumes "\<forall>i < length xss. distinct (map f (xss ! i)) \<and> (\<forall>x \<in> set (xss ! i). g (f x) = i + (k :: nat))"
  shows "distinct (map f (concat xss))"
  using assms
proof (induction xss arbitrary: k)
  case (Cons xs xss)
  have "distinct (map f (concat xss))"
    using Cons.prems by (intro Cons.IH [of "Suc k"]) (simp add: All_less_Suc2)
  moreover have "g (f x) = k" if "x \<in> set xs" for x using Cons.prems that by (simp add: All_less_Suc2)
  moreover have "g (f x) \<noteq> k" if "x \<in> set ys" "ys \<in> set xss" for x ys
  proof -
    obtain i where "i < length xss" "ys = xss ! i" using \<open>ys \<in> set xss\<close> by (auto simp: in_set_conv_nth)
    with Cons.prems \<open>x \<in> set ys\<close> show ?thesis by (simp add: All_less_Suc2)
  qed
  moreover have "distinct (map f xs)" using Cons.prems by (simp add: All_less_Suc2)
  ultimately show ?case by (fastforce simp: image_iff)
qed simp


lemma distinct_map_sort_key: "distinct (map f (sort_key g xs)) = distinct (map f xs)"
  by (rule mset_eq_imp_distinct_iff) simp

lemma pool_distinct:
  assumes w: "tb_wf self xss"
  shows "distinct (map ni_id (closest_pool self xss a))"
proof -
  let ?i = "bucket_of self (length xss) a"
  let ?yss = "map (\<lambda>xs. map bi_info (rev xs)) (drop ?i xss)"
  have "distinct (map ni_id (?yss ! j)) \<and> (\<forall>x \<in> set (?yss ! j). bucket_of self (length xss) (ni_id x) = j + ?i)"
    if "j < length ?yss" for j
  proof -
    have j: "?i + j < length xss" using that by simp
    have "distinct (map bi_id (xss ! (?i + j)))" using tb_wfD(1) [OF w j] by (simp add: bk_wf_def)
    then have "distinct (map ni_id (?yss ! j))" using that by (simp add: rev_map [symmetric] comp_def)
    moreover have "\<forall>x \<in> set (?yss ! j). bucket_of self (length xss) (ni_id x) = j + ?i"
      using that tb_wfD(3) [OF w j] by (auto simp: add.commute)
    ultimately show ?thesis by blast
  qed
  then show ?thesis unfolding closest_pool_def
    by (intro distinct_concat_graded [where g = "bucket_of self (length xss)" and k = ?i]) blast
qed

lemma tb_wf_in_concat:
  assumes "tb_wf self xss" and "y \<in> set (concat xss)"
  shows "node_ok (bi_id y)" and "y \<in> set (xss ! bucket_of self (length xss) (bi_id y))"
proof -
  obtain xs where "xs \<in> set xss" "y \<in> set xs" using assms(2) by auto
  then obtain i where i: "i < length xss" "y \<in> set (xss ! i)" by (metis in_set_conv_nth)
  show "node_ok (bi_id y)" "y \<in> set (xss ! bucket_of self (length xss) (bi_id y))"
    using tb_wfD(2,3) [OF assms(1) i(1)] i(2) by simp_all
qed

lemma pool_own_prefix:
  assumes "bucket_of self (length xss) a < length xss"
  shows "\<exists>ys. closest_pool self xss a = map bi_info (rev (xss ! bucket_of self (length xss) a)) @ ys"
  unfolding closest_pool_def Cons_nth_drop_Suc [OF assms, symmetric] by simp

lemma pool_subset: "set (closest_pool self xss a) \<subseteq> bi_info ` set (concat xss)"
  by (auto simp: closest_pool_def dest: in_set_dropD)

lemma length_pool:
  "length (closest_pool self xss a) = length (concat (drop (bucket_of self (length xss) a) xss))"
  by (simp add: closest_pool_def length_concat comp_def)

text \<open>
  C25. In every reachable table, \<open>get_closest\<close> returns the nodes it finds sorted by their distance to
  the target, without duplicates, \<open>K\<close> of them whenever the buckets from the target's own one on hold that
  many. It returns every node of the target's own bucket, and these are closer to the target than any
  other node of the whole table: a full bucket answers with exactly the \<open>K\<close> closest known nodes.
\<close>

theorem get_closest_correct:
  assumes "node_ok self" and "\<forall>p \<in> set ps. rt_op_ok p" and "node_ok a"
    and "run_ops rt_exec ps (ss_new self) = Some s" and "map as_slice (tb_buckets (ss_table s)) = map Some xss"
    and "i = min (leading_zeros (distance self a)) (length xss - 1)"
  shows "\<exists>r. get_closest (ss_table s) a = Some r \<and> sorted (map (\<lambda>info. distance (ni_id info) a) r) \<and>
    distinct (map ni_id r) \<and> length r = min K (length (concat (drop i xss))) \<and>
    set r \<subseteq> bi_info ` set (concat xss) \<and> bi_info ` set (xss ! i) \<subseteq> set r \<and>
    (\<forall>x \<in> set (xss ! i). \<forall>y \<in> set (concat xss) - set (xss ! i). distance (bi_id x) a < distance (bi_id y) a)"
proof -
  have "ss_inv self s" by (rule rt.run_inv [OF ss_inv_new [OF assms(1)] assms(2,4)])
  then obtain xss' where s: "tb_inv (ss_table s) xss'" "tb_self_id (ss_table s) = self" by (auto simp: ss_inv_def)
  have "map Some xss' = map Some xss" using tb_inv_table(1) [OF s(1)] assms(5) by simp
  then have "xss' = xss" by simp
  with s have t: "tb_inv (ss_table s) xss" by simp
  then have w: "tb_wf self xss" using s(2) by (simp add: tb_inv_def)
  let ?pool = "closest_pool self xss a"
  let ?r = "sort_key (\<lambda>info. distance (ni_id info) a) (take 8 ?pool)"
  have i: "i = bucket_of self (length xss) a" "i < length xss"
    using assms(6) tb_position_ok(2) [OF t, of a] s(2) by (simp_all add: bucket_of_def)
  have own: "distance (bi_id x) a < distance (bi_id y) a"
    if x: "x \<in> set (xss ! i)" and y: "y \<in> set (concat xss) - set (xss ! i)" for x y
  proof (rule own_bucket_closer [OF assms(1,3) tb_wfD(2) [OF w i(2) x] tb_wf_in_concat(1) [OF w]])
    show "bucket_of self (length xss) (bi_id x) = bucket_of self (length xss) a"
      using tb_wfD(3) [OF w i(2) x] i(1) by simp
    show "bucket_of self (length xss) (bi_id y) \<noteq> bucket_of self (length xss) a"
      using tb_wf_in_concat(2) [OF w, of y] y i(1) by auto
  qed (use y in simp)
  obtain ys where ys: "?pool = map bi_info (rev (xss ! i)) @ ys" using pool_own_prefix i by metis
  have "length (xss ! i) \<le> 8" using tb_inv_table(4) [OF t i(2)] by (simp add: bucket_ok_def)
  then have "bi_info ` set (xss ! i) \<subseteq> set ?r" unfolding ys by simp
  moreover have "set ?r \<subseteq> bi_info ` set (concat xss)"
    using pool_subset [of self xss a] set_take_subset [of 8 ?pool] unfolding set_sort by (rule subset_trans [rotated])
  moreover have "distinct (map ni_id ?r)"
    using pool_distinct [OF w, of a] unfolding distinct_map_sort_key take_map [symmetric] by (rule distinct_take)
  moreover have "length ?r = min K (length (concat (drop i xss)))" by (simp add: length_pool i(1) min.commute)
  ultimately show ?thesis using get_closest_ok [OF t, of a] own s(2) by (intro exI [of _ ?r]) simp
qed


lemma rt_reaches:
  assumes "node_ok self" and "\<forall>p \<in> set ps. rt_op_ok p"
  shows "\<exists>s xss. run_ops rt_exec ps (ss_new self) = Some s \<and> map as_slice (tb_buckets (ss_table s)) = map Some xss"
  using rt.run_safe [OF ss_inv_new [OF assms(1)] assms(2)] tb_inv_table(1) by (fastforce simp: ss_inv_def)

theorem get_closest_correct_witness:
  "\<exists>s r. run_ops rt_exec [RInsert \<lparr>ni_id = replicate 20 1, ni_endpoint = (7 :: nat)\<rparr> (Some 5) 5,
        RInsert \<lparr>ni_id = replicate 20 2, ni_endpoint = 8\<rparr> None 6] (ss_new (replicate 20 0)) = Some s \<and>
      get_closest (ss_table s) (replicate 20 3) = Some r \<and>
      sorted (map (\<lambda>info. distance (ni_id info) (replicate 20 3)) r) \<and> distinct (map ni_id r)"
proof -
  let ?ps = "[RInsert \<lparr>ni_id = replicate 20 1, ni_endpoint = (7 :: nat)\<rparr> (Some 5) 5,
        RInsert \<lparr>ni_id = replicate 20 2, ni_endpoint = 8\<rparr> None 6]"
  have ok: "node_ok (replicate 20 0)" "\<forall>p \<in> set ?ps. rt_op_ok p" "node_ok (replicate 20 3)"
    by (simp_all add: NODE_ID_SIZE_def)
  obtain s xss where s: "run_ops rt_exec ?ps (ss_new (replicate 20 0)) = Some s"
    "map as_slice (tb_buckets (ss_table s)) = map Some xss"
    using rt_reaches [OF ok(1,2)] by blast
  from get_closest_correct [OF ok s refl] s(1) show ?thesis by blast
qed

section \<open>Insertion tasks end\<close>

text \<open>The stale nodes that the open tasks may still ping.\<close>

definition ss_pending :: "'e session \<Rightarrow> nat" where
  "ss_pending s = sum_list (map (\<lambda>task. Suc (length (fl_stale (fst task)))) (ss_tasks s))"

definition op_inserts :: "'e rt_op \<Rightarrow> nat" where
  "op_inserts p = (case p of RInsert _ _ _ \<Rightarrow> 1 | _ \<Rightarrow> 0)"

definition rt_inserts :: "'e rt_op list \<Rightarrow> nat" where
  "rt_inserts ps = sum_list (map op_inserts ps)"

text \<open>The ping results that reach an open task.\<close>

definition op_pings :: "'e rt_op \<Rightarrow> 'e session \<Rightarrow> nat" where
  "op_pings p s = (case p of RPinged k _ _ _ \<Rightarrow> if k < length (ss_tasks s) then 1 else 0 | _ \<Rightarrow> 0)"

fun rt_pings :: "'e rt_op list \<Rightarrow> 'e session \<Rightarrow> nat" where
  "rt_pings [] s = 0"
| "rt_pings (p # ps) s = op_pings p s + (case rt_exec p s of None \<Rightarrow> 0 | Some s' \<Rightarrow> rt_pings ps s')"

lemma sum_list_remove_nth:
  "k < length xs \<Longrightarrow> sum_list (map f xs) = f (xs ! k) + sum_list (map f (remove_nth k xs) :: nat list)"
  by (subst (1) id_take_nth_drop [of k xs]) (simp_all add: remove_nth_def)

lemma sum_list_update_nth:
  "k < length xs \<Longrightarrow> sum_list (map f xs) + f y = f (xs ! k) + sum_list (map f (xs[k := y]) :: nat list)"
  by (subst (1) id_take_nth_drop [of k xs]) (simp_all add: upd_conv_take_nth_drop)

lemma pinged_pending:
  assumes "ss_inv self s" and k: "k < length (ss_tasks s)" and "rt_exec (RPinged k ping1 ping2 clock) s = Some s'"
  shows "Suc (ss_pending s') \<le> ss_pending s"
proof -
  obtain xss where x: "tb_inv (ss_table s) xss" "tb_self_id (ss_table s) = self"
    "\<forall>task \<in> set (ss_tasks s). task_fits self (length xss) task"
    using assms(1) by (auto simp: ss_inv_def)
  then have "task_fits (tb_self_id (ss_table s)) (length xss) (ss_tasks s ! k)" using k by simp
  from insert_pinged_ok [OF x(1) this, of ping1 ping2 clock] obtain r t' where
    r: "insert_pinged (ss_tasks s ! k) (ss_table s) ping1 ping2 clock = Some (r, t')"
    "\<forall>task'. r = Some task' \<longrightarrow> Suc (length (fl_stale (fst task'))) = length (fl_stale (fst (ss_tasks s ! k)))"
    by blast
  let ?f = "\<lambda>task :: 'a insert_task. Suc (length (fl_stale (fst task)))"
  show ?thesis
  proof (cases r)
    case None
    then have "ss_tasks s' = remove_nth k (ss_tasks s)" using assms(3) r(1) k by auto
    then show ?thesis using sum_list_remove_nth [OF k, of ?f] by (simp add: ss_pending_def)
  next
    case (Some task)
    then have "ss_tasks s' = (ss_tasks s)[k := task]" using assms(3) r(1) k by auto
    then show ?thesis using sum_list_update_nth [OF k, of ?f task] r(2) Some by (simp add: ss_pending_def)
  qed
qed

lemma insert_pending:
  assumes "ss_inv self s" and "node_ok (ni_id node)" and "rt_exec (RInsert node last_ok clock) s = Some s'"
  shows "ss_pending s' \<le> ss_pending s + 8"
proof -
  obtain xss where "tb_inv (ss_table s) xss" using assms(1) by (auto simp: ss_inv_def)
  from insert_start_ok [OF this assms(2), of last_ok clock] obtain r t' where
    "insert_start (ss_table s) node last_ok clock = Some (r, t')"
    "\<forall>task. r = Some task \<longrightarrow> length (fl_stale (fst task)) < 8" by blast
  with assms(3) show ?thesis by (auto simp: ss_pending_def split: option.splits)
qed

lemma other_pending:
  assumes "rt_exec p s = Some s'" and "\<And>node last_ok clock. p \<noteq> RInsert node last_ok clock"
    and "\<And>k ping1 ping2 clock. p = RPinged k ping1 ping2 clock \<Longrightarrow> \<not> k < length (ss_tasks s)"
  shows "ss_pending s' = ss_pending s"
proof (cases p)
  case (RInsert node last_ok clock)
  with assms(2) show ?thesis by blast
next
  case (RPinged k ping1 ping2 clock)
  with assms(1) assms(3) [OF RPinged] show ?thesis by simp
qed (use assms(1) in \<open>auto simp: ss_pending_def elim!: bind_eq_SomeE\<close>)

lemma step_pending:
  assumes inv: "ss_inv self s" and ok: "rt_op_ok p" and ex: "rt_exec p s = Some s'"
  shows "op_pings p s + ss_pending s' \<le> 8 * op_inserts p + ss_pending s"
proof (cases p)
  case (RInsert node last_ok clock)
  then show ?thesis using insert_pending [OF inv _ ex [unfolded RInsert]] ok by (simp add: op_pings_def op_inserts_def)
next
  case (RPinged k ping1 ping2 clock)
  show ?thesis
  proof (cases "k < length (ss_tasks s)")
    case True
    from pinged_pending [OF inv True ex [unfolded RPinged]] True RPinged show ?thesis
      by (simp add: op_pings_def op_inserts_def)
  next
    case False
    then show ?thesis using RPinged ex by (simp add: op_pings_def op_inserts_def)
  qed
qed (use other_pending [OF ex] in \<open>simp_all add: op_pings_def op_inserts_def\<close>)

lemma run_pending:
  assumes "ss_inv self s" and "\<forall>p \<in> set ps. rt_op_ok p" and "run_ops rt_exec ps s = Some s'"
  shows "rt_pings ps s + ss_pending s' \<le> 8 * rt_inserts ps + ss_pending s"
  using assms
proof (induction ps arbitrary: s)
  case (Cons p ps)
  from Cons.prems(3) obtain s1 where s1: "rt_exec p s = Some s1" "run_ops rt_exec ps s1 = Some s'"
    by (auto elim!: bind_eq_SomeE)
  have ok: "rt_op_ok p" "\<forall>p \<in> set ps. rt_op_ok p" using Cons.prems(2) by simp_all
  have "ss_inv self s1" using rt_exec_safe [OF Cons.prems(1) ok(1)] s1(1) by auto
  from Cons.IH [OF this ok(2) s1(2)] step_pending [OF Cons.prems(1) ok(1) s1(1)]
  show ?case by (simp add: s1(1) rt_inserts_def)
qed (simp add: rt_inserts_def)



end
