(* ===== verification/Buffer.thy ===== *)
theory Buffer
  imports Layout Machine
begin

text \<open>
  Byte buffers (\<open>src/rust/g1/bytes/src/lib.rs\<close> and what the code uses of \<open>Buf\<close> and \<open>BufMut\<close>): big-endian
  integers, reads that panic on a short buffer, and reads that only look ahead.
\<close>

section \<open>Big-endian integers\<close>

definition be_val :: "byte list \<Rightarrow> nat" where
  "be_val bs = foldl (\<lambda>n b. n * 256 + unat b) 0 bs"

fun be_bytes :: "nat \<Rightarrow> nat \<Rightarrow> byte list" where
  "be_bytes 0 n = []"
| "be_bytes (Suc k) n = be_bytes k (n div 256) @ [word_of_nat n]"

lemma length_be_bytes [simp]: "length (be_bytes k n) = k"
  by (induction k arbitrary: n) auto

lemma be_val_Nil [simp]: "be_val [] = 0"
  by (simp add: be_val_def)

lemma be_val_snoc: "be_val (bs @ [b]) = be_val bs * 256 + unat b"
  by (simp add: be_val_def)

lemma unat_byte_less: "unat (b :: byte) < 256"
  using unsigned_less [of b] by simp

lemma be_val_bytes: "be_val (be_bytes k n) = n mod 256 ^ k"
proof (induction k arbitrary: n)
  case (Suc k)
  have "n mod 256 ^ Suc k = (n div 256) mod 256 ^ k * 256 + n mod 256"
    by (simp add: mod_mult2_eq mult.commute)
  then show ?case by (simp add: Suc be_val_snoc unat_of_nat)
qed simp

lemma be_val_bytes_id: "n < 256 ^ k \<Longrightarrow> be_val (be_bytes k n) = n"
  by (simp add: be_val_bytes)

lemma be_val_less: "be_val bs < 256 ^ length bs"
proof (induction bs rule: rev_induct)
  case (snoc b bs)
  then have "be_val bs * 256 + 256 \<le> 256 ^ length bs * 256"
    by (metis Suc_leI add.commute mult_Suc mult_le_mono1)
  with unat_byte_less [of b] show ?case by (simp add: be_val_snoc mult.commute)
qed simp

lemma byte_256: "(256 :: byte) = 0"
  by transfer (simp add: take_bit_eq_mod)

lemma be_bytes_val: "be_bytes (length bs) (be_val bs) = bs"
proof (induction bs rule: rev_induct)
  case (snoc b bs)
  have "(be_val bs * 256 + unat b) div 256 = be_val bs"
    using unat_byte_less [of b] by simp
  moreover have "(word_of_nat (be_val bs * 256 + unat b) :: byte) = b"
    by (simp add: byte_256)
  ultimately show ?case using snoc by (simp add: be_val_snoc)
qed simp


lemma be_bytes_val_append: "n = length bs \<Longrightarrow> be_bytes n (be_val bs) = bs"
  using be_bytes_val by simp

section \<open>Looking ahead\<close>

text \<open>The error says how many bytes were requested and how many there are.\<close>

definition peek_slice :: "byte list \<Rightarrow> nat \<Rightarrow> (nat \<times> nat) + byte list" where
  "peek_slice bs n = (if length bs < n then Inl (n, length bs) else Inr (take n bs))"

definition peek_u32 :: "byte list \<Rightarrow> (nat \<times> nat) + nat" where
  "peek_u32 bs = map_sum id be_val (peek_slice bs 4)"

section \<open>Reading\<close>

text \<open>\<open>Buf::get_u8\<close>, \<open>get_u16\<close>, \<open>get_u32\<close> and \<open>copy_to_bytes\<close> panic when the buffer is too short.\<close>

definition copy_to_bytes :: "nat \<Rightarrow> byte list \<Rightarrow> (byte list \<times> byte list) option" where
  "copy_to_bytes n buffer = (if length buffer < n then None else Some (take n buffer, drop n buffer))"

definition get_be :: "nat \<Rightarrow> byte list \<Rightarrow> (nat \<times> byte list) option" where
  "get_be k buffer = do { (bs, buffer) \<leftarrow> copy_to_bytes k buffer; Some (be_val bs, buffer) }"

abbreviation get_u8 :: "byte list \<Rightarrow> (nat \<times> byte list) option" where "get_u8 \<equiv> get_be 1"

abbreviation get_u16 :: "byte list \<Rightarrow> (nat \<times> byte list) option" where "get_u16 \<equiv> get_be 2"

abbreviation get_u32 :: "byte list \<Rightarrow> (nat \<times> byte list) option" where "get_u32 \<equiv> get_be 4"

lemma copy_to_bytes_append [simp]:
  "n = length bs \<Longrightarrow> copy_to_bytes n (bs @ rest) = Some (bs, rest)"
  by (simp add: copy_to_bytes_def)

lemma copy_to_bytes_all [simp]: "copy_to_bytes (length bs) bs = Some (bs, [])"
  by (simp add: copy_to_bytes_def)

lemma copy_to_bytes_Some:
  "copy_to_bytes n b = Some (bs, rest) \<longleftrightarrow> b = bs @ rest \<and> length bs = n"
  by (auto simp: copy_to_bytes_def)

lemma get_be_append: "n < 256 ^ k \<Longrightarrow> get_be k (be_bytes k n @ rest) = Some (n, rest)"
  by (simp add: get_be_def be_val_bytes)

lemma get_be_Some:
  "get_be k b = Some (n, rest) \<longleftrightarrow> b = be_bytes k n @ rest \<and> n < 256 ^ k"
proof
  assume "get_be k b = Some (n, rest)"
  then obtain bs where "b = bs @ rest" "length bs = k" "n = be_val bs"
    by (auto simp: get_be_def copy_to_bytes_Some elim!: bind_eq_SomeE)
  then show "b = be_bytes k n @ rest \<and> n < 256 ^ k" using be_bytes_val [of bs] be_val_less [of bs] by simp
next
  assume "b = be_bytes k n @ rest \<and> n < 256 ^ k"
  then show "get_be k b = Some (n, rest)" using get_be_append [of n k rest] by simp
qed

lemma get_be_total: "k \<le> length b \<Longrightarrow> \<exists>n rest. get_be k b = Some (n, rest) \<and> length rest = length b - k"
  by (simp add: get_be_def copy_to_bytes_def)

lemma peek_u32_append: "n < 2 ^ 32 \<Longrightarrow> peek_u32 (be_bytes 4 n @ rest) = Inr n"
  by (simp add: peek_u32_def peek_slice_def be_val_bytes)

lemma peek_u32_Inr:
  assumes "peek_u32 b = Inr n"
  obtains rest where "b = be_bytes 4 n @ rest" and "n < 2 ^ 32"
proof -
  have l: "4 \<le> length b" and n: "n = be_val (take 4 b)"
    using assms by (auto simp: peek_u32_def peek_slice_def split: if_splits)
  have "get_be 4 b = Some (n, drop 4 b)" using l n by (simp add: get_be_def copy_to_bytes_def)
  then show thesis using that [of "drop 4 b"] by (simp add: get_be_Some)
qed

lemma peek_u32_Inl: "peek_u32 b = Inl e \<Longrightarrow> length b < 4"
  by (auto simp: peek_u32_def peek_slice_def split: if_splits)

declare be_bytes.simps [simp del]

end
