(* ===== verification/Bencode.thy ===== *)
theory Bencode
  imports Buffer "HOL-Library.List_Lexorder"
begin

text \<open>
  Bencode values (\<open>src/rust/bittorrent/bencode/src/lib.rs\<close>, \<open>convert.rs\<close> and \<open>dict.rs\<close>, with the slice reads
  of \<open>src/rust/g1/bytes/src/lib.rs\<close>): decoding in strict and lenient mode, encoding, and the conversions to
  and from domain types.

  Owned and borrowed values are one type: a list and a dictionary carry a mark of type \<open>'r\<close>, the raw bytes
  they were decoded from for a borrowed value and nothing for an owned one. A \<open>BTreeMap\<close> is the list of its
  entries in the order of their keys. An error keeps the bytes it reports; the text they are escaped to
  is not modelled, nor where the buffer stands after an error.
\<close>

section \<open>Slices\<close>

definition get_slice :: "nat \<Rightarrow> byte list \<Rightarrow> (byte list \<times> byte list) option" where
  "get_slice n b = (if length b < n then None else Some (take n b, drop n b))"

definition try_get_slice :: "nat \<Rightarrow> byte list \<Rightarrow> (nat \<times> nat) + (byte list \<times> byte list)" where
  "try_get_slice n b = (if length b < n then Inl (n, length b) else Inr (take n b, drop n b))"

definition get_slice_until :: "(byte \<Rightarrow> bool) \<Rightarrow> byte list \<Rightarrow> (byte list \<times> byte list) option" where
  "get_slice_until p b = (case position p b of None \<Rightarrow> None | Some i \<Rightarrow> Some (take (Suc i) b, drop (Suc i) b))"

definition get_slice_until_strip :: "(byte \<Rightarrow> bool) \<Rightarrow> byte list \<Rightarrow> (byte list \<times> byte list) option" where
  "get_slice_until_strip p b = map_option (\<lambda>(s, rest). (take (length s - 1) s, rest)) (get_slice_until p b)"

section \<open>Values\<close>

datatype 'r bvalue =
    ByteString "byte list"
  | Integer int
  | ListV "'r bvalue list" 'r
  | Dictionary "(byte list \<times> 'r bvalue) list" 'r

type_synonym own_value = "unit bvalue"
type_synonym borrow_value = "byte list bvalue"

datatype be_error =
    Incomplete
  | InvalidByteStringLength "byte list"
  | InvalidInteger "byte list"
  | InvalidValueType byte
  | NotStrictlyIncreasingDictionaryKey "byte list" "byte list"
  | UnexpectedTrailingData own_value "byte list"

section \<open>Integers in text\<close>

definition is_digit :: "byte \<Rightarrow> bool" where
  "is_digit b \<longleftrightarrow> 48 \<le> b \<and> b \<le> 57"

definition parse_digits :: "byte list \<Rightarrow> nat option" where
  "parse_digits bs =
     (if bs = [] \<or> \<not> list_all is_digit bs then None
      else Some (foldl (\<lambda>n b. n * 10 + (unat b - 48)) 0 bs))"

text \<open>\<open>str::parse\<close> of \<open>usize\<close> and \<open>i64\<close>: an optional plus sign, for the signed type an optional minus sign.\<close>

definition parse_usize :: "byte list \<Rightarrow> nat option" where
  "parse_usize bs =
     (case parse_digits (case bs of [] \<Rightarrow> [] | b # ds \<Rightarrow> if b = 43 then ds else bs) of
        None \<Rightarrow> None
      | Some n \<Rightarrow> if n \<le> u64_max then Some n else None)"

definition parse_i64 :: "byte list \<Rightarrow> int option" where
  "parse_i64 bs =
     (case bs of
        [] \<Rightarrow> None
      | b # ds \<Rightarrow>
          (case map_option (\<lambda>n. if b = 45 then - int n else int n)
                  (parse_digits (if b = 43 \<or> b = 45 then ds else bs)) of
             None \<Rightarrow> None
           | Some i \<Rightarrow> if - (2 ^ 63) \<le> i \<and> i < 2 ^ 63 then Some i else None))"

fun show_nat :: "nat \<Rightarrow> byte list" where
  "show_nat n = (if n < 10 then [48 + word_of_nat n] else show_nat (n div 10) @ [48 + word_of_nat (n mod 10)])"

declare show_nat.simps [simp del]

definition show_int :: "int \<Rightarrow> byte list" where
  "show_int i = (if i < 0 then 45 # show_nat (nat (- i)) else show_nat (nat i))"

section \<open>Decoding\<close>

definition decode_byte_string :: "byte list \<Rightarrow> be_error + (byte list \<times> byte list)" where
  "decode_byte_string b =
     (case get_slice_until_strip (\<lambda>x. x = 58) b of
        None \<Rightarrow> Inl Incomplete
      | Some (len, b) \<Rightarrow>
          (case parse_usize len of
             None \<Rightarrow> Inl (InvalidByteStringLength len)
           | Some n \<Rightarrow> (case try_get_slice n b of Inl _ \<Rightarrow> Inl Incomplete | Inr r \<Rightarrow> Inr r)))"

text \<open>
  The decoder and its two loops. The first argument bounds the depth of the recursion and the length of
  the loops together; \<open>None\<close> is running out of it.
\<close>

fun decode_value :: "nat \<Rightarrow> bool \<Rightarrow> (byte list \<Rightarrow> 'r) \<Rightarrow> byte list \<Rightarrow> (be_error + ('r bvalue \<times> byte list)) option"
and decode_list ::
  "nat \<Rightarrow> bool \<Rightarrow> (byte list \<Rightarrow> 'r) \<Rightarrow> 'r bvalue list \<Rightarrow> byte list \<Rightarrow> (be_error + ('r bvalue list \<times> byte list)) option"
and decode_dict ::
  "nat \<Rightarrow> bool \<Rightarrow> (byte list \<Rightarrow> 'r) \<Rightarrow> (byte list \<times> 'r bvalue) list \<Rightarrow> byte list \<Rightarrow>
    (be_error + ((byte list \<times> 'r bvalue) list \<times> byte list)) option"
where
  "decode_value 0 strict mk b = None"
| "decode_value (Suc n) strict mk b =
     (case b of
        [] \<Rightarrow> Some (Inl Incomplete)
      | x # buf \<Rightarrow>
          if is_digit x
          then Some (case decode_byte_string b of Inl e \<Rightarrow> Inl e | Inr (s, rest) \<Rightarrow> Inr (ByteString s, rest))
          else if x = 105
          then Some (case get_slice_until_strip (\<lambda>x. x = 101) buf of
                       None \<Rightarrow> Inl Incomplete
                     | Some (i, rest) \<Rightarrow>
                         (case parse_i64 i of None \<Rightarrow> Inl (InvalidInteger i) | Some i \<Rightarrow> Inr (Integer i, rest)))
          else if x = 108
          then (case decode_list n strict mk [] buf of
                  None \<Rightarrow> None
                | Some (Inl e) \<Rightarrow> Some (Inl e)
                | Some (Inr (vs, rest)) \<Rightarrow> Some (Inr (ListV vs (mk (take (length b - length rest) b)), rest)))
          else if x = 100
          then (case decode_dict n strict mk [] buf of
                  None \<Rightarrow> None
                | Some (Inl e) \<Rightarrow> Some (Inl e)
                | Some (Inr (d, rest)) \<Rightarrow> Some (Inr (Dictionary d (mk (take (length b - length rest) b)), rest)))
          else Some (Inl (InvalidValueType x)))"
| "decode_list 0 strict mk acc b = None"
| "decode_list (Suc n) strict mk acc b =
     (case b of
        [] \<Rightarrow> Some (Inl Incomplete)
      | x # rest \<Rightarrow>
          if x = 101 then Some (Inr (acc, rest))
          else (case decode_value n strict mk b of
                  None \<Rightarrow> None
                | Some (Inl e) \<Rightarrow> Some (Inl e)
                | Some (Inr (v, rest)) \<Rightarrow> decode_list n strict mk (acc @ [v]) rest))"
| "decode_dict 0 strict mk acc b = None"
| "decode_dict (Suc n) strict mk acc b =
     (case b of
        [] \<Rightarrow> Some (Inl Incomplete)
      | x # rest \<Rightarrow>
          if x = 101 then Some (Inr (acc, rest))
          else (case decode_byte_string b of
                  Inl e \<Rightarrow> Some (Inl e)
                | Inr (key, rest) \<Rightarrow>
                    (case decode_value n strict mk rest of
                       None \<Rightarrow> None
                     | Some (Inl e) \<Rightarrow> Some (Inl e)
                     | Some (Inr (v, rest)) \<Rightarrow>
                         if acc \<noteq> [] \<and> strict \<and> \<not> fst (last acc) < key
                         then Some (Inl (NotStrictlyIncreasingDictionaryKey (fst (last acc)) key))
                         else decode_dict n strict mk (bt_insert key v acc) rest)))"

definition be_decode :: "bool \<Rightarrow> (byte list \<Rightarrow> 'r) \<Rightarrow> byte list \<Rightarrow> (be_error + ('r bvalue \<times> byte list)) option" where
  "be_decode strict mk b = decode_value (2 * length b + 1) strict mk b"

section \<open>Encoding\<close>

definition encode_byte_string :: "byte list \<Rightarrow> byte list" where
  "encode_byte_string s = show_nat (length s) @ [58] @ s"

fun be_encode :: "'r bvalue \<Rightarrow> byte list" where
  "be_encode (ByteString s) = encode_byte_string s"
| "be_encode (Integer i) = [105] @ show_int i @ [101]"
| "be_encode (ListV vs _) = [108] @ concat (map be_encode vs) @ [101]"
| "be_encode (Dictionary d _) = [100] @ concat (map (\<lambda>(k, v). encode_byte_string k @ be_encode v) d) @ [101]"

section \<open>Views and conversions\<close>

definition as_byte_string :: "'r bvalue \<Rightarrow> byte list option" where
  "as_byte_string v = (case v of ByteString s \<Rightarrow> Some s | _ \<Rightarrow> None)"

definition as_integer :: "'r bvalue \<Rightarrow> int option" where
  "as_integer v = (case v of Integer i \<Rightarrow> Some i | _ \<Rightarrow> None)"

definition as_list :: "'r bvalue \<Rightarrow> 'r bvalue list option" where
  "as_list v = (case v of ListV vs _ \<Rightarrow> Some vs | _ \<Rightarrow> None)"

definition as_dictionary :: "'r bvalue \<Rightarrow> (byte list \<times> 'r bvalue) list option" where
  "as_dictionary v = (case v of Dictionary d _ \<Rightarrow> Some d | _ \<Rightarrow> None)"

definition into_byte_string :: "'r bvalue \<Rightarrow> 'r bvalue + byte list" where
  "into_byte_string v = (case v of ByteString s \<Rightarrow> Inr s | _ \<Rightarrow> Inl v)"

definition into_integer :: "'r bvalue \<Rightarrow> 'r bvalue + int" where
  "into_integer v = (case v of Integer i \<Rightarrow> Inr i | _ \<Rightarrow> Inl v)"

definition into_list :: "'r bvalue \<Rightarrow> 'r bvalue + ('r bvalue list \<times> 'r)" where
  "into_list v = (case v of ListV vs raw \<Rightarrow> Inr (vs, raw) | _ \<Rightarrow> Inl v)"

definition into_dictionary :: "'r bvalue \<Rightarrow> 'r bvalue + ((byte list \<times> 'r bvalue) list \<times> 'r)" where
  "into_dictionary v = (case v of Dictionary d raw \<Rightarrow> Inr (d, raw) | _ \<Rightarrow> Inl v)"

definition raw_value :: "borrow_value \<Rightarrow> byte list option" where
  "raw_value v = (case v of ListV _ raw \<Rightarrow> Some raw | Dictionary _ raw \<Rightarrow> Some raw | _ \<Rightarrow> None)"

fun be_to_owned :: "'r bvalue \<Rightarrow> own_value" where
  "be_to_owned (ByteString s) = ByteString s"
| "be_to_owned (Integer i) = Integer i"
| "be_to_owned (ListV vs _) = ListV (map be_to_owned vs) ()"
| "be_to_owned (Dictionary d _) =
     Dictionary (foldl (\<lambda>m (k, v). bt_insert k v m) [] (map (\<lambda>(k, v). (k, be_to_owned v)) d)) ()"

text \<open>\<open>TryFrom<&[u8]>\<close>: the whole slice is one value, in strict mode without trailing data.\<close>

definition be_try_from :: "bool \<Rightarrow> byte list \<Rightarrow> (be_error + borrow_value) option" where
  "be_try_from strict b =
     (case be_decode strict (\<lambda>raw. raw) b of
        None \<Rightarrow> None
      | Some (Inl e) \<Rightarrow> Some (Inl e)
      | Some (Inr (v, rest)) \<Rightarrow>
          if \<not> strict \<or> rest = [] then Some (Inr v) else Some (Inl (UnexpectedTrailingData (be_to_owned v) rest)))"

text \<open>\<open>to_strict\<close> rebuilds the value without validating it.\<close>

fun to_strict :: "'r bvalue \<Rightarrow> 'r bvalue" where
  "to_strict (ByteString s) = ByteString s"
| "to_strict (Integer i) = Integer i"
| "to_strict (ListV vs raw) = ListV (map to_strict vs) raw"
| "to_strict (Dictionary d raw) = Dictionary (map (\<lambda>(k, v). (k, to_strict v)) d) raw"

section \<open>Domain types\<close>

datatype convert_error =
    ExpectByteString own_value
  | ExpectInteger own_value
  | ExpectList own_value
  | ExpectDictionary own_value
  | InvalidUtf8String "byte list"
  | MissingDictionaryKey "byte list"

text \<open>\<open>str::from_utf8\<close>: the well-formed byte sequences of the Unicode standard.\<close>

definition utf8_cont :: "byte \<Rightarrow> bool" where
  "utf8_cont b \<longleftrightarrow> 0x80 \<le> b \<and> b \<le> 0xBF"

fun utf8_ok :: "byte list \<Rightarrow> bool" where
  "utf8_ok [] = True"
| "utf8_ok (b # bs) =
     (if b < 0x80 then utf8_ok bs
      else if 0xC2 \<le> b \<and> b \<le> 0xDF
      then (case bs of c # bs \<Rightarrow> utf8_cont c \<and> utf8_ok bs | _ \<Rightarrow> False)
      else if 0xE0 \<le> b \<and> b \<le> 0xEF
      then (case bs of
              c # d # bs \<Rightarrow> utf8_cont c \<and> (b = 0xE0 \<longrightarrow> 0xA0 \<le> c) \<and> (b = 0xED \<longrightarrow> c \<le> 0x9F) \<and> utf8_cont d \<and> utf8_ok bs
            | _ \<Rightarrow> False)
      else if 0xF0 \<le> b \<and> b \<le> 0xF4
      then (case bs of
              c # d # e # bs \<Rightarrow> utf8_cont c \<and> (b = 0xF0 \<longrightarrow> 0x90 \<le> c) \<and> (b = 0xF4 \<longrightarrow> c \<le> 0x8F) \<and>
                utf8_cont d \<and> utf8_cont e \<and> utf8_ok bs
            | _ \<Rightarrow> False)
      else False)"

definition to_bytes :: "'r bvalue \<Rightarrow> convert_error + byte list" where
  "to_bytes v = (case into_byte_string v of Inl v \<Rightarrow> Inl (ExpectByteString (be_to_owned v)) | Inr s \<Rightarrow> Inr s)"

definition from_bytes :: "byte list \<Rightarrow> own_value" where
  "from_bytes s = ByteString s"

definition to_str :: "'r bvalue \<Rightarrow> convert_error + byte list" where
  "to_str v =
     (case to_bytes v of Inl e \<Rightarrow> Inl e | Inr s \<Rightarrow> if utf8_ok s then Inr s else Inl (InvalidUtf8String s))"

definition from_str :: "byte list \<Rightarrow> own_value" where
  "from_str s = ByteString s"

definition to_int :: "'r bvalue \<Rightarrow> convert_error + int" where
  "to_int v = (case as_integer v of None \<Rightarrow> Inl (ExpectInteger (be_to_owned v)) | Some i \<Rightarrow> Inr i)"

text \<open>\<open>try_collect\<close>: the first error, or all results.\<close>

fun try_collect :: "('e + 'a) list \<Rightarrow> 'e + 'a list" where
  "try_collect [] = Inr []"
| "try_collect (Inl e # rs) = Inl e"
| "try_collect (Inr x # rs) = (case try_collect rs of Inl e \<Rightarrow> Inl e | Inr xs \<Rightarrow> Inr (x # xs))"

definition to_vec :: "'r bvalue \<Rightarrow> ('r bvalue \<Rightarrow> convert_error + 'a) \<Rightarrow> convert_error + 'a list" where
  "to_vec v convert =
     (case into_list v of
        Inl v \<Rightarrow> Inl (ExpectList (be_to_owned v))
      | Inr (vs, _) \<Rightarrow> try_collect (map convert vs))"

definition from_vec :: "'a list \<Rightarrow> ('a \<Rightarrow> own_value) \<Rightarrow> own_value" where
  "from_vec xs convert = ListV (map convert xs) ()"

definition to_dict :: "'r bvalue \<Rightarrow> convert_error + ((byte list \<times> 'r bvalue) list \<times> 'r)" where
  "to_dict v = (case into_dictionary v of Inl v \<Rightarrow> Inl (ExpectDictionary (be_to_owned v)) | Inr r \<Rightarrow> Inr r)"

definition from_dict :: "(byte list \<times> 'r bvalue) list \<Rightarrow> (byte list \<Rightarrow> 'k :: linorder) \<Rightarrow> ('k \<times> own_value) list" where
  "from_dict d convert = foldl (\<lambda>m (k, v). bt_insert k v m) [] (map (\<lambda>(k, v). (convert k, be_to_owned v)) d)"

section \<open>Dictionaries of domain types\<close>

definition bt_remove :: "'k \<Rightarrow> ('k \<times> 'v) list \<Rightarrow> 'v option \<times> ('k \<times> 'v) list" where
  "bt_remove k m = (map_of m k, AList.delete k m)"

definition must_remove ::
  "(byte list \<times> 'r bvalue) list \<Rightarrow> byte list \<Rightarrow> (convert_error + 'r bvalue) \<times> (byte list \<times> 'r bvalue) list" where
  "must_remove m key =
     (case bt_remove key m of
        (None, m) \<Rightarrow> (Inl (MissingDictionaryKey key), m)
      | (Some v, m) \<Rightarrow> (Inr v, m))"

definition transpose_with :: "('v \<Rightarrow> 'e + 'a) \<Rightarrow> 'v option \<Rightarrow> 'e + 'a option" where
  "transpose_with f r = (case r of None \<Rightarrow> Inr None | Some v \<Rightarrow> (case f v of Inl e \<Rightarrow> Inl e | Inr x \<Rightarrow> Inr (Some x)))"

definition remove_str ::
  "(byte list \<times> 'r bvalue) list \<Rightarrow> byte list \<Rightarrow> (convert_error + byte list option) \<times> (byte list \<times> 'r bvalue) list" where
  "remove_str m key = (case bt_remove key m of (r, m) \<Rightarrow> (transpose_with to_str r, m))"

definition remove_int ::
  "(byte list \<times> 'r bvalue) list \<Rightarrow> byte list \<Rightarrow> (convert_error + int option) \<times> (byte list \<times> 'r bvalue) list" where
  "remove_int m key = (case bt_remove key m of (r, m) \<Rightarrow> (transpose_with to_int r, m))"

definition insert_from ::
  "(byte list \<times> own_value) list \<Rightarrow> byte list \<Rightarrow> 'v option \<Rightarrow> ('v \<Rightarrow> own_value) \<Rightarrow> (byte list \<times> own_value) list" where
  "insert_from m key r convert = (case r of None \<Rightarrow> m | Some v \<Rightarrow> bt_insert key (convert v) m)"

end
