(* ===== verification/Bencode_Spec.thy ===== *)
theory Bencode_Spec
  imports Bencode
begin

text \<open>
  What the Bencode codec does: every well-formed value is read back from its encoding, decoding always
  returns and consumes a prefix, strict decoding is a restriction of lenient decoding, and the raw bytes a
  borrowed value carries are those it was read from.
\<close>

section \<open>Integers in text are read back\<close>

lemma digit_byte:
  assumes "d < 10"
  shows "is_digit (48 + word_of_nat d)" and "unat (48 + word_of_nat d :: byte) = 48 + d"
proof -
  have "48 + word_of_nat d = (word_of_nat (48 + d) :: byte)" by simp
  moreover have "unat (word_of_nat (48 + d) :: byte) = 48 + d" using assms by (simp add: unat_of_nat del: of_nat_add)
  ultimately show u: "unat (48 + word_of_nat d :: byte) = 48 + d" by simp
  show "is_digit (48 + word_of_nat d)" using u assms by (simp add: is_digit_def word_le_nat_alt)
qed

lemma parse_digits_snoc:
  "parse_digits bs = Some n \<Longrightarrow> is_digit b \<Longrightarrow> parse_digits (bs @ [b]) = Some (n * 10 + (unat b - 48))"
  by (auto simp: parse_digits_def split: if_splits)

lemma parse_show_nat: "parse_digits (show_nat n) = Some n"
proof (induction n rule: show_nat.induct)
  case (1 n)
  show ?case
  proof (cases "n < 10")
    case True
    then show ?thesis using digit_byte [OF True] by (subst show_nat.simps) (simp add: parse_digits_def)
  next
    case False
    have d: "n mod 10 < 10" by simp
    show ?thesis
      using parse_digits_snoc [OF 1 [OF False] digit_byte(1) [OF d]] digit_byte(2) [OF d] False
      by (subst show_nat.simps) simp
  qed
qed

lemma show_nat_digits: "show_nat n \<noteq> []" "\<forall>b \<in> set (show_nat n). is_digit b"
  using parse_show_nat [of n] by (auto simp: parse_digits_def list_all_iff split: if_splits)

lemma digit_not: "is_digit b \<Longrightarrow> b \<noteq> 58 \<and> b \<noteq> 101 \<and> b \<noteq> 43 \<and> b \<noteq> 45 \<and> b \<noteq> 105 \<and> b \<noteq> 108 \<and> b \<noteq> 100"
  by (auto simp: is_digit_def)

lemma parse_usize_show: "n \<le> u64_max \<Longrightarrow> parse_usize (show_nat n) = Some n"
  using show_nat_digits [of n] parse_show_nat [of n] digit_not
  by (cases "show_nat n") (auto simp: parse_usize_def)

lemma parse_i64_show: "- (2 ^ 63) \<le> i \<Longrightarrow> i < 2 ^ 63 \<Longrightarrow> parse_i64 (show_int i) = Some i"
  using show_nat_digits [of "nat i"] parse_show_nat [of "nat i"] parse_show_nat [of "nat (- i)"] digit_not
  by (cases "show_nat (nat i)") (auto simp: parse_i64_def show_int_def)

lemma parse_bounds:
  "parse_usize bs = Some n \<Longrightarrow> n \<le> u64_max"
  "parse_i64 bs = Some i \<Longrightarrow> - (2 ^ 63) \<le> i \<and> i < 2 ^ 63"
  by (auto simp: parse_usize_def parse_i64_def split: option.splits list.splits if_splits)

section \<open>Byte strings are read back\<close>

lemma position_first: "\<forall>x \<in> set s. \<not> p x \<Longrightarrow> p c \<Longrightarrow> position p (s @ c # rest) = Some (length s)"
  by (induction s) auto

lemma until_strip_append:
  "\<forall>x \<in> set s. \<not> p x \<Longrightarrow> p c \<Longrightarrow> get_slice_until_strip p (s @ c # rest) = Some (s, rest)"
  by (simp add: get_slice_until_strip_def get_slice_until_def position_first)

lemma until_strip_split:
  assumes "get_slice_until_strip p b = Some (s, rest)"
  obtains c where "b = s @ c # rest" and "p c" and "\<forall>x \<in> set s. \<not> p x"
proof -
  obtain i where "position p b = Some i"
    using assms by (auto simp: get_slice_until_strip_def get_slice_until_def split: option.splits)
  then obtain ys y zs where y: "b = ys @ y # zs" "p y" "\<forall>x \<in> set ys. \<not> p x" by (rule position_split)
  with assms until_strip_append [OF y(3,2), of zs] that show thesis by simp
qed

lemma decode_encoded_byte_string:
  assumes "length s \<le> u64_max"
  shows "decode_byte_string (encode_byte_string s @ rest) = Inr (s, rest)"
proof -
  have "get_slice_until_strip (\<lambda>x. x = 58) (show_nat (length s) @ 58 # s @ rest) = Some (show_nat (length s), s @ rest)"
    using show_nat_digits(2) [of "length s"] digit_not by (intro until_strip_append) auto
  then show ?thesis
    by (simp add: decode_byte_string_def encode_byte_string_def parse_usize_show [OF assms] try_get_slice_def)
qed

lemma decode_byte_string_split:
  assumes "decode_byte_string b = Inr (s, rest)"
  shows "length s \<le> u64_max \<and> (\<exists>used. used \<noteq> [] \<and> b = used @ rest)"
proof -
  obtain len b' n where d: "get_slice_until_strip (\<lambda>x. x = 58) b = Some (len, b')" "parse_usize len = Some n"
    "s = take n b'" "rest = drop n b'"
    using assms by (auto simp: decode_byte_string_def try_get_slice_def split: option.splits sum.splits if_splits)
  from d(1) obtain c where "b = len @ c # b'" by (rule until_strip_split)
  then have "b = (len @ c # take n b') @ rest" using d(4) by simp
  then have "\<exists>used. used \<noteq> [] \<and> b = used @ rest" by blast
  moreover have "length s \<le> u64_max" using parse_bounds(1) [OF d(2)] d(3) by simp
  ultimately show ?thesis by blast
qed

section \<open>Well-formed values\<close>

fun wf_value :: "'r bvalue \<Rightarrow> bool" where
  "wf_value (ByteString s) \<longleftrightarrow> length s \<le> u64_max"
| "wf_value (Integer i) \<longleftrightarrow> - (2 ^ 63) \<le> i \<and> i < 2 ^ 63"
| "wf_value (ListV vs _) \<longleftrightarrow> (\<forall>v \<in> set vs. wf_value v)"
| "wf_value (Dictionary d _) \<longleftrightarrow> sorted_wrt (<) (map fst d) \<and> (\<forall>(k, v) \<in> set d. length k \<le> u64_max \<and> wf_value v)"

text \<open>The value with the marks its encoding gives it.\<close>

fun annotate :: "(byte list \<Rightarrow> 'r) \<Rightarrow> 'q bvalue \<Rightarrow> 'r bvalue" where
  "annotate mk (ByteString s) = ByteString s"
| "annotate mk (Integer i) = Integer i"
| "annotate mk (ListV vs q) = ListV (map (annotate mk) vs) (mk (be_encode (ListV vs q)))"
| "annotate mk (Dictionary d q) = Dictionary (map (\<lambda>(k, v). (k, annotate mk v)) d) (mk (be_encode (Dictionary d q)))"

section \<open>Encoded values are read back\<close>

lemma encode_byte_string_Cons: "\<exists>x t. encode_byte_string s @ t' = x # t \<and> is_digit x"
  using show_nat_digits [of "length s"] by (cases "show_nat (length s)") (auto simp: encode_byte_string_def)

lemma be_encode_Cons: "\<exists>x t. be_encode v @ t' = x # t \<and> x \<noteq> 101"
  using encode_byte_string_Cons digit_not by (cases v) (auto, metis)

lemma be_encode_length: "0 < length (be_encode v)"
  using be_encode_Cons [of v "[]"] by auto

lemma decode_list_encoded:
  assumes "\<And>v n rest. v \<in> set vs \<Longrightarrow> 2 * length (be_encode v) + 1 \<le> n \<Longrightarrow>
      decode_value n strict mk (be_encode v @ rest) = Some (Inr (annotate mk v, rest))"
    and "2 * length (concat (map be_encode vs)) + 2 \<le> n"
  shows "decode_list n strict mk acc (concat (map be_encode vs) @ 101 # rest) = Some (Inr (acc @ map (annotate mk) vs, rest))"
  using assms
proof (induction vs arbitrary: n acc)
  case Nil
  then show ?case by (cases n) simp_all
next
  case (Cons v vs)
  from Cons.prems(2) obtain m where m: "n = Suc m" by (cases n) simp_all
  obtain x t where x: "be_encode v @ concat (map be_encode vs) @ 101 # rest = x # t" "x \<noteq> 101"
    using be_encode_Cons by blast
  have l: "2 * length (concat (map be_encode vs)) + 2 \<le> m"
    using Cons.prems(2) m be_encode_length [of v] by (cases "be_encode v") simp_all
  have "decode_value m strict mk (be_encode v @ concat (map be_encode vs) @ 101 # rest) =
      Some (Inr (annotate mk v, concat (map be_encode vs) @ 101 # rest))"
    using Cons.prems m by (intro Cons.prems(1)) simp_all
  moreover have "decode_list m strict mk (acc @ [annotate mk v]) (concat (map be_encode vs) @ 101 # rest) =
      Some (Inr ((acc @ [annotate mk v]) @ map (annotate mk) vs, rest))"
    using Cons.prems m l by (intro Cons.IH) simp_all
  ultimately show ?case using m x by simp
qed

abbreviation entry :: "byte list \<times> 'r bvalue \<Rightarrow> byte list" where
  "entry \<equiv> (\<lambda>(k, v). encode_byte_string k @ be_encode v)"

lemma decode_dict_encoded:
  assumes "\<And>k v n rest. (k, v) \<in> set d \<Longrightarrow> 2 * length (be_encode v) + 1 \<le> n \<Longrightarrow>
      decode_value n strict mk (be_encode v @ rest) = Some (Inr (annotate mk v, rest))"
    and "\<And>k v. (k, v) \<in> set d \<Longrightarrow> length k \<le> u64_max"
    and "sorted_wrt (<) (map fst acc @ map fst d)"
    and "2 * length (concat (map entry d)) + 2 \<le> n"
  shows "decode_dict n strict mk acc (concat (map entry d) @ 101 # rest) =
    Some (Inr (acc @ map (\<lambda>(k, v). (k, annotate mk v)) d, rest))"
  using assms
proof (induction d arbitrary: n acc)
  case Nil
  then show ?case by (cases n) simp_all
next
  case (Cons e d)
  obtain k v where e: "e = (k, v)" by (cases e)
  from Cons.prems(4) obtain m where m: "n = Suc m" by (cases n) simp_all
  let ?tail = "concat (map entry d) @ 101 # rest"
  obtain x t where x: "encode_byte_string k @ be_encode v @ ?tail = x # t" "x \<noteq> 101"
    using encode_byte_string_Cons digit_not by blast
  have l: "2 * length (concat (map entry d)) + 2 \<le> m"
    using Cons.prems(4) m e be_encode_length [of v] by (cases "be_encode v") simp_all
  have key: "decode_byte_string (encode_byte_string k @ be_encode v @ ?tail) = Inr (k, be_encode v @ ?tail)"
    using Cons.prems(2) [of k v] e by (intro decode_encoded_byte_string) simp
  have val: "decode_value m strict mk (be_encode v @ ?tail) = Some (Inr (annotate mk v, ?tail))"
    using Cons.prems(4) m e by (intro Cons.prems(1) [of k]) simp_all
  have less: "\<forall>e \<in> set acc. fst e < k" using Cons.prems(3) e by (auto simp: sorted_wrt_append)
  then have ins: "bt_insert k (annotate mk v) acc = acc @ [(k, annotate mk v)]" by (rule bt_insert_last)
  have ok: "\<not> (acc \<noteq> [] \<and> strict \<and> \<not> fst (last acc) < k)" using less by (cases "acc = []") auto
  have "decode_dict m strict mk (acc @ [(k, annotate mk v)]) ?tail =
      Some (Inr ((acc @ [(k, annotate mk v)]) @ map (\<lambda>(k, v). (k, annotate mk v)) d, rest))"
  proof (rule Cons.IH)
    show "decode_value n strict mk (be_encode v' @ rest) = Some (Inr (annotate mk v', rest))"
      if "(k', v') \<in> set d" "2 * length (be_encode v') + 1 \<le> n" for k' v' n rest
      using Cons.prems(1) [of k' v' n rest] that by simp
    show "length k' \<le> u64_max" if "(k', v') \<in> set d" for k' v' using Cons.prems(2) [of k' v'] that by simp
  qed (use Cons.prems(3) l e in simp_all)
  then show ?case using m e x key val ins ok by simp
qed

lemma decode_value_encoded:
  assumes "wf_value v" and "2 * length (be_encode v) + 1 \<le> n"
  shows "decode_value n strict mk (be_encode v @ rest) = Some (Inr (annotate mk v, rest))"
  using assms
proof (induction v arbitrary: n rest rule: be_encode.induct)
  case (1 s)
  obtain m where m: "n = Suc m" using "1.prems"(2) by (cases n) simp_all
  obtain x t where "encode_byte_string s @ rest = x # t" "is_digit x" using encode_byte_string_Cons by blast
  moreover have "decode_byte_string (encode_byte_string s @ rest) = Inr (s, rest)"
    using "1.prems"(1) by (intro decode_encoded_byte_string) simp
  ultimately show ?case using m by simp
next
  case (2 i)
  obtain m where m: "n = Suc m" using "2.prems"(2) by (cases n) simp_all
  have "\<forall>x \<in> set (show_int i). x \<noteq> 101"
    using show_nat_digits(2) digit_not by (auto simp: show_int_def)
  then have "get_slice_until_strip (\<lambda>x. x = 101) (show_int i @ 101 # rest) = Some (show_int i, rest)"
    by (intro until_strip_append) auto
  moreover have "parse_i64 (show_int i) = Some i" using "2.prems"(1) by (intro parse_i64_show) simp_all
  ultimately show ?case using m by (simp add: is_digit_def)
next
  case (3 vs q)
  obtain m where m: "n = Suc m" using "3.prems"(2) by (cases n) simp_all
  have "decode_list m strict mk [] (concat (map be_encode vs) @ 101 # rest) = Some (Inr ([] @ map (annotate mk) vs, rest))"
    using 3 m by (intro decode_list_encoded) auto
  with m show ?case by (simp add: is_digit_def)
next
  case (4 d q)
  obtain m where m: "n = Suc m" using "4.prems"(2) by (cases n) simp_all
  have "decode_dict m strict mk [] (concat (map entry d) @ 101 # rest) =
      Some (Inr ([] @ map (\<lambda>(k, v). (k, annotate mk v)) d, rest))"
    using "4.prems" m by (intro decode_dict_encoded "4.IH") auto
  with m show ?case by (simp add: is_digit_def)
qed

section \<open>What decoding returns\<close>

definition dict_ok :: "(byte list \<times> 'r bvalue) list \<Rightarrow> bool" where
  "dict_ok d \<longleftrightarrow> sorted_wrt (<) (map fst d) \<and> (\<forall>(k, v) \<in> set d. length k \<le> u64_max \<and> wf_value v)"

lemma dict_ok_insert:
  "dict_ok d \<Longrightarrow> length k \<le> u64_max \<Longrightarrow> wf_value v \<Longrightarrow> dict_ok (bt_insert k v d)"
  using bt_insert_sorted [of d k v] unfolding dict_ok_def by fastforce

definition consumes :: "byte list \<Rightarrow> byte list \<Rightarrow> bool" where
  "consumes b rest \<longleftrightarrow> (\<exists>used. used \<noteq> [] \<and> b = used @ rest)"

lemma consumes_trans: "consumes b c \<Longrightarrow> consumes c d \<Longrightarrow> consumes b d"
  unfolding consumes_def by (metis append.assoc append_is_Nil_conv)

lemma consumes_Cons: "consumes (x # b) b" "consumes b c \<Longrightarrow> consumes (x # b) c"
  unfolding consumes_def by (metis append_Cons append_Nil not_Cons_self2) (metis append_Cons list.distinct(1))

lemma consumes_length: "consumes b c \<Longrightarrow> length c < length b"
  by (auto simp: consumes_def)

definition marked :: "(byte list \<Rightarrow> 'r) \<Rightarrow> byte list \<Rightarrow> 'r bvalue \<Rightarrow> bool" where
  "marked mk used v \<longleftrightarrow> (case v of ListV _ r \<Rightarrow> r = mk used | Dictionary _ r \<Rightarrow> r = mk used | _ \<Rightarrow> True)"

lemma take_used: "b = used @ rest \<Longrightarrow> take (length b - length rest) b = used"
  by simp

lemma decode_wf:
  "decode_value n strict mk b = Some (Inr (v, rest)) \<Longrightarrow>
    wf_value v \<and> consumes b rest \<and> marked mk (take (length b - length rest) b) v"
  "decode_list n strict mk acc b = Some (Inr (vs, rest)) \<Longrightarrow> \<forall>v \<in> set acc. wf_value v \<Longrightarrow>
    (\<forall>v \<in> set vs. wf_value v) \<and> consumes b rest"
  "decode_dict n strict mk dacc b = Some (Inr (d, rest)) \<Longrightarrow> dict_ok dacc \<Longrightarrow> dict_ok d \<and> consumes b rest"
proof (induction n strict mk b and n strict mk acc b and n strict mk dacc b
    arbitrary: v rest and vs rest and d rest rule: decode_value_decode_list_decode_dict.induct)
  case (2 n strict mk b)
  obtain x buf where b: "b = x # buf" using "2.prems" by (cases b) auto
  consider "is_digit x" | "\<not> is_digit x" "x = 105" | "\<not> is_digit x" "x = 108" | "\<not> is_digit x" "x = 100"
    using "2.prems" b by (auto split: if_splits)
  then show ?case
  proof cases
    case 1
    then obtain s where "decode_byte_string b = Inr (s, rest)" "v = ByteString s"
      using "2.prems" b by (auto split: sum.splits)
    with decode_byte_string_split [of b s rest] show ?thesis by (auto simp: consumes_def marked_def)
  next
    case 2
    then obtain s i where i: "get_slice_until_strip (\<lambda>x. x = 101) buf = Some (s, rest)" "parse_i64 s = Some i" "v = Integer i"
      using "2.prems" b by (auto split: option.splits simp: is_digit_def)
    from i(1) obtain c where "buf = s @ c # rest" by (rule until_strip_split)
    then have "consumes b rest" using b unfolding consumes_def by (intro exI [of _ "x # s @ [c]"]) simp
    with i parse_bounds(2) [OF i(2)] show ?thesis by (simp add: marked_def)
  next
    case 3
    then obtain vs where "decode_list n strict mk [] buf = Some (Inr (vs, rest))"
      "v = ListV vs (mk (take (length b - length rest) b))"
      using "2.prems" b by (auto split: option.splits sum.splits simp: is_digit_def)
    with "2.IH"(1) [OF b 3(1)] 3 b show ?thesis by (auto simp: marked_def intro: consumes_Cons)
  next
    case 4
    then obtain d where "decode_dict n strict mk [] buf = Some (Inr (d, rest))"
      "v = Dictionary d (mk (take (length b - length rest) b))"
      using "2.prems" b by (auto split: option.splits sum.splits simp: is_digit_def)
    with "2.IH"(2) [OF b 4(1)] 4 b show ?thesis by (auto simp: marked_def dict_ok_def intro: consumes_Cons)
  qed
next
  case (4 n strict mk acc b)
  obtain x buf where b: "b = x # buf" using "4.prems" by (cases b) auto
  show ?case
  proof (cases "x = 101")
    case True
    then show ?thesis using "4.prems" b by (auto intro: consumes_Cons)
  next
    case False
    then obtain v rest' where v: "decode_value n strict mk b = Some (Inr (v, rest'))"
      "decode_list n strict mk (acc @ [v]) rest' = Some (Inr (vs, rest))"
      using "4.prems" b by (auto split: option.splits sum.splits)
    note v1 = "4.IH"(1) [OF b False v(1)]
    have "(\<forall>v \<in> set vs. wf_value v) \<and> consumes rest' rest"
      using "4.IH"(2) [OF b False v(1) refl refl v(2)] v1 "4.prems"(2) by simp
    with v1 show ?thesis by (blast intro: consumes_trans)
  qed
next
  case (6 n strict mk acc b)
  obtain x buf where b: "b = x # buf" using "6.prems" by (cases b) auto
  show ?case
  proof (cases "x = 101")
    case True
    then show ?thesis using "6.prems" b by (auto intro: consumes_Cons)
  next
    case False
    then obtain key r1 v r2 where v: "decode_byte_string b = Inr (key, r1)" "decode_value n strict mk r1 = Some (Inr (v, r2))"
      "\<not> (acc \<noteq> [] \<and> strict \<and> \<not> fst (last acc) < key)"
      "decode_dict n strict mk (bt_insert key v acc) r2 = Some (Inr (d, rest))"
      using "6.prems" b by (auto split: option.splits sum.splits if_splits)
    note key = decode_byte_string_split [OF v(1), folded consumes_def]
    note v1 = "6.IH"(1) [OF b False v(1) refl v(2)]
    have "dict_ok d \<and> consumes r2 rest"
      using "6.IH"(2) [OF b False v(1) refl v(2) refl refl v(3,4)] dict_ok_insert [OF "6.prems"(2)] key v1 by blast
    with key v1 show ?thesis by (blast intro: consumes_trans)
  qed
qed simp_all

text \<open>Two steps of the bound for every byte are enough.\<close>

lemma decode_total:
  "2 * length b + 1 \<le> n \<Longrightarrow> decode_value n strict mk b \<noteq> None"
  "2 * length b + 2 \<le> n \<Longrightarrow> decode_list n strict mk acc b \<noteq> None"
  "2 * length b + 2 \<le> n \<Longrightarrow> decode_dict n strict mk dacc b \<noteq> None"
proof (induction n strict mk b and n strict mk acc b and n strict mk dacc b
    rule: decode_value_decode_list_decode_dict.induct)
  case (2 n strict mk b)
  show ?case
  proof (cases b)
    case (Cons x buf)
    have "decode_list n strict mk [] buf \<noteq> None" if "\<not> is_digit x" "x = 108"
      using "2.IH"(1) [OF Cons that(1) _ that(2)] "2.prems" Cons that by simp
    moreover have "decode_dict n strict mk [] buf \<noteq> None" if "\<not> is_digit x" "x = 100"
      using "2.IH"(2) [OF Cons that(1)] "2.prems" Cons that by simp
    ultimately show ?thesis using Cons by (auto simp: is_digit_def split: option.splits sum.splits)
  qed simp
next
  case (4 n strict mk acc b)
  show ?case
  proof (cases b)
    case (Cons x buf)
    show ?thesis
    proof (cases "x = 101")
      case False
      have "decode_value n strict mk b \<noteq> None" using "4.IH"(1) [OF Cons False] "4.prems" by simp
      moreover have "decode_list n strict mk (acc @ [v]) rest \<noteq> None"
        if "decode_value n strict mk b = Some (Inr (v, rest))" for v rest
        using "4.IH"(2) [OF Cons False that refl refl] consumes_length [of b rest] decode_wf(1) [OF that] "4.prems" by simp
      ultimately show ?thesis using Cons False by (auto split: option.splits sum.splits)
    qed (use Cons in simp)
  qed simp
next
  case (6 n strict mk acc b)
  show ?case
  proof (cases b)
    case (Cons x buf)
    show ?thesis
    proof (cases "x = 101 \<or> (\<exists>e. decode_byte_string b = Inl e)")
      case False
      then obtain key r1 where key: "decode_byte_string b = Inr (key, r1)" and x: "x \<noteq> 101"
        by (cases "decode_byte_string b") auto
      have r1: "length r1 < length b" using decode_byte_string_split [OF key] by auto
      then have "decode_value n strict mk r1 \<noteq> None" using "6.IH"(1) [OF Cons x key refl] "6.prems" by simp
      moreover have "decode_dict n strict mk (bt_insert key v acc) r2 \<noteq> None"
        if v: "decode_value n strict mk r1 = Some (Inr (v, r2))" and "\<not> (acc \<noteq> [] \<and> strict \<and> \<not> fst (last acc) < key)" for v r2
        using "6.IH"(2) [OF Cons x key refl v refl refl that(2)] consumes_length [of r1 r2] decode_wf(1) [OF v] r1 "6.prems" by simp
      ultimately show ?thesis using Cons x key
        by (cases "decode_value n strict mk r1") (auto split: sum.splits)
    next
      case True
      then show ?thesis using Cons by (elim disjE exE) simp_all
    qed
  qed simp
qed simp_all

text \<open>What strict decoding accepts, lenient decoding accepts with the same result.\<close>

lemma decode_lenient:
  "decode_value n strict mk b = Some (Inr r) \<Longrightarrow> decode_value n False mk b = Some (Inr r)"
  "decode_list n strict mk acc b = Some (Inr rs) \<Longrightarrow> decode_list n False mk acc b = Some (Inr rs)"
  "decode_dict n strict mk dacc b = Some (Inr rd) \<Longrightarrow> decode_dict n False mk dacc b = Some (Inr rd)"
proof (induction n strict mk b and n strict mk acc b and n strict mk dacc b
    arbitrary: r and rs and rd rule: decode_value_decode_list_decode_dict.induct)
  case (2 n strict mk b)
  obtain x buf where b: "b = x # buf" using "2.prems" by (cases b) auto
  consider "is_digit x \<or> x = 105" | "\<not> is_digit x" "x = 108" | "\<not> is_digit x" "x = 100"
    using "2.prems" b by (auto split: if_splits)
  then show ?case
  proof cases
    case 1
    then show ?thesis using "2.prems" b by (elim disjE) (simp_all add: is_digit_def)
  next
    case 2
    then obtain vs rest where "decode_list n strict mk [] buf = Some (Inr (vs, rest))"
      "r = (ListV vs (mk (take (length b - length rest) b)), rest)"
      using "2.prems" b by (auto split: option.splits sum.splits)
    with "2.IH"(1) [OF b 2(1) _ 2(2)] 2 b show ?thesis by simp
  next
    case 3
    then obtain d rest where "decode_dict n strict mk [] buf = Some (Inr (d, rest))"
      "r = (Dictionary d (mk (take (length b - length rest) b)), rest)"
      using "2.prems" b by (auto split: option.splits sum.splits)
    with "2.IH"(2) [OF b 3(1)] 3 b show ?thesis by simp
  qed
next
  case (4 n strict mk acc b)
  obtain x buf where b: "b = x # buf" using "4.prems" by (cases b) auto
  show ?case
  proof (cases "x = 101")
    case True
    then show ?thesis using "4.prems" b by simp
  next
    case False
    then obtain v rest where v: "decode_value n strict mk b = Some (Inr (v, rest))"
      "decode_list n strict mk (acc @ [v]) rest = Some (Inr rs)"
      using "4.prems" b by (auto split: option.splits sum.splits)
    with "4.IH"(1) [OF b False v(1)] "4.IH"(2) [OF b False v(1) refl refl v(2)] b False show ?thesis by simp
  qed
next
  case (6 n strict mk acc b)
  obtain x buf where b: "b = x # buf" using "6.prems" by (cases b) auto
  show ?case
  proof (cases "x = 101")
    case True
    then show ?thesis using "6.prems" b by simp
  next
    case False
    then obtain key r1 v r2 where v: "decode_byte_string b = Inr (key, r1)" "decode_value n strict mk r1 = Some (Inr (v, r2))"
      "\<not> (acc \<noteq> [] \<and> strict \<and> \<not> fst (last acc) < key)"
      "decode_dict n strict mk (bt_insert key v acc) r2 = Some (Inr rd)"
      using "6.prems" b by (auto split: option.splits sum.splits if_splits)
    have "decode_value n False mk r1 = Some (Inr (v, r2))" by (rule "6.IH"(1) [OF b False v(1) refl v(2)])
    moreover have "decode_dict n False mk (bt_insert key v acc) r2 = Some (Inr rd)"
      by (rule "6.IH"(2) [OF b False v(1) refl v(2) refl refl v(3,4)])
    ultimately show ?thesis using b False v(1) by simp
  qed
qed simp_all

section \<open>Conversions\<close>

lemma annotate_unit: "annotate (\<lambda>_. ()) v = v"
proof (induction v rule: be_encode.induct)
  case (4 d q)
  then have "map (\<lambda>(k, v). (k, annotate (\<lambda>_. ()) v)) d = d" by (intro map_idI) auto
  then show ?case by simp
qed (auto intro: map_idI)

lemma insert_all_sorted:
  assumes "sorted_wrt (<) (map fst (m @ d))"
  shows "foldl (\<lambda>m (k, v). bt_insert k v m) m d = m @ d"
  using assms
proof (induction d arbitrary: m)
  case (Cons e d)
  have "\<forall>x \<in> set m. fst x < fst e" using Cons.prems by (auto simp: sorted_wrt_append)
  then have "bt_insert (fst e) (snd e) m = m @ [e]" by (simp add: bt_insert_last)
  with Cons show ?case by (cases e) simp
qed simp

lemma to_owned_dict: "dict_ok d \<Longrightarrow> be_to_owned (Dictionary d q) = Dictionary (map (\<lambda>(k, v). (k, be_to_owned v)) d) ()"
proof -
  assume d: "dict_ok d"
  let ?d = "map (\<lambda>(k, v). (k, be_to_owned v)) d"
  have "map fst ?d = map fst d" by (simp add: comp_def case_prod_beta)
  with d have "sorted_wrt (<) (map fst ([] @ ?d))" unfolding dict_ok_def by (simp only: append_Nil)
  from insert_all_sorted [OF this] show ?thesis by simp
qed

lemma fst_entry [simp]: "fst \<circ> (\<lambda>(k, v). (k, f v)) = fst"
  by (simp add: fun_eq_iff case_prod_beta)

lemma wf_to_owned: "wf_value v \<Longrightarrow> wf_value (be_to_owned v)"
proof (induction v rule: be_encode.induct)
  case (4 d q)
  have "length k \<le> u64_max \<and> wf_value (be_to_owned v)" if "(k, v) \<in> set d" for k v
    using that 4 by fastforce
  then show ?case using "4.prems" to_owned_dict [of d q] by (auto simp: dict_ok_def simp del: be_to_owned.simps)
qed simp_all

lemma encode_to_owned: "wf_value v \<Longrightarrow> be_encode (be_to_owned v) = be_encode v"
proof (induction v rule: be_encode.induct)
  case (3 vs q)
  then have "concat (map (be_encode \<circ> be_to_owned) vs) = concat (map be_encode vs)"
    by (intro arg_cong [of _ _ concat] map_cong refl) simp
  then show ?case by simp
next
  case (4 d q)
  have "concat (map (entry \<circ> (\<lambda>(k, v). (k, be_to_owned v))) d) = concat (map entry d)"
    using 4 by (intro arg_cong [of _ _ concat] map_cong refl) fastforce
  then show ?case using 4 to_owned_dict [of d q] by (simp add: dict_ok_def del: be_to_owned.simps)
qed simp_all

lemma encode_annotate: "be_encode (annotate mk v) = be_encode v"
proof (induction v rule: be_encode.induct)
  case (3 vs q)
  then have "concat (map (be_encode \<circ> annotate mk) vs) = concat (map be_encode vs)"
    by (intro arg_cong [of _ _ concat] map_cong refl) simp
  then show ?case by simp
next
  case (4 d q)
  have "concat (map (entry \<circ> (\<lambda>(k, v). (k, annotate mk v))) d) = concat (map entry d)"
    using 4 by (intro arg_cong [of _ _ concat] map_cong refl) fastforce
  then show ?case by simp
qed simp_all

section \<open>The codec\<close>

text \<open>
  C8. Every well-formed value is read back from its encoding, in strict and in lenient mode, with the rest of
  the buffer untouched; a borrowed list or dictionary then carries exactly its own encoding as its raw
  bytes, and an owned value is unchanged.
\<close>

theorem bencode_roundtrip:
  assumes "wf_value v"
  shows "be_decode strict mk (be_encode v @ rest) = Some (Inr (annotate mk v, rest)) \<and>
    be_decode strict (\<lambda>_. ()) (be_encode (be_to_owned v) @ rest) = Some (Inr (be_to_owned v, rest))"
proof -
  have wf: "wf_value (be_to_owned v)" using assms by (rule wf_to_owned)
  show ?thesis
    using decode_value_encoded [OF assms, of "2 * length (be_encode v @ rest) + 1" strict mk rest]
      decode_value_encoded [OF wf, of "2 * length (be_encode (be_to_owned v) @ rest) + 1" strict "\<lambda>_. ()" rest]
    by (simp add: be_decode_def annotate_unit)
qed

theorem bencode_roundtrip_witness:
  "be_decode True (\<lambda>_. ()) (be_encode (Dictionary [([97], Integer 1), ([98], ListV [ByteString [7]] ())] ()) @ [9]) =
    Some (Inr (Dictionary [([97], Integer 1), ([98], ListV [ByteString [7]] ())] (), [9]))"
  using bencode_roundtrip [of "Dictionary [([97], Integer 1), ([98], ListV [ByteString [7]] ())] ()" True "\<lambda>_. ()" "[9]"]
  by (simp add: u64_max_def annotate_unit)

text \<open>
  C24. Decoding returns for every input, in both modes. When it succeeds it has consumed a non-empty prefix of
  the buffer, the value is well formed (keys sorted and distinct, integers and lengths in range), a list or
  dictionary is marked with exactly the bytes consumed, and encoding it again gives bytes that decode to the same value.
\<close>

theorem bencode_decode_total:
  "\<exists>r. be_decode strict mk b = Some r \<and>
    (case r of
       Inl _ \<Rightarrow> True
     | Inr (v, rest) \<Rightarrow> \<exists>used. used \<noteq> [] \<and> b = used @ rest \<and> wf_value v \<and> marked mk used v \<and>
         be_decode strict mk (be_encode v) = Some (Inr (annotate mk v, [])))"
proof -
  obtain r where r: "be_decode strict mk b = Some r"
    using decode_total(1) [of b "2 * length b + 1" strict mk] by (auto simp: be_decode_def)
  show ?thesis
  proof (cases r)
    case (Inr p)
    obtain v rest where p: "p = (v, rest)" by (cases p)
    have d: "wf_value v" "consumes b rest" "marked mk (take (length b - length rest) b) v"
      using decode_wf(1) [OF r [unfolded be_decode_def Inr p]] by blast+
    from d(2) obtain used where u: "used \<noteq> []" "b = used @ rest" by (auto simp: consumes_def)
    have "be_decode strict mk (be_encode v) = Some (Inr (annotate mk v, []))"
      using decode_value_encoded [OF d(1), of "2 * length (be_encode v) + 1" strict mk "[]"] by (simp add: be_decode_def)
    with r Inr p d u show ?thesis by auto
  qed (use r in auto)
qed

text \<open>
  Strict decoding is a restriction of lenient decoding: whatever it accepts, lenient decoding accepts with
  the same value and the same rest.
\<close>

theorem bencode_strict_lenient:
  assumes "be_decode True mk b = Some (Inr r)"
  shows "be_decode False mk b = Some (Inr r)"
  using assms unfolding be_decode_def by (rule decode_lenient(1))

theorem bencode_strict_lenient_witness:
  "be_decode False (\<lambda>_. ()) (be_encode (ListV [Integer 5] ()) @ []) = Some (Inr (ListV [Integer 5] (), []))"
proof (rule bencode_strict_lenient)
  show "be_decode True (\<lambda>_. ()) (be_encode (ListV [Integer 5] ()) @ []) = Some (Inr (ListV [Integer 5] (), []))"
    using decode_value_encoded [of "ListV [Integer 5] ()" "2 * length (be_encode (ListV [Integer 5] ()) @ []) + 1" True "\<lambda>_. ()" "[]"]
    by (simp add: be_decode_def del: be_encode.simps add: annotate_unit)
qed


section \<open>Domain types are read back\<close>

lemma try_collect_Inr: "\<forall>x \<in> set xs. f (h x) = Inr x \<Longrightarrow> try_collect (map (\<lambda>x. f (h x)) xs) = Inr xs"
  by (induction xs) simp_all

lemma to_strict_id: "to_strict v = v"
proof (induction v rule: be_encode.induct)
  case (4 d q)
  then have "map (\<lambda>(k, v). (k, to_strict v)) d = d" by (intro map_idI) auto
  then show ?case by simp
qed (auto intro: map_idI)

text \<open>
  The conversions are inverse to each other through the wire: bytes, valid strings, integers and vectors
  of convertible elements are read back from the decoded encoding of what they were converted to, and an
  entry inserted into a dictionary is the one that is removed again, leaving the other entries.
\<close>

theorem convert_roundtrip:
  assumes "\<forall>x \<in> set xs. to (annotate mk (from x)) = Inr x" and "sorted_wrt (<) (map fst m)"
  shows "to_vec (annotate mk (from_vec xs from)) to = Inr xs \<and>
    to_bytes (annotate mk (from_bytes s)) = Inr s \<and>
    to_str (annotate mk (from_str s)) = (if utf8_ok s then Inr s else Inl (InvalidUtf8String s)) \<and>
    to_int (annotate mk (Integer i)) = Inr i \<and>
    remove_int (insert_from m key (Some i) Integer) key = (Inr (Some i), AList.delete key m) \<and>
    fst (must_remove (insert_from m key None Integer) key) = (case map_of m key of None \<Rightarrow> Inl (MissingDictionaryKey key) | Some v \<Rightarrow> Inr v)"
proof -
  have "map to (map (annotate mk) (map from xs)) = map (\<lambda>x. to (annotate mk (from x))) xs" by simp
  then have vec: "to_vec (annotate mk (from_vec xs from)) to = Inr xs"
    using try_collect_Inr [of xs to "\<lambda>x. annotate mk (from x)"] assms(1)
    by (simp add: to_vec_def from_vec_def into_list_def del: map_map)
  have ins: "AList.delete key (bt_insert key v m) = AList.delete key m \<and> map_of (bt_insert key v m) key = Some v"
    if "sorted_wrt (<) (map fst m)" for v and m :: "(byte list \<times> own_value) list"
    using that by (induction m) auto
  show ?thesis using vec ins [OF assms(2)]
    by (auto simp: to_bytes_def from_bytes_def to_str_def from_str_def to_int_def into_byte_string_def as_integer_def
        remove_int_def insert_from_def bt_remove_def transpose_with_def must_remove_def split: option.splits)
qed

theorem convert_roundtrip_witness:
  "to_vec (annotate (\<lambda>raw. raw) (from_vec [[102], [111]] from_bytes)) to_bytes = Inr [[102], [111]]"
  using convert_roundtrip [of "[[102], [111]]" to_bytes "\<lambda>raw. raw" from_bytes "[]"]
  by (simp add: to_bytes_def from_bytes_def into_byte_string_def)

end
