(* ===== verification/Frames.thy ===== *)
theory Frames
  imports Buffer
begin

text \<open>
  Framed input and output (\<open>src/rust/g1/tokio/src/frame/decode.rs\<close> and \<open>encode.rs\<close>): a stream that reads
  chunks of bytes until its decoder finds a frame, and a sink that buffers encoded frames and writes
  them as far as the output accepts them. What the reader and the writer answer at each poll is a list
  of events; an exhausted list is a reader or writer that stays pending. The capacity of the buffer is not
  modelled: it bounds the size of a chunk, and chunks are arbitrary here.
\<close>

section \<open>Streams\<close>

type_synonym ('f, 'e) decoder = "byte list \<Rightarrow> (('e + 'f option) \<times> byte list) option"

datatype 'io read_event = RdPending | RdBytes "byte list" | RdErr 'io

datatype ('f, 'e) polled = Pending | Finished | Item 'f | Failed 'e

fun poll_next ::
  "('f, 'e) decoder \<Rightarrow> ('io \<Rightarrow> 'e) \<Rightarrow> 'e \<Rightarrow> byte list \<Rightarrow> 'io read_event list \<Rightarrow>
    (('f, 'e) polled \<times> byte list \<times> 'io read_event list) option" where
  "poll_next decode io_error partial_frame buffer events = do {
     (r, buffer) \<leftarrow> decode buffer;
     (case r of
        Inr (Some frame) \<Rightarrow> Some (Item frame, buffer, events)
      | Inl e \<Rightarrow> Some (Failed e, buffer, events)
      | Inr None \<Rightarrow>
          (case events of
             [] \<Rightarrow> Some (Pending, buffer, [])
           | RdPending # events \<Rightarrow> Some (Pending, buffer, events)
           | RdErr e # events \<Rightarrow> Some (Failed (io_error e), buffer, events)
           | RdBytes bs # events \<Rightarrow>
               if length bs = 0
               then Some (if buffer = [] then Finished else Failed partial_frame, buffer, events)
               else poll_next decode io_error partial_frame (buffer @ bs) events))
   }"

declare poll_next.simps [simp del]

text \<open>A client that polls until the stream ends, at most \<open>n\<close> times.\<close>

datatype 'e ending = Open | Closed | Broken 'e

fun collect ::
  "('f, 'e) decoder \<Rightarrow> ('io \<Rightarrow> 'e) \<Rightarrow> 'e \<Rightarrow> nat \<Rightarrow> byte list \<Rightarrow> 'io read_event list \<Rightarrow>
    ('f list \<times> 'e ending) option" where
  "collect decode io_error partial_frame 0 buffer events = Some ([], Open)"
| "collect decode io_error partial_frame (Suc n) buffer events = do {
     (r, buffer, events) \<leftarrow> poll_next decode io_error partial_frame buffer events;
     (case r of
        Pending \<Rightarrow> collect decode io_error partial_frame n buffer events
      | Finished \<Rightarrow> Some ([], Closed)
      | Failed e \<Rightarrow> Some ([], Broken e)
      | Item frame \<Rightarrow> do {
          (frames, e) \<leftarrow> collect decode io_error partial_frame n buffer events;
          Some (frame # frames, e)
        })
   }"

section \<open>Sinks\<close>

type_synonym 'f encoder = "'f \<Rightarrow> byte list \<Rightarrow> byte list option"

datatype 'io write_event = WrPending | WrOk nat | WrErr 'io

text \<open>What the output answers when it is flushed.\<close>

datatype 'io flush_event = FlPending | FlOk | FlErr 'io

record sink =
  sk_buffer :: "byte list"
  sk_output :: "byte list"

definition sk_new :: sink where
  "sk_new = \<lparr>sk_buffer = [], sk_output = []\<rparr>"

definition poll_flushed :: "'io flush_event \<Rightarrow> (unit, 'io) polled" where
  "poll_flushed flush = (case flush of FlPending \<Rightarrow> Pending | FlOk \<Rightarrow> Item () | FlErr e \<Rightarrow> Failed e)"

text \<open>A write of \<open>n\<close> bytes takes at most the bytes that are there.\<close>

fun poll_flush ::
  "'io \<Rightarrow> 'io write_event list \<Rightarrow> 'io flush_event \<Rightarrow> sink \<Rightarrow> (unit, 'io) polled \<times> sink" where
  "poll_flush partial_write [] flush s = (if sk_buffer s = [] then poll_flushed flush else Pending, s)"
| "poll_flush partial_write (e # events) flush s =
     (if sk_buffer s = [] then (poll_flushed flush, s)
      else case e of
        WrPending \<Rightarrow> (Pending, s)
      | WrErr e \<Rightarrow> (Failed e, s)
      | WrOk n \<Rightarrow>
          if n = 0 then (Failed partial_write, s)
          else poll_flush partial_write events flush
            (s\<lparr>sk_buffer := drop n (sk_buffer s), sk_output := sk_output s @ take n (sk_buffer s)\<rparr>))"

definition WRITE_BUF_SIZE :: nat where "WRITE_BUF_SIZE = 4096"

definition poll_ready ::
  "'io \<Rightarrow> 'io write_event list \<Rightarrow> 'io flush_event \<Rightarrow> sink \<Rightarrow> (unit, 'io) polled \<times> sink" where
  "poll_ready partial_write events flush s =
     (if length (sk_buffer s) < WRITE_BUF_SIZE then (Item (), s) else poll_flush partial_write events flush s)"

definition start_send :: "'f encoder \<Rightarrow> 'f \<Rightarrow> sink \<Rightarrow> sink option" where
  "start_send encode frame s = do { buffer \<leftarrow> encode frame (sk_buffer s); Some (s\<lparr>sk_buffer := buffer\<rparr>) }"

definition poll_close ::
  "'io \<Rightarrow> 'io write_event list \<Rightarrow> 'io flush_event \<Rightarrow> 'io flush_event \<Rightarrow> sink \<Rightarrow> (unit, 'io) polled \<times> sink" where
  "poll_close partial_write events flush shutdown s =
     (case poll_flush partial_write events flush s of
        (Item _, s) \<Rightarrow> (poll_flushed shutdown, s)
      | (r, s) \<Rightarrow> (r, s))"

text \<open>The polls of a sink, in any order.\<close>

datatype ('f, 'io) sink_op =
    SkReady "'io write_event list" "'io flush_event"
  | SkSend 'f
  | SkFlush "'io write_event list" "'io flush_event"
  | SkClose "'io write_event list" "'io flush_event" "'io flush_event"

fun sk_exec :: "'f encoder \<Rightarrow> 'io \<Rightarrow> ('f, 'io) sink_op \<Rightarrow> sink \<Rightarrow> sink option" where
  "sk_exec encode partial_write (SkReady events flush) s = Some (snd (poll_ready partial_write events flush s))"
| "sk_exec encode partial_write (SkSend frame) s = start_send encode frame s"
| "sk_exec encode partial_write (SkFlush events flush) s = Some (snd (poll_flush partial_write events flush s))"
| "sk_exec encode partial_write (SkClose events flush shutdown) s =
     Some (snd (poll_close partial_write events flush shutdown s))"

fun sk_sent :: "('f, 'io) sink_op list \<Rightarrow> 'f list" where
  "sk_sent [] = []"
| "sk_sent (SkSend f # ps) = f # sk_sent ps"
| "sk_sent (_ # ps) = sk_sent ps"

section \<open>What a codec owes its stream and its sink\<close>

fun ev_bytes :: "'io read_event list \<Rightarrow> byte list" where
  "ev_bytes [] = []"
| "ev_bytes (RdBytes bs # es) = bs @ ev_bytes es"
| "ev_bytes (_ # es) = ev_bytes es"

text \<open>A reader that delivers non-empty chunks and no errors.\<close>

definition ev_clean :: "'io read_event list \<Rightarrow> bool" where
  "ev_clean es \<longleftrightarrow> list_all (\<lambda>e. case e of RdPending \<Rightarrow> True | RdBytes bs \<Rightarrow> bs \<noteq> [] | RdErr _ \<Rightarrow> False) es"

lemma ev_clean_simps [simp]:
  "ev_clean []" "ev_clean (RdPending # es) = ev_clean es"
  "ev_clean (RdBytes bs # es) \<longleftrightarrow> bs \<noteq> [] \<and> ev_clean es" "\<not> ev_clean (RdErr e # es)"
  by (auto simp: ev_clean_def)

lemma ev_bytes_append [simp]: "ev_bytes (es @ fs) = ev_bytes es @ ev_bytes fs"
  by (induction es rule: ev_bytes.induct) auto

locale frame_codec =
  fixes decode :: "('f, 'e) decoder" and encode :: "'f encoder" and enc :: "'f \<Rightarrow> byte list" and ok :: "'f \<Rightarrow> bool"
  assumes encode_appends: "ok f \<Longrightarrow> encode f buffer = Some (buffer @ enc f)"
    and decode_frame: "ok f \<Longrightarrow> decode (enc f @ rest) = Some (Inr (Some f), rest)"
    and decode_partial: "ok f \<Longrightarrow> enc f = bs @ cs \<Longrightarrow> cs \<noteq> [] \<Longrightarrow> decode bs = Some (Inr None, bs)"
    and decode_empty: "decode [] = Some (Inr None, [])"
begin

lemma enc_nonempty: "ok f \<Longrightarrow> enc f \<noteq> []"
  using decode_frame [of f "[]"] decode_empty by auto

lemma poll_next_frame:
  assumes "buffer @ ev_bytes es = enc f @ tail" and "ok f" and "ev_clean es"
  shows "(\<exists>b' es'. poll_next decode io_error pf buffer (es @ fin) = Some (Item f, b', es' @ fin) \<and>
      b' @ ev_bytes es' = tail \<and> length es' \<le> length es \<and> ev_clean es') \<or>
    (\<exists>b' es'. poll_next decode io_error pf buffer (es @ fin) = Some (Pending, b', es' @ fin) \<and>
      b' @ ev_bytes es' = enc f @ tail \<and> length es' < length es \<and> ev_clean es')"
  using assms
proof (induction es arbitrary: buffer)
  case Nil
  then have "poll_next decode io_error pf buffer ([] @ fin) = Some (Item f, tail, [] @ fin)"
    by (subst poll_next.simps) (simp add: decode_frame)
  then show ?case using Nil by (intro disjI1 exI [of _ tail] exI [of _ "[]"]) simp
next
  case (Cons e es)
  consider (whole) rest where "buffer = enc f @ rest" "rest @ ev_bytes (e # es) = tail"
    | (partial) cs where "enc f = buffer @ cs" "cs \<noteq> []"
    using Cons.prems(1) by (auto simp: append_eq_append_conv2) (metis append_Nil2)
  then show ?case
  proof cases
    case whole
    then have "poll_next decode io_error pf buffer ((e # es) @ fin) = Some (Item f, rest, (e # es) @ fin)"
      by (subst poll_next.simps) (simp add: decode_frame [OF Cons.prems(2)])
    then show ?thesis using whole(2) Cons.prems(3) by (intro disjI1 exI [of _ rest] exI [of _ "e # es"]) simp
  next
    case partial
    note d = decode_partial [OF Cons.prems(2) partial]
    show ?thesis
    proof (cases e)
      case RdPending
      then have "poll_next decode io_error pf buffer ((e # es) @ fin) = Some (Pending, buffer, es @ fin)"
        by (subst poll_next.simps) (simp add: d)
      then show ?thesis using Cons.prems RdPending by (intro disjI2 exI [of _ buffer] exI [of _ es]) simp
    next
      case (RdBytes bs)
      then have eq: "poll_next decode io_error pf buffer ((e # es) @ fin) = poll_next decode io_error pf (buffer @ bs) (es @ fin)"
        using Cons.prems(3) by (subst poll_next.simps) (simp add: d)
      have "(buffer @ bs) @ ev_bytes es = enc f @ tail" "ev_clean es" using Cons.prems RdBytes by simp_all
      from Cons.IH [OF this(1) Cons.prems(2) this(2)] show ?thesis unfolding eq by fastforce
    next
      case (RdErr x)
      then show ?thesis using Cons.prems by simp
    qed
  qed
qed

lemma poll_next_end:
  assumes "ev_bytes es = []" and "ev_clean es"
  shows "poll_next decode io_error pf [] (es @ RdBytes [] # fin) =
    (case es of [] \<Rightarrow> Some (Finished, [], fin) | _ # es' \<Rightarrow> Some (Pending, [], es' @ RdBytes [] # fin))"
  using assms by (cases es rule: ev_bytes.cases) (subst poll_next.simps, simp add: decode_empty)+

lemma collect_frames:
  assumes "buffer @ ev_bytes es = concat (map enc fs)" and "\<forall>f \<in> set fs. ok f" and "ev_clean es"
    and "length fs + length es < n"
  shows "collect decode io_error pf n buffer (es @ RdBytes [] # fin) = Some (fs, Closed)"
  using assms
proof (induction n arbitrary: buffer es fs)
  case (Suc n)
  show ?case
  proof (cases fs)
    case Nil
    then have b: "buffer = []" "ev_bytes es = []" using Suc.prems(1) by simp_all
    show ?thesis
    proof (cases es)
      case (Cons e es')
      then have "ev_bytes es' = []" "ev_clean es'" using b(2) Suc.prems(3) by (cases e; simp)+
      with Suc.IH [of "[]" es' "[]"] Suc.prems(4) Cons Nil show ?thesis
        using poll_next_end [OF b(2) Suc.prems(3), of io_error pf fin] b(1) by simp
    qed (use Nil b poll_next_end [of "[]" io_error pf fin] in simp)
  next
    case (Cons f fs')
    then have ok: "ok f" "\<forall>f \<in> set fs'. ok f" using Suc.prems(2) by auto
    have "buffer @ ev_bytes es = enc f @ concat (map enc fs')" using Suc.prems(1) Cons by simp
    from poll_next_frame [OF this ok(1) Suc.prems(3), of io_error pf "RdBytes [] # fin"] show ?thesis
    proof (elim disjE exE conjE)
      fix b' es'
      assume p: "poll_next decode io_error pf buffer (es @ RdBytes [] # fin) = Some (Item f, b', es' @ RdBytes [] # fin)"
        "b' @ ev_bytes es' = concat (map enc fs')" "length es' \<le> length es" "ev_clean es'"
      from Suc.IH [OF p(2) ok(2) p(4)] p(1,3) Suc.prems(4) Cons show ?thesis by simp
    next
      fix b' es'
      assume p: "poll_next decode io_error pf buffer (es @ RdBytes [] # fin) = Some (Pending, b', es' @ RdBytes [] # fin)"
        "b' @ ev_bytes es' = enc f @ concat (map enc fs')" "length es' < length es" "ev_clean es'"
      from Suc.IH [of b' es' fs] p Suc.prems(2,4) Cons show ?thesis by simp
    qed
  qed
qed simp

text \<open>The bytes of the frames sent so far are the output followed by the buffer.\<close>

lemma poll_flush_keeps:
  "sk_output (snd (poll_flush pw es fl s)) @ sk_buffer (snd (poll_flush pw es fl s)) = sk_output s @ sk_buffer s"
  by (induction pw es fl s rule: poll_flush.induct) (auto split: write_event.splits)

lemma poll_close_keeps:
  "sk_output (snd (poll_close pw es fl sd s)) @ sk_buffer (snd (poll_close pw es fl sd s)) = sk_output s @ sk_buffer s"
  using poll_flush_keeps [of pw es fl s] by (auto simp: poll_close_def split: prod.splits polled.splits)

lemma sk_run:
  assumes "\<forall>f \<in> set (sk_sent ps). ok f"
  shows "\<exists>s'. run_ops (sk_exec encode pw) ps s = Some s' \<and>
    sk_output s' @ sk_buffer s' = sk_output s @ sk_buffer s @ concat (map enc (sk_sent ps))"
  using assms
proof (induction ps arbitrary: s)
  case (Cons p ps)
  have "\<exists>s1. sk_exec encode pw p s = Some s1 \<and>
      sk_output s1 @ sk_buffer s1 = sk_output s @ sk_buffer s @ concat (map enc (sk_sent [p]))"
    using Cons.prems
    by (cases p) (simp_all add: poll_flush_keeps poll_close_keeps poll_ready_def start_send_def encode_appends)
  then obtain s1 where s1: "sk_exec encode pw p s = Some s1"
    "sk_output s1 @ sk_buffer s1 = sk_output s @ sk_buffer s @ concat (map enc (sk_sent [p]))" by blast
  have "sk_sent (p # ps) = sk_sent [p] @ sk_sent ps" by (cases p) simp_all
  moreover from this Cons.prems have "\<forall>f \<in> set (sk_sent ps). ok f" by simp
  from Cons.IH [OF this, of s1] obtain s' where "run_ops (sk_exec encode pw) ps s1 = Some s'"
    "sk_output s' @ sk_buffer s' = sk_output s1 @ sk_buffer s1 @ concat (map enc (sk_sent ps))" by blast
  ultimately show ?case using s1 by simp
qed simp

lemma frames_arrive:
  assumes "\<forall>f \<in> set (sk_sent ps). ok f" and "run_ops (sk_exec encode pw) ps sk_new = Some s" and "sk_buffer s = []"
    and "ev_bytes es = sk_output s" and "ev_clean es" and "length (sk_sent ps) + length es < n"
  shows "collect decode io_error pf n [] (es @ RdBytes [] # fin) = Some (sk_sent ps, Closed)"
proof -
  have "sk_output s = concat (map enc (sk_sent ps))"
    using sk_run [OF assms(1), of pw sk_new] assms(2,3) by (simp add: sk_new_def)
  with collect_frames [of "[]" es "sk_sent ps"] assms show ?thesis by simp
qed

end

text \<open>A flush that is answered with enough writes empties the buffer.\<close>

lemma poll_flush_empties:
  assumes "\<forall>e \<in> set es. \<exists>n > 0. e = WrOk n" and "length (sk_buffer s) \<le> length es"
  shows "fst (poll_flush pw es fl s) = poll_flushed fl \<and> sk_buffer (snd (poll_flush pw es fl s)) = []"
  using assms
proof (induction pw es fl s rule: poll_flush.induct)
  case (2 pw e es fl s)
  show ?case
  proof (cases "sk_buffer s = []")
    case False
    obtain n where n: "e = WrOk n" "n > 0" using "2.prems" by auto
    have "length (drop n (sk_buffer s)) \<le> length es" using "2.prems"(2) n(2) by simp
    with "2.IH" [OF False n(1)] "2.prems"(1) n False show ?thesis by simp
  qed simp
qed simp

end
