(* ===== verification/Peer_Message.thy ===== *)
theory Peer_Message
  imports Frames Node_Id
begin

text \<open>
  The peer wire messages (\<open>src/rust/bt/proto/src/message.rs\<close>): the codec between messages and frames,
  and the checker that rejects messages a peer may not send. Integers are natural numbers within their
  Rust types; offsets and sizes of a block are 64 bits wide in memory and 32 bits wide on the wire.
\<close>

section \<open>Messages\<close>

datatype message =
    KeepAlive
  | Choke
  | Unchoke
  | Interested
  | NotInterested
  | Have piece_index
  | Bitfield "byte list"
  | Request block_range
  | Piece block_range "byte list"
  | Cancel block_range
  | Port nat
  | Suggest piece_index
  | HaveAll
  | HaveNone
  | Reject block_range
  | AllowedFast piece_index
  | Extended nat "byte list"

record features =
  dht :: bool
  fast :: bool
  extension :: bool

record checker =
  self_features :: features
  peer_features :: features
  ck_layout :: layout

datatype io_error = UnexpectedEof | TimedOut | OtherIo nat

datatype msg_error =
    Io io_error
  | SizeMismatch nat nat nat
  | SizeTooSmall nat nat nat
  | SizeLimitExceeded nat nat
  | UnknownId nat
  | SelfFeature string
  | PeerFeature string
  | PieceIndexError piece_index
  | BlockRangeError block_range
  | SpareBits "byte list"

definition CHOKE :: nat where "CHOKE = 0"
definition UNCHOKE :: nat where "UNCHOKE = 1"
definition INTERESTED :: nat where "INTERESTED = 2"
definition NOT_INTERESTED :: nat where "NOT_INTERESTED = 3"
definition HAVE :: nat where "HAVE = 4"
definition BITFIELD :: nat where "BITFIELD = 5"
definition REQUEST :: nat where "REQUEST = 6"
definition PIECE :: nat where "PIECE = 7"
definition CANCEL :: nat where "CANCEL = 8"
definition PORT :: nat where "PORT = 9"
definition SUGGEST :: nat where "SUGGEST = 13"
definition HAVE_ALL :: nat where "HAVE_ALL = 14"
definition HAVE_NONE :: nat where "HAVE_NONE = 15"
definition REJECT :: nat where "REJECT = 16"
definition ALLOWED_FAST :: nat where "ALLOWED_FAST = 17"
definition EXTENDED :: nat where "EXTENDED = 20"
definition SIZE_LIMIT :: nat where "SIZE_LIMIT = 65536"

lemmas id_defs = CHOKE_def UNCHOKE_def INTERESTED_def NOT_INTERESTED_def HAVE_def BITFIELD_def REQUEST_def
  PIECE_def CANCEL_def PORT_def SUGGEST_def HAVE_ALL_def HAVE_NONE_def REJECT_def ALLOWED_FAST_def EXTENDED_def

text \<open>
  \<open>Message::bitfield\<close> copies the storage of a bitfield. What the storage holds in the spare bits of its last
  byte is an argument.
\<close>

definition msg_bitfield :: "bitfield \<Rightarrow> bool list \<Rightarrow> message" where
  "msg_bitfield b spare = Bitfield (bits_bytes (b @ spare))"

section \<open>Decoding\<close>

type_synonym decoded = "((msg_error + message option) \<times> byte list) option"

definition ensure_size :: "nat \<Rightarrow> nat \<Rightarrow> nat \<Rightarrow> byte list \<Rightarrow> (message \<times> byte list) option \<Rightarrow> decoded" where
  "ensure_size mid sz expect buffer k =
     (if sz = expect then do { (m, buffer) \<leftarrow> k; Some (Inr (Some m), buffer) }
      else Some (Inl (SizeMismatch mid sz expect), buffer))"

definition ensure_size_ge :: "nat \<Rightarrow> nat \<Rightarrow> nat \<Rightarrow> byte list \<Rightarrow> (message \<times> byte list) option \<Rightarrow> decoded" where
  "ensure_size_ge mid sz expect buffer k =
     (if sz \<ge> expect then do { (m, buffer) \<leftarrow> k; Some (Inr (Some m), buffer) }
      else Some (Inl (SizeTooSmall mid sz expect), buffer))"

definition get_index :: "(piece_index \<Rightarrow> message) \<Rightarrow> byte list \<Rightarrow> (message \<times> byte list) option" where
  "get_index f buffer = do { (index, buffer) \<leftarrow> get_u32 buffer; Some (f index, buffer) }"

definition get_range :: "(block_range \<Rightarrow> message) \<Rightarrow> byte list \<Rightarrow> (message \<times> byte list) option" where
  "get_range f buffer = do {
     (index, buffer) \<leftarrow> get_u32 buffer;
     (offset, buffer) \<leftarrow> get_u32 buffer;
     (sz, buffer) \<leftarrow> get_u32 buffer;
     Some (f (BlockRange index offset sz), buffer)
   }"

definition decode_body :: "nat \<Rightarrow> nat \<Rightarrow> byte list \<Rightarrow> decoded" where
  "decode_body mid sz buffer =
     (if mid = CHOKE then ensure_size mid sz 1 buffer (Some (Choke, buffer))
      else if mid = UNCHOKE then ensure_size mid sz 1 buffer (Some (Unchoke, buffer))
      else if mid = INTERESTED then ensure_size mid sz 1 buffer (Some (Interested, buffer))
      else if mid = NOT_INTERESTED then ensure_size mid sz 1 buffer (Some (NotInterested, buffer))
      else if mid = HAVE then ensure_size mid sz 5 buffer (get_index Have buffer)
      else if mid = BITFIELD then ensure_size_ge mid sz 1 buffer (do {
        n \<leftarrow> rs_sub sz 1;
        (payload, buffer) \<leftarrow> copy_to_bytes n buffer;
        Some (Bitfield payload, buffer)
      })
      else if mid = REQUEST then ensure_size mid sz 13 buffer (get_range Request buffer)
      else if mid = PIECE then ensure_size_ge mid sz 9 buffer (do {
        (index, buffer) \<leftarrow> get_u32 buffer;
        (offset, buffer) \<leftarrow> get_u32 buffer;
        n \<leftarrow> rs_sub sz 9;
        (payload, buffer) \<leftarrow> copy_to_bytes n buffer;
        Some (Piece (BlockRange index offset n) payload, buffer)
      })
      else if mid = CANCEL then ensure_size mid sz 13 buffer (get_range Cancel buffer)
      else if mid = PORT then ensure_size mid sz 3 buffer (do {
        (port, buffer) \<leftarrow> get_u16 buffer;
        Some (Port port, buffer)
      })
      else if mid = SUGGEST then ensure_size mid sz 5 buffer (get_index Suggest buffer)
      else if mid = HAVE_ALL then ensure_size mid sz 1 buffer (Some (HaveAll, buffer))
      else if mid = HAVE_NONE then ensure_size mid sz 1 buffer (Some (HaveNone, buffer))
      else if mid = REJECT then ensure_size mid sz 13 buffer (get_range Reject buffer)
      else if mid = ALLOWED_FAST then ensure_size mid sz 5 buffer (get_index AllowedFast buffer)
      else if mid = EXTENDED then ensure_size_ge mid sz 2 buffer (do {
        (ext, buffer) \<leftarrow> get_u8 buffer;
        n \<leftarrow> rs_sub sz 2;
        (payload, buffer) \<leftarrow> copy_to_bytes n buffer;
        Some (Extended ext payload, buffer)
      })
      else Some (Inl (UnknownId mid), buffer))"

definition decode :: "byte list \<Rightarrow> decoded" where
  "decode buffer =
     (case peek_u32 buffer of
        Inl _ \<Rightarrow> Some (Inr None, buffer)
      | Inr sz \<Rightarrow>
          if \<not> sz \<le> SIZE_LIMIT then Some (Inl (SizeLimitExceeded sz SIZE_LIMIT), buffer)
          else if length buffer < 4 + sz then Some (Inr None, buffer)
          else do {
            (sz', buffer) \<leftarrow> get_u32 buffer;
            rs_assert (sz' = sz);
            if sz = 0 then Some (Inr (Some KeepAlive), buffer)
            else do {
              (mid, buffer) \<leftarrow> get_u8 buffer;
              decode_body mid sz buffer
            }
          })"

section \<open>Encoding\<close>

text \<open>\<open>to_u32\<close> panics on a value that does not fit; \<open>put_u32 (n + to_u32 (...))\<close> may then still overflow.\<close>

definition to_u32 :: "nat \<Rightarrow> nat option" where
  "to_u32 n = (if n \<le> u32_max then Some n else None)"

definition add_u32 :: "bool \<Rightarrow> nat \<Rightarrow> nat \<Rightarrow> nat option" where
  "add_u32 checks a b =
     (if a + b \<le> u32_max then Some (a + b) else if checks then None else Some ((a + b) mod 2 ^ 32))"

abbreviation put_u8 :: "nat \<Rightarrow> byte list" where "put_u8 \<equiv> be_bytes 1"
abbreviation put_u16 :: "nat \<Rightarrow> byte list" where "put_u16 \<equiv> be_bytes 2"
abbreviation put_u32 :: "nat \<Rightarrow> byte list" where "put_u32 \<equiv> be_bytes 4"

definition put_range :: "nat \<Rightarrow> block_range \<Rightarrow> byte list \<Rightarrow> byte list option" where
  "put_range mid r buffer =
     (case r of BlockRange index offset sz \<Rightarrow> do {
        offset \<leftarrow> to_u32 offset;
        sz \<leftarrow> to_u32 sz;
        Some (buffer @ put_u32 13 @ put_u8 mid @ put_u32 index @ put_u32 offset @ put_u32 sz)
      })"

fun encode :: "bool \<Rightarrow> message \<Rightarrow> byte list \<Rightarrow> byte list option" where
  "encode checks KeepAlive buffer = Some (buffer @ put_u32 0)"
| "encode checks Choke buffer = Some (buffer @ put_u32 1 @ put_u8 CHOKE)"
| "encode checks Unchoke buffer = Some (buffer @ put_u32 1 @ put_u8 UNCHOKE)"
| "encode checks Interested buffer = Some (buffer @ put_u32 1 @ put_u8 INTERESTED)"
| "encode checks NotInterested buffer = Some (buffer @ put_u32 1 @ put_u8 NOT_INTERESTED)"
| "encode checks (Have index) buffer = Some (buffer @ put_u32 5 @ put_u8 HAVE @ put_u32 index)"
| "encode checks (Bitfield payload) buffer = do {
     n \<leftarrow> to_u32 (length payload);
     n \<leftarrow> add_u32 checks 1 n;
     Some (buffer @ put_u32 n @ put_u8 BITFIELD @ payload)
   }"
| "encode checks (Request r) buffer = put_range REQUEST r buffer"
| "encode checks (Piece r payload) buffer = do {
     rs_assert (br_size r = length payload);
     n \<leftarrow> to_u32 (length payload);
     n \<leftarrow> add_u32 checks 9 n;
     offset \<leftarrow> to_u32 (br_offset r);
     Some (buffer @ put_u32 n @ put_u8 PIECE @ put_u32 (br_index r) @ put_u32 offset @ payload)
   }"
| "encode checks (Cancel r) buffer = put_range CANCEL r buffer"
| "encode checks (Port port) buffer = Some (buffer @ put_u32 3 @ put_u8 PORT @ put_u16 port)"
| "encode checks (Suggest index) buffer = Some (buffer @ put_u32 5 @ put_u8 SUGGEST @ put_u32 index)"
| "encode checks HaveAll buffer = Some (buffer @ put_u32 1 @ put_u8 HAVE_ALL)"
| "encode checks HaveNone buffer = Some (buffer @ put_u32 1 @ put_u8 HAVE_NONE)"
| "encode checks (Reject r) buffer = put_range REJECT r buffer"
| "encode checks (AllowedFast index) buffer = Some (buffer @ put_u32 5 @ put_u8 ALLOWED_FAST @ put_u32 index)"
| "encode checks (Extended ext payload) buffer = do {
     n \<leftarrow> to_u32 (length payload);
     n \<leftarrow> add_u32 checks 2 n;
     Some (buffer @ put_u32 n @ put_u8 EXTENDED @ put_u8 ext @ payload)
   }"

section \<open>Checking\<close>

definition ensure :: "bool \<Rightarrow> msg_error \<Rightarrow> (msg_error + unit) \<Rightarrow> (msg_error + unit)" where
  "ensure b e k = (if b then k else Inl e)"

definition check_features :: "checker \<Rightarrow> message \<Rightarrow> msg_error + unit" where
  "check_features c m =
     (case m of
        Port _ \<Rightarrow> ensure (dht (self_features c)) (SelfFeature ''dht'')
          (ensure (dht (peer_features c)) (PeerFeature ''dht'') (Inr ()))
      | m \<Rightarrow>
          if (case m of Suggest _ \<Rightarrow> True | HaveAll \<Rightarrow> True | HaveNone \<Rightarrow> True | Reject _ \<Rightarrow> True
                | AllowedFast _ \<Rightarrow> True | _ \<Rightarrow> False)
          then ensure (fast (self_features c)) (SelfFeature ''fast'')
            (ensure (fast (peer_features c)) (PeerFeature ''fast'') (Inr ()))
          else (case m of
             Extended _ _ \<Rightarrow> ensure (extension (self_features c)) (SelfFeature ''extension'')
               (ensure (extension (peer_features c)) (PeerFeature ''extension'') (Inr ()))
           | _ \<Rightarrow> Inr ()))"

definition check_payload :: "bool \<Rightarrow> checker \<Rightarrow> message \<Rightarrow> (msg_error + unit) option" where
  "check_payload checks c m =
     (let index = (\<lambda>i. Some (ensure (check_index (ck_layout c) i) (PieceIndexError i) (Inr ())));
          range = (\<lambda>r. do {
            b \<leftarrow> check_range checks (ck_layout c) r;
            Some (ensure b (BlockRangeError r) (Inr ()))
          }) in
      case m of
        Have i \<Rightarrow> index i
      | Suggest i \<Rightarrow> index i
      | AllowedFast i \<Rightarrow> index i
      | Request r \<Rightarrow> range r
      | Piece r _ \<Rightarrow> range r
      | Cancel r \<Rightarrow> range r
      | Reject r \<Rightarrow> range r
      | Bitfield bs \<Rightarrow>
          Some (ensure (check_spare_bits (view_bits bs) (lnum_pieces (ck_layout c))) (SpareBits bs) (Inr ()))
      | _ \<Rightarrow> Some (Inr ()))"

definition check :: "bool \<Rightarrow> checker \<Rightarrow> message \<Rightarrow> (msg_error + unit) option" where
  "check checks c m =
     (case check_features c m of Inl e \<Rightarrow> Some (Inl e) | Inr _ \<Rightarrow> check_payload checks c m)"

section \<open>Round trip\<close>

text \<open>
  The messages whose fields are in the range of their types and that fit the wire format and the size
  limit.
\<close>

definition range_ok :: "block_range \<Rightarrow> bool" where
  "range_ok r \<longleftrightarrow> br_index r \<le> u32_max \<and> br_offset r \<le> u32_max \<and> br_size r \<le> u32_max"

fun msg_ok :: "message \<Rightarrow> bool" where
  "msg_ok (Have i) \<longleftrightarrow> i \<le> u32_max"
| "msg_ok (Suggest i) \<longleftrightarrow> i \<le> u32_max"
| "msg_ok (AllowedFast i) \<longleftrightarrow> i \<le> u32_max"
| "msg_ok (Bitfield p) \<longleftrightarrow> 1 + length p \<le> SIZE_LIMIT"
| "msg_ok (Request r) \<longleftrightarrow> range_ok r"
| "msg_ok (Cancel r) \<longleftrightarrow> range_ok r"
| "msg_ok (Reject r) \<longleftrightarrow> range_ok r"
| "msg_ok (Piece r p) \<longleftrightarrow> range_ok r \<and> br_size r = length p \<and> 9 + length p \<le> SIZE_LIMIT"
| "msg_ok (Port p) \<longleftrightarrow> p < 2 ^ 16"
| "msg_ok (Extended ext p) \<longleftrightarrow> ext < 2 ^ 8 \<and> 2 + length p \<le> SIZE_LIMIT"
| "msg_ok _ \<longleftrightarrow> True"

fun msg_id :: "message \<Rightarrow> nat" where
  "msg_id KeepAlive = 0"
| "msg_id Choke = CHOKE"
| "msg_id Unchoke = UNCHOKE"
| "msg_id Interested = INTERESTED"
| "msg_id NotInterested = NOT_INTERESTED"
| "msg_id (Have _) = HAVE"
| "msg_id (Bitfield _) = BITFIELD"
| "msg_id (Request _) = REQUEST"
| "msg_id (Piece _ _) = PIECE"
| "msg_id (Cancel _) = CANCEL"
| "msg_id (Port _) = PORT"
| "msg_id (Suggest _) = SUGGEST"
| "msg_id HaveAll = HAVE_ALL"
| "msg_id HaveNone = HAVE_NONE"
| "msg_id (Reject _) = REJECT"
| "msg_id (AllowedFast _) = ALLOWED_FAST"
| "msg_id (Extended _ _) = EXTENDED"

definition range_bytes :: "block_range \<Rightarrow> byte list" where
  "range_bytes r = put_u32 (br_index r) @ put_u32 (br_offset r) @ put_u32 (br_size r)"

fun msg_payload :: "message \<Rightarrow> byte list" where
  "msg_payload (Have i) = put_u32 i"
| "msg_payload (Suggest i) = put_u32 i"
| "msg_payload (AllowedFast i) = put_u32 i"
| "msg_payload (Bitfield p) = p"
| "msg_payload (Request r) = range_bytes r"
| "msg_payload (Cancel r) = range_bytes r"
| "msg_payload (Reject r) = range_bytes r"
| "msg_payload (Piece r p) = put_u32 (br_index r) @ put_u32 (br_offset r) @ p"
| "msg_payload (Port p) = put_u16 p"
| "msg_payload (Extended ext p) = put_u8 ext @ p"
| "msg_payload _ = []"

text \<open>Every frame is a length, and unless it is empty an id and a payload.\<close>

definition msg_frame :: "message \<Rightarrow> byte list" where
  "msg_frame m =
     (if m = KeepAlive then put_u32 0
      else put_u32 (1 + length (msg_payload m)) @ put_u8 (msg_id m) @ msg_payload m)"

lemma length_range_bytes [simp]: "length (range_bytes r) = 12"
  by (simp add: range_bytes_def)

lemma fits_u32: "n \<le> SIZE_LIMIT \<Longrightarrow> n \<le> u32_max"
  by (simp add: SIZE_LIMIT_def u32_max_def)

lemma put_range_ok: "range_ok r \<Longrightarrow> put_range mid r buffer = Some (buffer @ put_u32 13 @ put_u8 mid @ range_bytes r)"
  by (cases r) (simp add: put_range_def range_ok_def range_bytes_def to_u32_def)

lemma encode_frame: "msg_ok m \<Longrightarrow> encode checks m buffer = Some (buffer @ msg_frame m)"
  by (cases m) (auto simp: msg_frame_def put_range_ok range_ok_def to_u32_def add_u32_def numeral_3_eq_3 dest: fits_u32)

lemma msg_payload_size: "msg_ok m \<Longrightarrow> 1 + length (msg_payload m) \<le> SIZE_LIMIT"
  by (cases m) (auto simp: SIZE_LIMIT_def)

lemma msg_id_less: "msg_id m < 256"
  by (cases m) (simp_all add: id_defs)

lemma get_index_ok: "i \<le> u32_max \<Longrightarrow> get_index f (put_u32 i @ rest) = Some (f i, rest)"
  by (simp add: get_index_def get_be_append u32_max_def)

lemma get_range_ok: "range_ok r \<Longrightarrow> get_range f (range_bytes r @ rest) = Some (f r, rest)"
  by (cases r) (simp add: get_range_def range_bytes_def range_ok_def get_be_append u32_max_def)

lemma decode_body_payload:
  assumes "msg_ok m" and "m \<noteq> KeepAlive"
  shows "decode_body (msg_id m) (1 + length (msg_payload m)) (msg_payload m @ rest) = Some (Inr (Some m), rest)"
proof (cases m)
  case (Piece r p)
  then have "br_index r < 256 ^ 4" "br_offset r < 256 ^ 4" "BlockRange (br_index r) (br_offset r) (length p) = r"
    using assms(1) by (cases r; simp add: range_ok_def u32_max_def)+
  then show ?thesis using Piece
    by (simp add: decode_body_def id_defs ensure_size_ge_def get_be_append rs_sub_def)
qed (use assms in \<open>simp_all add: decode_body_def id_defs ensure_size_def ensure_size_ge_def get_index_ok get_range_ok
      get_be_append rs_sub_def\<close>)

lemma decode_sized:
  assumes "n \<le> SIZE_LIMIT"
  shows "decode (put_u32 n @ rest) =
    (if length rest < n then Some (Inr None, put_u32 n @ rest)
     else if n = 0 then Some (Inr (Some KeepAlive), rest)
     else do { (mid, rest) \<leftarrow> get_u8 rest; decode_body mid n rest })"
proof -
  have "n < 2 ^ 32" "n < 256 ^ 4" using assms by (simp_all add: SIZE_LIMIT_def)
  with assms show ?thesis by (simp add: decode_def peek_u32_append get_be_append)
qed

lemma decode_msg_frame: "msg_ok m \<Longrightarrow> decode (msg_frame m @ rest) = Some (Inr (Some m), rest)"
  using msg_payload_size [of m] msg_id_less [of m] decode_body_payload [of m rest] decode_sized [of 0]
    decode_sized [of "1 + length (msg_payload m)" "put_u8 (msg_id m) @ msg_payload m @ rest"]
  by (auto simp: msg_frame_def get_be_append)

lemma decode_short: "length b < 4 \<Longrightarrow> decode b = Some (Inr None, b)"
  by (simp add: decode_def peek_u32_def peek_slice_def)

lemma decode_proper_prefix:
  assumes "n \<le> SIZE_LIMIT" and "put_u32 n @ body = bs @ cs" and "cs \<noteq> []" and "length body = n"
  shows "decode bs = Some (Inr None, bs)"
proof (cases "length bs < 4")
  case False
  with assms(2) have "put_u32 n = take 4 bs" "body = drop 4 bs @ cs"
    by (simp_all add: append_eq_append_conv_if)
  then obtain rest where r: "bs = put_u32 n @ rest" "body = rest @ cs" by (metis append_take_drop_id)
  with assms(3,4) have "length rest < n" by auto
  with r decode_sized [OF assms(1), of rest] show ?thesis by simp
qed (simp add: decode_short)

lemma decode_msg_partial:
  assumes "msg_ok m" and "msg_frame m = bs @ cs" and "cs \<noteq> []"
  shows "decode bs = Some (Inr None, bs)"
proof -
  let ?body = "if m = KeepAlive then [] else put_u8 (msg_id m) @ msg_payload m"
  have "msg_frame m = put_u32 (length ?body) @ ?body" by (simp add: msg_frame_def)
  moreover have "length ?body \<le> SIZE_LIMIT" using msg_payload_size [OF assms(1)] by simp
  ultimately show ?thesis using decode_proper_prefix [of "length ?body" ?body bs cs] assms(2,3) by metis
qed

interpretation pm: frame_codec decode "encode checks" msg_frame msg_ok for checks
  by unfold_locales (simp_all add: encode_frame decode_msg_frame decode_msg_partial decode_short)

section \<open>Decoding is total and strict\<close>

definition body_of :: "nat \<Rightarrow> nat \<Rightarrow> byte list \<Rightarrow> message \<Rightarrow> byte list \<Rightarrow> bool" where
  "body_of mid n b m rest \<longleftrightarrow> msg_ok m \<and> m \<noteq> KeepAlive \<and> msg_id m = mid \<and> b = msg_payload m @ rest \<and>
     n = 1 + length (msg_payload m)"

definition body_post :: "nat \<Rightarrow> nat \<Rightarrow> byte list \<Rightarrow> decoded \<Rightarrow> bool" where
  "body_post mid n b d \<longleftrightarrow>
     (\<exists>r rest. d = Some (r, rest) \<and>
       (case r of Inl _ \<Rightarrow> rest = b | Inr None \<Rightarrow> False | Inr (Some m) \<Rightarrow> body_of mid n b m rest))"

lemma ensure_size_post:
  "(n = e \<Longrightarrow> \<exists>m rest. k = Some (m, rest) \<and> body_of mid n b m rest) \<Longrightarrow> body_post mid n b (ensure_size mid n e b k)"
  "(e \<le> n \<Longrightarrow> \<exists>m rest. k = Some (m, rest) \<and> body_of mid n b m rest) \<Longrightarrow> body_post mid n b (ensure_size_ge mid n e b k)"
  by (auto simp: ensure_size_def ensure_size_ge_def body_post_def)

lemma get_be_obtain:
  assumes "k \<le> length b"
  obtains n rest where "get_be k b = Some (n, rest)" "b = be_bytes k n @ rest" "n < 256 ^ k"
  using get_be_total [OF assms] get_be_Some by blast

lemma copy_obtain:
  assumes "n \<le> length b"
  obtains p rest where "copy_to_bytes n b = Some (p, rest)" "b = p @ rest" "length p = n"
  using assms that [of "take n b" "drop n b"] by (simp add: copy_to_bytes_def)

lemma get_index_post:
  assumes "4 \<le> length b"
  shows "\<exists>i rest. get_index f b = Some (f i, rest) \<and> b = put_u32 i @ rest \<and> i \<le> u32_max"
proof -
  obtain i rest where "get_u32 b = Some (i, rest)" "b = put_u32 i @ rest" "i < 256 ^ 4" by (rule get_be_obtain [OF assms])
  then show ?thesis by (intro exI [of _ i] exI [of _ rest]) (simp add: get_index_def u32_max_def)
qed

lemma get_range_post:
  assumes "12 \<le> length b"
  shows "\<exists>r rest. get_range f b = Some (f r, rest) \<and> b = range_bytes r @ rest \<and> range_ok r"
proof -
  obtain i b1 where 1: "get_u32 b = Some (i, b1)" "b = put_u32 i @ b1" "i < 256 ^ 4"
    by (rule get_be_obtain [of 4 b]) (use assms in simp)
  obtain j b2 where 2: "get_u32 b1 = Some (j, b2)" "b1 = put_u32 j @ b2" "j < 256 ^ 4"
    by (rule get_be_obtain [of 4 b1]) (use assms 1 in simp)
  obtain k b3 where 3: "get_u32 b2 = Some (k, b3)" "b2 = put_u32 k @ b3" "k < 256 ^ 4"
    by (rule get_be_obtain [of 4 b2]) (use 1 2 assms in simp)
  from 1 2 3 show ?thesis
    by (intro exI [of _ "BlockRange i j k"] exI [of _ b3])
      (simp add: get_range_def range_bytes_def range_ok_def u32_max_def)
qed

lemma piece_post:
  assumes "9 \<le> n" and "n \<le> Suc (length b)" and "n \<le> SIZE_LIMIT"
  shows "\<exists>m rest. do { (index, b) \<leftarrow> get_u32 b; (offset, b) \<leftarrow> get_u32 b; k \<leftarrow> rs_sub n 9;
      (p, b) \<leftarrow> copy_to_bytes k b; Some (Piece (BlockRange index offset k) p, b) } = Some (m, rest) \<and>
    body_of PIECE n b m rest"
proof -
  obtain i b1 where 1: "get_u32 b = Some (i, b1)" "b = put_u32 i @ b1" "i < 256 ^ 4"
    by (rule get_be_obtain [of 4 b]) (use assms in simp)
  obtain j b2 where 2: "get_u32 b1 = Some (j, b2)" "b1 = put_u32 j @ b2" "j < 256 ^ 4"
    by (rule get_be_obtain [of 4 b1]) (use assms 1 in simp)
  obtain p b3 where 3: "copy_to_bytes (n - 9) b2 = Some (p, b3)" "b2 = p @ b3" "length p = n - 9"
    by (rule copy_obtain [of "n - 9" b2]) (use 1 2 assms in simp)
  from 1 2 3 assms show ?thesis
    by (intro exI [of _ "Piece (BlockRange i j (n - 9)) p"] exI [of _ b3])
      (auto simp: rs_sub_def body_of_def range_ok_def u32_max_def SIZE_LIMIT_def)
qed

lemma extended_post:
  assumes "2 \<le> n" and "n \<le> Suc (length b)" and "n \<le> SIZE_LIMIT"
  shows "\<exists>m rest. do { (ext, b) \<leftarrow> get_u8 b; k \<leftarrow> rs_sub n 2; (p, b) \<leftarrow> copy_to_bytes k b;
      Some (Extended ext p, b) } = Some (m, rest) \<and> body_of EXTENDED n b m rest"
proof -
  obtain x b1 where 1: "get_u8 b = Some (x, b1)" "b = put_u8 x @ b1" "x < 256 ^ 1"
    by (rule get_be_obtain [of 1 b]) (use assms in simp)
  obtain p b2 where 2: "copy_to_bytes (n - 2) b1 = Some (p, b2)" "b1 = p @ b2" "length p = n - 2"
    by (rule copy_obtain [of "n - 2" b1]) (use 1 assms in simp)
  from 1 2 assms show ?thesis
    by (intro exI [of _ "Extended x p"] exI [of _ b2]) (auto simp: rs_sub_def body_of_def)
qed

lemma bitfield_post:
  assumes "1 \<le> n" and "n \<le> Suc (length b)" and "n \<le> SIZE_LIMIT"
  shows "\<exists>m rest. do { k \<leftarrow> rs_sub n 1; (p, b) \<leftarrow> copy_to_bytes k b; Some (Bitfield p, b) } = Some (m, rest) \<and>
    body_of BITFIELD n b m rest"
proof -
  obtain p b1 where "copy_to_bytes (n - 1) b = Some (p, b1)" "b = p @ b1" "length p = n - 1"
    by (rule copy_obtain [of "n - 1" b]) (use assms in simp)
  with assms show ?thesis
    by (intro exI [of _ "Bitfield p"] exI [of _ b1]) (auto simp: rs_sub_def body_of_def)
qed

lemma port_post:
  assumes "2 \<le> length b"
  shows "\<exists>m rest. do { (port, b) \<leftarrow> get_u16 b; Some (Port port, b) } = Some (m, rest) \<and> body_of PORT 3 b m rest"
proof -
  obtain p rest where "get_u16 b = Some (p, rest)" "b = put_u16 p @ rest" "p < 256 ^ 2" by (rule get_be_obtain [OF assms])
  then show ?thesis by (intro exI [of _ "Port p"] exI [of _ rest]) (simp add: body_of_def)
qed

lemma index_post:
  assumes "4 \<le> length b" and "f \<in> {(HAVE, Have), (SUGGEST, Suggest), (ALLOWED_FAST, AllowedFast)}"
  shows "\<exists>m rest. get_index (snd f) b = Some (m, rest) \<and> body_of (fst f) 5 b m rest"
  using get_index_post [OF assms(1), of "snd f"] assms(2) by (auto simp: body_of_def)

lemma range_post:
  assumes "12 \<le> length b" and "f \<in> {(REQUEST, Request), (CANCEL, Cancel), (REJECT, Reject)}"
  shows "\<exists>m rest. get_range (snd f) b = Some (m, rest) \<and> body_of (fst f) 13 b m rest"
  using get_range_post [OF assms(1), of "snd f"] assms(2) by (auto simp: body_of_def)

lemma body_post_if:
  "(c \<Longrightarrow> body_post mid n b x) \<Longrightarrow> (\<not> c \<Longrightarrow> body_post mid n b y) \<Longrightarrow> body_post mid n b (if c then x else y)"
  by simp

lemma flag_post:
  assumes "msg_payload m = []" and "msg_ok m" and "m \<noteq> KeepAlive"
  shows "body_post (msg_id m) n b (ensure_size (msg_id m) n 1 b (Some (m, b)))"
  using assms by (intro ensure_size_post) (simp add: body_of_def)

lemmas flag_posts = flag_post [of Choke, simplified] flag_post [of Unchoke, simplified]
  flag_post [of Interested, simplified] flag_post [of NotInterested, simplified]
  flag_post [of HaveAll, simplified] flag_post [of HaveNone, simplified]

lemma decode_body_post:
  assumes "1 \<le> n" and "n \<le> Suc (length b)" and "n \<le> SIZE_LIMIT"
  shows "body_post mid n b (decode_body mid n b)"
proof -
  have index: "body_post (fst f) n b (ensure_size (fst f) n 5 b (get_index (snd f) b))"
    if "f \<in> {(HAVE, Have), (SUGGEST, Suggest), (ALLOWED_FAST, AllowedFast)}" for f
    by (rule ensure_size_post(1)) (use assms index_post [OF _ that, of b] in simp)
  have range: "body_post (fst f) n b (ensure_size (fst f) n 13 b (get_range (snd f) b))"
    if "f \<in> {(REQUEST, Request), (CANCEL, Cancel), (REJECT, Reject)}" for f
    by (rule ensure_size_post(1)) (use assms range_post [OF _ that, of b] in simp)
  note indexes = index [of "(HAVE, Have)", simplified] index [of "(SUGGEST, Suggest)", simplified]
    index [of "(ALLOWED_FAST, AllowedFast)", simplified]
  note ranges = range [of "(REQUEST, Request)", simplified] range [of "(CANCEL, Cancel)", simplified]
    range [of "(REJECT, Reject)", simplified]
  have port: "body_post PORT n b (ensure_size PORT n 3 b (do { (port, b) \<leftarrow> get_u16 b; Some (Port port, b) }))"
    by (rule ensure_size_post(1)) (use assms port_post [of b] in simp)
  note posts = flag_posts [simplified] indexes ranges port ensure_size_post(2) [OF piece_post [OF _ assms(2,3)]]
    ensure_size_post(2) [OF extended_post [OF _ assms(2,3)], unfolded One_nat_def]
    ensure_size_post(2) [OF bitfield_post [OF _ assms(2,3)], unfolded One_nat_def]
  show ?thesis unfolding decode_body_def
    by (intro body_post_if) (simp_all only: posts One_nat_def, simp add: body_post_def)
qed

text \<open>The three outcomes of \<open>decode\<close>, none of them a panic.\<close>

lemma decode_cases:
  obtains (incomplete) "decode b = Some (Inr None, b)"
      "length b < 4 \<or> be_val (take 4 b) \<le> SIZE_LIMIT \<and> length b < 4 + be_val (take 4 b)"
  | (oversize) "decode b = Some (Inl (SizeLimitExceeded (be_val (take 4 b)) SIZE_LIMIT), b)"
      "4 \<le> length b" "SIZE_LIMIT < be_val (take 4 b)"
  | (message) m rest where "decode b = Some (Inr (Some m), rest)" "msg_ok m" "b = msg_frame m @ rest"
  | (malformed) e where "decode b = Some (Inl e, drop 5 b)" "5 \<le> length b" "be_val (take 4 b) \<le> SIZE_LIMIT"
proof (cases "peek_u32 b")
  case (Inl e)
  then show thesis using incomplete decode_short peek_u32_Inl by blast
next
  case (Inr n)
  then obtain rest where b: "b = put_u32 n @ rest" "n < 2 ^ 32" by (rule peek_u32_Inr)
  then have n: "be_val (take 4 b) = n" by (simp add: be_val_bytes)
  show thesis
  proof (cases "n \<le> SIZE_LIMIT")
    case False
    then show thesis using oversize b n Inr by (simp add: decode_def)
  next
    case True
    note d = decode_sized [OF this, of rest, folded b(1)]
    consider "length rest < n" | "n = 0" | "n \<noteq> 0" "n \<le> length rest" by linarith
    then show thesis
    proof cases
      case 1
      then show thesis using incomplete d True b n by simp
    next
      case 2
      then show thesis using message [of KeepAlive rest] d b by (simp add: msg_frame_def)
    next
      case 3
      then obtain mid b' where m: "get_u8 rest = Some (mid, b')" "rest = put_u8 mid @ b'" "mid < 256 ^ 1"
        by (metis One_nat_def Suc_leI get_be_obtain le_trans neq0_conv)
      from 3 m have "body_post mid n b' (decode_body mid n b')" by (intro decode_body_post [OF _ _ True]) simp_all
      then obtain r rest' where r: "decode_body mid n b' = Some (r, rest')"
        "case r of Inl _ \<Rightarrow> rest' = b' | Inr None \<Rightarrow> False | Inr (Some m) \<Rightarrow> body_of mid n b' m rest'"
        by (auto simp: body_post_def)
      have d': "decode b = Some (r, rest')" using d 3 m r by simp
      show thesis
      proof (cases r)
        case (Inl e)
        then show thesis using malformed d' r(2) b m n True by simp
      next
        case (Inr x)
        then obtain msg where x: "r = Inr (Some msg)" "body_of mid n b' msg rest'" using r(2) by (cases x) auto
        then have "b = msg_frame msg @ rest'" using b m by (auto simp: body_of_def msg_frame_def)
        with x d' show thesis using message by (simp add: body_of_def)
      qed
    qed
  qed
qed

text \<open>
  Encoding and decoding are inverse to each other: a message within the limits of the wire format is
  encoded without a panic, its frame decodes to the same message and leaves the rest of the buffer.
\<close>

theorem message_roundtrip:
  assumes "msg_ok m"
  shows "\<exists>frame. encode checks m buffer = Some (buffer @ frame) \<and> decode (frame @ rest) = Some (Inr (Some m), rest)"
  using encode_frame [OF assms] decode_msg_frame [OF assms] by blast

theorem message_roundtrip_witness:
  "\<exists>frame. encode True (Piece (BlockRange 1 2 3) [4, 5, 6]) [9] = Some ([9] @ frame) \<and>
     decode (frame @ [7]) = Some (Inr (Some (Piece (BlockRange 1 2 3) [4, 5, 6])), [7])"
  by (rule message_roundtrip) (simp add: range_ok_def u32_max_def SIZE_LIMIT_def)

text \<open>
  C33. Decoding never panics, whatever the bytes are. A message it returns is within the limits of the wire
  format and the bytes it consumed are exactly the encoding of that message, so no two frames decode to
  the same message; it waits for more bytes without touching the buffer only if the announced frame is
  incomplete.
\<close>

theorem decode_strict:
  "\<exists>r rest. decode b = Some (r, rest) \<and>
    (case r of
       Inl _ \<Rightarrow> rest = b \<and> SIZE_LIMIT < be_val (take 4 b) \<or> rest = drop 5 b \<and> be_val (take 4 b) \<le> SIZE_LIMIT
     | Inr None \<Rightarrow> rest = b \<and> (length b < 4 \<or> length b < 4 + be_val (take 4 b))
     | Inr (Some m) \<Rightarrow> msg_ok m \<and> (\<exists>frame. encode checks m [] = Some frame \<and> b = frame @ rest))"
proof (cases b rule: decode_cases)
  case (message m rest)
  with encode_frame [OF message(2), of checks "[]"] show ?thesis by auto
qed auto

text \<open>
  C5. A connection delivers what was sent: any sequence of messages sent through the sink, flushed by any
  sequence of partial writes, arrives in order and unchanged at the stream on the other side, however the
  bytes are split into chunks and whenever the reader is pending, and the stream then ends cleanly.
\<close>

theorem messages_arrive:
  assumes "\<forall>m \<in> set (sk_sent ps). msg_ok m"
    and "run_ops (sk_exec (encode checks) partial_write) ps sk_new = Some s" and "sk_buffer s = []"
    and "ev_bytes events = sk_output s" and "ev_clean events" and "length (sk_sent ps) + length events < n"
  shows "collect decode Io partial_frame n [] (events @ RdBytes [] # later) = Some (sk_sent ps, Closed)"
  by (rule pm.frames_arrive [OF assms])

theorem messages_arrive_witness:
  "\<exists>s. run_ops (sk_exec (encode True) UnexpectedEof)
        [SkSend Choke, SkSend (Have 7), SkFlush (replicate 14 (WrOk 1)) FlOk] sk_new = Some s \<and> sk_buffer s = [] \<and>
      collect decode Io (Io UnexpectedEof) 6 [] ([RdPending, RdBytes (sk_output s)] @ [RdBytes []]) =
        Some ([Choke, Have 7], Closed)"
proof -
  let ?ps = "[SkSend Choke, SkSend (Have 7), SkFlush (replicate 14 (WrOk 1)) FlOk] :: (message, io_error) sink_op list"
  let ?b = "\<lparr>sk_buffer = msg_frame Choke @ msg_frame (Have 7), sk_output = []\<rparr>"
  have ok: "msg_ok Choke" "msg_ok (Have 7)" by (simp_all add: u32_max_def)
  define s where "s = snd (poll_flush UnexpectedEof (replicate 14 (WrOk 1)) FlOk ?b)"
  have run: "run_ops (sk_exec (encode True) UnexpectedEof) ?ps sk_new = Some s"
    unfolding s_def using encode_frame [OF ok(1)] encode_frame [OF ok(2)] by (simp add: start_send_def sk_new_def)
  have empty: "sk_buffer s = []"
    unfolding s_def by (intro poll_flush_empties [THEN conjunct2]) (auto simp: msg_frame_def)
  have out: "sk_output s = msg_frame Choke @ msg_frame (Have 7)"
    using pm.poll_flush_keeps [of UnexpectedEof "replicate 14 (WrOk 1)" FlOk ?b] empty unfolding s_def by simp
  then have "ev_clean [RdPending, RdBytes (sk_output s)]" using pm.enc_nonempty [OF ok(1)] by simp
  with messages_arrive [OF _ run empty, of "[RdPending, RdBytes (sk_output s)]" 6 "Io UnexpectedEof" "[]"] ok run empty
  show ?thesis by simp
qed

section \<open>What the checker guarantees\<close>

fun msg_indices :: "message \<Rightarrow> piece_index list" where
  "msg_indices (Have i) = [i]"
| "msg_indices (Suggest i) = [i]"
| "msg_indices (AllowedFast i) = [i]"
| "msg_indices _ = []"

fun msg_ranges :: "message \<Rightarrow> block_range list" where
  "msg_ranges (Request r) = [r]"
| "msg_ranges (Piece r _) = [r]"
| "msg_ranges (Cancel r) = [r]"
| "msg_ranges (Reject r) = [r]"
| "msg_ranges _ = []"

fun msg_feature :: "message \<Rightarrow> (features \<Rightarrow> bool)" where
  "msg_feature (Port _) = dht"
| "msg_feature (Suggest _) = fast"
| "msg_feature HaveAll = fast"
| "msg_feature HaveNone = fast"
| "msg_feature (Reject _) = fast"
| "msg_feature (AllowedFast _) = fast"
| "msg_feature (Extended _ _) = extension"
| "msg_feature _ = (\<lambda>_. True)"

text \<open>A non-empty block that lies within its piece, and so within the torrent.\<close>

definition block_inside :: "layout \<Rightarrow> block_range \<Rightarrow> bool" where
  "block_inside l r \<longleftrightarrow> br_index r < lnum_pieces l \<and> 0 < br_size r \<and>
     (case piece_size l (br_index r) of None \<Rightarrow> False | Some n \<Rightarrow> br_offset r + br_size r \<le> n)"

lemma check_features_iff:
  "check_features c m = Inr () \<longleftrightarrow> msg_feature m (self_features c) \<and> msg_feature m (peer_features c)"
  by (cases m) (simp_all add: check_features_def ensure_def)

lemma check_range_ok:
  assumes "layout_ok l" and "range_ok r"
  shows "check_range checks l r = Some (block_inside l r)"
proof -
  have "br_offset r + br_size r \<le> u64_max" using assms(2) by (auto simp: range_ok_def u32_max_def u64_max_def)
  then show ?thesis using piece_size_ok [OF assms(1), of "br_index r"]
    by (auto simp: check_range_def block_inside_def check_index_def)
qed

lemma msg_ranges_ok: "msg_ok m \<Longrightarrow> r \<in> set (msg_ranges m) \<Longrightarrow> range_ok r"
  by (cases m) auto

lemma check_payload_iff:
  assumes "layout_ok (ck_layout c)" and "msg_ok m"
  shows "\<exists>x. check_payload checks c m = Some x \<and>
    (x = Inr () \<longleftrightarrow> (\<forall>i \<in> set (msg_indices m). i < lnum_pieces (ck_layout c)) \<and>
       (\<forall>r \<in> set (msg_ranges m). block_inside (ck_layout c) r) \<and>
       (\<forall>bs. m = Bitfield bs \<longrightarrow> check_spare_bits (view_bits bs) (lnum_pieces (ck_layout c))))"
  using check_range_ok [OF assms(1) msg_ranges_ok [OF assms(2)], of _ checks]
  by (cases m) (simp_all add: check_payload_def ensure_def check_index_def)

text \<open>
  C34. Checking a decoded message never panics, and it accepts exactly the messages both sides have enabled
  whose piece indices exist, whose blocks are non-empty and lie within their pieces, and whose bitfield
  has one bit for every piece and no spare bit set. In particular reading an accepted bitfield succeeds.
\<close>

theorem check_exact:
  assumes "layout_ok (ck_layout c)" and "decode b = Some (Inr (Some m), rest)"
  shows "\<exists>x. check checks c m = Some x \<and>
    (x = Inr () \<longleftrightarrow> msg_feature m (self_features c) \<and> msg_feature m (peer_features c) \<and>
       (\<forall>i \<in> set (msg_indices m). i < lnum_pieces (ck_layout c)) \<and>
       (\<forall>r \<in> set (msg_ranges m). block_inside (ck_layout c) r) \<and>
       (\<forall>bs. m = Bitfield bs \<longrightarrow> (\<exists>f. try_from_bytes bs (lnum_pieces (ck_layout c)) = Some (Inr f))))"
proof -
  have m: "msg_ok m" using assms(2) by (cases b rule: decode_cases) auto
  have bits: "(\<exists>f. try_from_bytes bs n = Some (Inr f)) \<longleftrightarrow> check_spare_bits (view_bits bs) n" for bs n
    by (simp add: try_from_bytes_def Let_def)
  obtain x where x: "check_payload checks c m = Some x"
    "x = Inr () \<longleftrightarrow> (\<forall>i \<in> set (msg_indices m). i < lnum_pieces (ck_layout c)) \<and>
       (\<forall>r \<in> set (msg_ranges m). block_inside (ck_layout c) r) \<and>
       (\<forall>bs. m = Bitfield bs \<longrightarrow> check_spare_bits (view_bits bs) (lnum_pieces (ck_layout c)))"
    using check_payload_iff [OF assms(1) m] by blast
  show ?thesis
  proof (cases "check_features c m")
    case (Inl e)
    then have "\<not> (msg_feature m (self_features c) \<and> msg_feature m (peer_features c))"
      using check_features_iff [of c m] by simp
    then show ?thesis using Inl by (intro exI [of _ "Inl e"]) (auto simp: check_def)
  next
    case (Inr u)
    then have "msg_feature m (self_features c) \<and> msg_feature m (peer_features c)"
      using check_features_iff [of c m] by simp
    then show ?thesis using Inr x unfolding bits by (intro exI [of _ x]) (simp add: check_def)
  qed
qed

theorem check_exact_witness:
  "\<exists>x. check True \<lparr>self_features = \<lparr>dht = True, fast = True, extension = True\<rparr>,
        peer_features = \<lparr>dht = True, fast = False, extension = True\<rparr>,
        ck_layout = \<lparr>lsize = 25, lnum_pieces = 3, lpiece_size = 10, llast_piece_size = 5\<rparr>\<rparr>
      (Request (BlockRange 2 0 5)) = Some x \<and> x = Inr ()"
proof -
  let ?c = "\<lparr>self_features = \<lparr>dht = True, fast = True, extension = True\<rparr>,
        peer_features = \<lparr>dht = True, fast = False, extension = True\<rparr>,
        ck_layout = \<lparr>lsize = 25, lnum_pieces = 3, lpiece_size = 10, llast_piece_size = 5\<rparr>\<rparr>"
  have l: "layout_ok (ck_layout ?c)" by (simp add: layout_ok_def u32_max_def u64_max_def)
  have d: "decode (msg_frame (Request (BlockRange 2 0 5)) @ []) = Some (Inr (Some (Request (BlockRange 2 0 5))), [])"
    by (rule decode_msg_frame) (simp add: range_ok_def u32_max_def)
  from check_exact [OF l d, of True] show ?thesis
    by (auto simp: block_inside_def piece_size_def u32_max_def)
qed

text \<open>
  The bitfield message of our own pieces is accepted by a checker of the same torrent exactly when the
  spare bits of its storage are zero, and reading it then yields our pieces.
\<close>

theorem bitfield_message_roundtrip:
  assumes "8 dvd length (b @ spare)" and "lnum_pieces (ck_layout c) = length b"
  shows "check checks c (msg_bitfield b spare) =
      Some (if \<exists>x \<in> set spare. x then Inl (SpareBits (bits_bytes (b @ spare))) else Inr ()) \<and>
    try_from_bytes (bits_bytes (b @ spare)) (length b) = Some (if \<exists>x \<in> set spare. x then Inl spare else Inr b)"
proof (rule conjI)
  have v: "view_bits (bits_bytes (b @ spare)) = b @ spare" using view_bits_bytes [OF assms(1)] by simp
  show "check checks c (msg_bitfield b spare) =
      Some (if \<exists>x \<in> set spare. x then Inl (SpareBits (bits_bytes (b @ spare))) else Inr ())"
    using assms(2) v
    by (auto simp: check_def check_features_def check_payload_def msg_bitfield_def check_spare_bits_def ensure_def)
  show "try_from_bytes (bits_bytes (b @ spare)) (length b) = Some (if \<exists>x \<in> set spare. x then Inl spare else Inr b)"
    by (auto simp: try_from_bytes_def Let_def v check_spare_bits_def)
qed

theorem bitfield_message_roundtrip_witness:
  "try_from_bytes (bits_bytes ([True, False, True] @ replicate 5 False)) 3 = Some (Inr [True, False, True])"
  using bitfield_message_roundtrip [of "[True, False, True]" "replicate 5 False"
      "\<lparr>self_features = \<lparr>dht = True, fast = True, extension = True\<rparr>, peer_features = \<lparr>dht = True, fast = True, extension = True\<rparr>,
        ck_layout = \<lparr>lsize = 25, lnum_pieces = 3, lpiece_size = 10, llast_piece_size = 5\<rparr>\<rparr>"]
  by (simp add: numeral_3_eq_3)

end
