(* ===== verification/Handshake.thy ===== *)
theory Handshake
  imports Peer_Message
begin

text \<open>
  The handshake (\<open>src/rust/bt/proto/src/handshake.rs\<close>): its message, the two roles of a handshaker, and
  the pair of them talking over two byte channels. A connection is what the peer will have sent before it
  closes and what has been sent to it; an output that breaks is a bound on what it still accepts.
\<close>

section \<open>Handshake message\<close>

definition PROTOCOL_ID :: "byte list" where
  "PROTOCOL_ID = map (of_char :: char \<Rightarrow> byte) ''BitTorrent protocol''"

definition PROTOCOL_ID_SIZE :: nat where "PROTOCOL_ID_SIZE = length PROTOCOL_ID"

definition RESERVED_SIZE :: nat where "RESERVED_SIZE = 8"
definition RESERVED_AZUREUS_MESSAGING :: nat where "RESERVED_AZUREUS_MESSAGING = 0"
definition RESERVED_LOCATION_AWARE :: nat where "RESERVED_LOCATION_AWARE = 20"
definition RESERVED_EXTENSION :: nat where "RESERVED_EXTENSION = 43"
definition RESERVED_MERKLE_TREE :: nat where "RESERVED_MERKLE_TREE = 44"
definition RESERVED_EXTENSION_NEGOTIATION_0 :: nat where "RESERVED_EXTENSION_NEGOTIATION_0 = 46"
definition RESERVED_EXTENSION_NEGOTIATION_1 :: nat where "RESERVED_EXTENSION_NEGOTIATION_1 = 47"
definition RESERVED_HYBRID :: nat where "RESERVED_HYBRID = 59"
definition RESERVED_NAT_TRAVERSAL :: nat where "RESERVED_NAT_TRAVERSAL = 60"
definition RESERVED_FAST :: nat where "RESERVED_FAST = 61"
definition RESERVED_XBT_PEER_EXCHANGE :: nat where "RESERVED_XBT_PEER_EXCHANGE = 62"
definition RESERVED_DHT :: nat where "RESERVED_DHT = 63"

definition RESERVED_OFFSETS :: "nat list" where
  "RESERVED_OFFSETS =
     [RESERVED_AZUREUS_MESSAGING, RESERVED_LOCATION_AWARE, RESERVED_EXTENSION, RESERVED_MERKLE_TREE,
      RESERVED_EXTENSION_NEGOTIATION_0, RESERVED_EXTENSION_NEGOTIATION_1, RESERVED_HYBRID, RESERVED_NAT_TRAVERSAL,
      RESERVED_FAST, RESERVED_XBT_PEER_EXCHANGE, RESERVED_DHT]"

lemmas reserved_defs = RESERVED_SIZE_def RESERVED_AZUREUS_MESSAGING_def RESERVED_LOCATION_AWARE_def
  RESERVED_EXTENSION_def RESERVED_MERKLE_TREE_def RESERVED_EXTENSION_NEGOTIATION_0_def
  RESERVED_EXTENSION_NEGOTIATION_1_def RESERVED_HYBRID_def RESERVED_NAT_TRAVERSAL_def RESERVED_FAST_def
  RESERVED_XBT_PEER_EXCHANGE_def RESERVED_DHT_def

definition to_reserved :: "features \<Rightarrow> byte list" where
  "to_reserved f =
     (let bits = view_bits (replicate RESERVED_SIZE 0);
          bits = bits[RESERVED_DHT := dht f];
          bits = bits[RESERVED_FAST := fast f];
          bits = bits[RESERVED_EXTENSION := extension f] in
      bits_bytes bits)"

definition to_features :: "byte list \<Rightarrow> features" where
  "to_features reserved =
     (let bits = view_bits reserved in
      \<lparr>dht = bits ! RESERVED_DHT, fast = bits ! RESERVED_FAST, extension = bits ! RESERVED_EXTENSION\<rparr>)"

definition clear_known_bits :: "byte list \<Rightarrow> byte list" where
  "clear_known_bits reserved = bits_bytes (foldl (\<lambda>bits offset. bits[offset := False]) (view_bits reserved) RESERVED_OFFSETS)"

section \<open>Connections\<close>

type_synonym info_hash = "byte list"
type_synonym peer_id = "byte list"

definition INFO_HASH_SIZE :: nat where "INFO_HASH_SIZE = 20"
definition PEER_ID_SIZE :: nat where "PEER_ID_SIZE = 20"

datatype hs_error =
    HsIo io_error
  | NotMatched info_hash
  | ProtocolId "byte list"
  | ProtocolIdSize nat
  | Timeout

text \<open>\<open>cn_room\<close> bounds the bytes the output still accepts; \<open>cn_warned\<close> are the unknown reserved bits that were logged.\<close>

record conn =
  cn_in :: "byte list"
  cn_out :: "byte list"
  cn_room :: "nat option"
  cn_warned :: "byte list list"

type_synonym 'a io = "conn \<Rightarrow> (hs_error + 'a) \<times> conn"

definition io_return :: "'a \<Rightarrow> 'a io" where
  "io_return x c = (Inr x, c)"

definition io_fail :: "hs_error \<Rightarrow> 'a io" where
  "io_fail e c = (Inl e, c)"

definition io_bind :: "'a io \<Rightarrow> ('a \<Rightarrow> 'b io) \<Rightarrow> 'b io" where
  "io_bind m f c = (case m c of (Inl e, c) \<Rightarrow> (Inl e, c) | (Inr x, c) \<Rightarrow> f x c)"

abbreviation io_ensure :: "bool \<Rightarrow> hs_error \<Rightarrow> 'a io \<Rightarrow> 'a io" where
  "io_ensure b e k \<equiv> (if b then k else io_fail e)"

definition read_exact :: "nat \<Rightarrow> byte list io" where
  "read_exact n c =
     (if length (cn_in c) < n then (Inl (HsIo UnexpectedEof), c\<lparr>cn_in := []\<rparr>)
      else (Inr (take n (cn_in c)), c\<lparr>cn_in := drop n (cn_in c)\<rparr>))"

definition write_all :: "byte list \<Rightarrow> unit io" where
  "write_all bs c =
     (case cn_room c of
        None \<Rightarrow> (Inr (), c\<lparr>cn_out := cn_out c @ bs\<rparr>)
      | Some n \<Rightarrow>
          if n < length bs then (Inl (HsIo (OtherIo 0)), c\<lparr>cn_out := cn_out c @ take n bs, cn_room := Some 0\<rparr>)
          else (Inr (), c\<lparr>cn_out := cn_out c @ bs, cn_room := Some (n - length bs)\<rparr>))"

definition log_reserved :: "byte list \<Rightarrow> unit io" where
  "log_reserved reserved c = (Inr (), c\<lparr>cn_warned := cn_warned c @ [reserved]\<rparr>)"

section \<open>Roles\<close>

record handshaker =
  hs_self_id :: peer_id
  hs_self_features :: features
  hs_match :: "info_hash \<Rightarrow> bool"

definition recv_handshake :: "(info_hash \<Rightarrow> bool) \<Rightarrow> (info_hash \<times> features) io" where
  "recv_handshake match_info_hash =
     io_bind (read_exact 1) (\<lambda>n.
     let n = be_val n in
     io_ensure (n = PROTOCOL_ID_SIZE) (ProtocolIdSize n) (
     io_bind (read_exact PROTOCOL_ID_SIZE) (\<lambda>protocol_id.
     io_ensure (protocol_id = PROTOCOL_ID) (ProtocolId protocol_id) (
     io_bind (read_exact RESERVED_SIZE) (\<lambda>reserved.
     let peer_features = to_features reserved;
         reserved = clear_known_bits reserved in
     io_bind (if reserved \<noteq> replicate RESERVED_SIZE 0 then log_reserved reserved else io_return ()) (\<lambda>_.
     io_bind (read_exact INFO_HASH_SIZE) (\<lambda>info_hash.
     io_ensure (match_info_hash info_hash) (NotMatched info_hash) (
     io_return (info_hash, peer_features)))))))))"

definition send_handshake :: "info_hash \<Rightarrow> features \<Rightarrow> unit io" where
  "send_handshake info_hash feats =
     io_bind (write_all (be_bytes 1 PROTOCOL_ID_SIZE)) (\<lambda>_.
     io_bind (write_all PROTOCOL_ID) (\<lambda>_.
     io_bind (write_all (to_reserved feats)) (\<lambda>_.
     write_all info_hash)))"

definition recv_id :: "peer_id io" where
  "recv_id = read_exact PEER_ID_SIZE"

definition send_id :: "peer_id \<Rightarrow> unit io" where
  "send_id self_id = write_all self_id"

definition accept_forever :: "handshaker \<Rightarrow> (info_hash \<times> peer_id \<times> features) io" where
  "accept_forever h =
     io_bind (recv_handshake (hs_match h)) (\<lambda>(info_hash, peer_features).
     io_bind (send_handshake info_hash (hs_self_features h)) (\<lambda>_.
     io_bind (send_id (hs_self_id h)) (\<lambda>_.
     io_bind recv_id (\<lambda>peer_id.
     io_return (info_hash, peer_id, peer_features)))))"

definition connect_forever :: "handshaker \<Rightarrow> info_hash \<Rightarrow> (peer_id \<times> features) io" where
  "connect_forever h info_hash =
     io_bind (send_handshake info_hash (hs_self_features h)) (\<lambda>_.
     io_bind (recv_handshake (\<lambda>x. x = info_hash)) (\<lambda>(_, peer_features).
     io_bind (send_id (hs_self_id h)) (\<lambda>_.
     io_bind recv_id (\<lambda>peer_id.
     io_return (peer_id, peer_features)))))"

text \<open>The result under the timeout; whether it elapses first is an argument.\<close>

definition hs_accept :: "handshaker \<Rightarrow> bool \<Rightarrow> conn \<Rightarrow> hs_error + (info_hash \<times> peer_id \<times> features)" where
  "hs_accept h elapsed c = (if elapsed then Inl Timeout else fst (accept_forever h c))"

definition hs_connect :: "handshaker \<Rightarrow> bool \<Rightarrow> info_hash \<Rightarrow> conn \<Rightarrow> hs_error + (peer_id \<times> features)" where
  "hs_connect h elapsed info_hash c = (if elapsed then Inl Timeout else fst (connect_forever h info_hash c))"

section \<open>Feature bits\<close>

lemma zero_bits: "view_bits (replicate n 0) = replicate (8 * n) False"
  by (induction n) (simp_all add: view_bits_def byte_bits_def replicate_add map_replicate_const)

lemma view_reserved:
  "view_bits (to_reserved f) = (replicate 64 False)[63 := dht f, 61 := fast f, 43 := extension f]"
  and length_to_reserved [simp]: "length (to_reserved f) = 8"
  using view_bits_bytes [of "(replicate 64 False)[63 := dht f, 61 := fast f, 43 := extension f]"]
  by (simp_all add: to_reserved_def reserved_defs zero_bits)

lemma to_features_reserved [simp]: "to_features (to_reserved f) = f"
  by (cases f) (simp add: to_features_def view_reserved reserved_defs nth_list_update)

lemma length_PROTOCOL_ID [simp]: "length PROTOCOL_ID = 19"
  by (simp add: PROTOCOL_ID_def)

lemma PROTOCOL_ID_SIZE_eq [simp]: "PROTOCOL_ID_SIZE = 19"
  by (simp add: PROTOCOL_ID_SIZE_def)

section \<open>What is sent and what is received\<close>

definition hs_bytes :: "info_hash \<Rightarrow> features \<Rightarrow> byte list" where
  "hs_bytes info_hash f = be_bytes 1 PROTOCOL_ID_SIZE @ PROTOCOL_ID @ to_reserved f @ info_hash"

lemma length_hs_bytes: "length info_hash = 20 \<Longrightarrow> length (hs_bytes info_hash f) = 48"
  by (simp add: hs_bytes_def)

named_theorems io_simps \<open>rules that run the connection monad\<close>

lemma io_run [io_simps]:
  "io_bind m f c = (case m c of (Inl e, c) \<Rightarrow> (Inl e, c) | (Inr x, c) \<Rightarrow> f x c)"
  "io_return x c = (Inr x, c)"
  "io_fail e c = (Inl e, c)"
  by (simp_all add: io_bind_def io_return_def io_fail_def)

lemma read_exact_append [io_simps]:
  "cn_in c = bs @ rest \<Longrightarrow> length bs = n \<Longrightarrow> read_exact n c = (Inr bs, c\<lparr>cn_in := rest\<rparr>)"
  by (simp add: read_exact_def)

lemma write_all_open [io_simps]: "cn_room c = None \<Longrightarrow> write_all bs c = (Inr (), c\<lparr>cn_out := cn_out c @ bs\<rparr>)"
  by (simp add: write_all_def)

lemma send_handshake_open:
  "cn_room c = None \<Longrightarrow> send_handshake info_hash f c = (Inr (), c\<lparr>cn_out := cn_out c @ hs_bytes info_hash f\<rparr>)"
  by (simp add: send_handshake_def io_simps hs_bytes_def)

lemma send_id_open: "cn_room c = None \<Longrightarrow> send_id a c = (Inr (), c\<lparr>cn_out := cn_out c @ a\<rparr>)"
  by (simp add: send_id_def io_simps)

lemma recv_id_append:
  "cn_in c = a @ rest \<Longrightarrow> length a = 20 \<Longrightarrow> recv_id c = (Inr a, c\<lparr>cn_in := rest\<rparr>)"
  by (simp add: recv_id_def PEER_ID_SIZE_def io_simps)

text \<open>The known bits of our own handshake are all there are, so nothing is logged.\<close>

lemma clear_own_bits: "clear_known_bits (to_reserved f) = replicate 8 0"
proof -
  have len: "length (foldl (\<lambda>bits i. bits[i := False]) bs is) = length bs" for bs and "is" :: "nat list"
    by (induction "is" arbitrary: bs) simp_all
  have clear: "bs[i := False] ! j = (j \<noteq> i \<and> bs ! j)" if "j < length bs" for bs and i j :: nat
    using that by (cases "i = j") simp_all
  have zero: "foldl (\<lambda>bits i. bits[i := False]) bs is ! j = (j \<notin> set is \<and> bs ! j)" if "j < length bs"
    for bs j and "is" :: "nat list"
    using that by (induction "is" arbitrary: bs) (auto simp: clear)
  have "foldl (\<lambda>bits i. bits[i := False]) (view_bits (to_reserved f)) RESERVED_OFFSETS = replicate 64 False"
    by (rule nth_equalityI) (auto simp: len zero view_reserved nth_list_update RESERVED_OFFSETS_def reserved_defs)
  moreover have "bits_bytes (replicate 64 False) = replicate 8 0"
  proof (rule view_bits_inj)
    show "length (bits_bytes (replicate 64 False)) = length (replicate 8 (0 :: byte))"
      using view_bits_bytes [of "replicate 64 False"] by simp
    show "view_bits (bits_bytes (replicate 64 False)) = view_bits (replicate 8 0)"
      using view_bits_bytes [of "replicate 64 False"] by (simp add: zero_bits)
  qed
  ultimately show ?thesis by (simp add: clear_known_bits_def)
qed

lemma recv_own_handshake:
  assumes "cn_in c = hs_bytes info_hash f @ rest" and "length info_hash = 20"
  shows "recv_handshake match c =
    (if match info_hash then Inr (info_hash, f) else Inl (NotMatched info_hash), c\<lparr>cn_in := rest\<rparr>)"
proof -
  have in1: "cn_in c = be_bytes 1 19 @ PROTOCOL_ID @ to_reserved f @ info_hash @ rest"
    using assms(1) by (simp add: hs_bytes_def)
  have "be_val (be_bytes 1 19) = 19" by (simp add: be_val_bytes)
  then show ?thesis using assms(2)
    by (simp add: recv_handshake_def io_simps in1 clear_own_bits reserved_defs INFO_HASH_SIZE_def)
qed


section \<open>Two handshakers in conversation\<close>

text \<open>
  Where each role stands, with what it has received so far. A receive completes once its bytes are in the
  channel; the roles are interleaved in any order.
\<close>

datatype accept_pc =
    ARecvHs
  | ASendHs info_hash features
  | ASendId info_hash features
  | ARecvId info_hash features
  | ADone "hs_error + (info_hash \<times> peer_id \<times> features)"

datatype connect_pc =
    CSendHs
  | CRecvHs
  | CSendId features
  | CRecvId features
  | CDone "hs_error + (peer_id \<times> features)"

record net =
  n_accept :: accept_pc
  n_connect :: connect_pc
  c2a :: "byte list"
  a2c :: "byte list"

definition chan :: "byte list \<Rightarrow> conn" where
  "chan bs = \<lparr>cn_in = bs, cn_out = [], cn_room = None, cn_warned = []\<rparr>"

inductive hs_step :: "handshaker \<Rightarrow> handshaker \<Rightarrow> info_hash \<Rightarrow> net \<Rightarrow> net \<Rightarrow> bool"
  for ha hc info_hash where
  a_recv_hs: "\<lbrakk>n_accept n = ARecvHs; 48 \<le> length (c2a n); recv_handshake (hs_match ha) (chan (c2a n)) = (r, c)\<rbrakk> \<Longrightarrow>
     hs_step ha hc info_hash n
       (n\<lparr>c2a := cn_in c, n_accept := (case r of Inl e \<Rightarrow> ADone (Inl e) | Inr (h, f) \<Rightarrow> ASendHs h f)\<rparr>)"
| a_send_hs: "\<lbrakk>n_accept n = ASendHs h f; send_handshake h (hs_self_features ha) (chan []) = (Inr (), c)\<rbrakk> \<Longrightarrow>
     hs_step ha hc info_hash n (n\<lparr>a2c := a2c n @ cn_out c, n_accept := ASendId h f\<rparr>)"
| a_send_id: "\<lbrakk>n_accept n = ASendId h f; send_id (hs_self_id ha) (chan []) = (Inr (), c)\<rbrakk> \<Longrightarrow>
     hs_step ha hc info_hash n (n\<lparr>a2c := a2c n @ cn_out c, n_accept := ARecvId h f\<rparr>)"
| a_recv_id: "\<lbrakk>n_accept n = ARecvId h f; 20 \<le> length (c2a n); recv_id (chan (c2a n)) = (Inr a, c)\<rbrakk> \<Longrightarrow>
     hs_step ha hc info_hash n (n\<lparr>c2a := cn_in c, n_accept := ADone (Inr (h, a, f))\<rparr>)"
| c_send_hs: "\<lbrakk>n_connect n = CSendHs; send_handshake info_hash (hs_self_features hc) (chan []) = (Inr (), c)\<rbrakk> \<Longrightarrow>
     hs_step ha hc info_hash n (n\<lparr>c2a := c2a n @ cn_out c, n_connect := CRecvHs\<rparr>)"
| c_recv_hs: "\<lbrakk>n_connect n = CRecvHs; 48 \<le> length (a2c n); recv_handshake (\<lambda>x. x = info_hash) (chan (a2c n)) = (r, c)\<rbrakk> \<Longrightarrow>
     hs_step ha hc info_hash n
       (n\<lparr>a2c := cn_in c, n_connect := (case r of Inl e \<Rightarrow> CDone (Inl e) | Inr (_, f) \<Rightarrow> CSendId f)\<rparr>)"
| c_send_id: "\<lbrakk>n_connect n = CSendId f; send_id (hs_self_id hc) (chan []) = (Inr (), c)\<rbrakk> \<Longrightarrow>
     hs_step ha hc info_hash n (n\<lparr>c2a := c2a n @ cn_out c, n_connect := CRecvId f\<rparr>)"
| c_recv_id: "\<lbrakk>n_connect n = CRecvId f; 20 \<le> length (a2c n); recv_id (chan (a2c n)) = (Inr a, c)\<rbrakk> \<Longrightarrow>
     hs_step ha hc info_hash n (n\<lparr>a2c := cn_in c, n_connect := CDone (Inr (a, f))\<rparr>)"

definition net_new :: net where
  "net_new = \<lparr>n_accept = ARecvHs, n_connect = CSendHs, c2a = [], a2c = []\<rparr>"

definition hs_done :: "handshaker \<Rightarrow> handshaker \<Rightarrow> info_hash \<Rightarrow> net \<Rightarrow> bool" where
  "hs_done ha hc info_hash n \<longleftrightarrow>
     n_accept n = ADone (Inr (info_hash, hs_self_id hc, hs_self_features hc)) \<and>
     n_connect n = CDone (Inr (hs_self_id ha, hs_self_features ha)) \<and> c2a n = [] \<and> a2c n = []"

text \<open>The five stages of a role, what it has sent and read by then.\<close>

datatype stage = S0 | S1 | S2 | S3 | S4

primrec rank :: "stage \<Rightarrow> nat" where
  "rank S0 = 0" | "rank S1 = 1" | "rank S2 = 2" | "rank S3 = 3" | "rank S4 = 4"

primrec a_pc :: "handshaker \<Rightarrow> info_hash \<Rightarrow> stage \<Rightarrow> accept_pc" where
  "a_pc hc h S0 = ARecvHs"
| "a_pc hc h S1 = ASendHs h (hs_self_features hc)"
| "a_pc hc h S2 = ASendId h (hs_self_features hc)"
| "a_pc hc h S3 = ARecvId h (hs_self_features hc)"
| "a_pc hc h S4 = ADone (Inr (h, hs_self_id hc, hs_self_features hc))"

primrec c_pc :: "handshaker \<Rightarrow> stage \<Rightarrow> connect_pc" where
  "c_pc ha S0 = CSendHs"
| "c_pc ha S1 = CRecvHs"
| "c_pc ha S2 = CSendId (hs_self_features ha)"
| "c_pc ha S3 = CRecvId (hs_self_features ha)"
| "c_pc ha S4 = CDone (Inr (hs_self_id ha, hs_self_features ha))"

primrec a_sent :: "byte list \<Rightarrow> byte list \<Rightarrow> stage \<Rightarrow> byte list" where
  "a_sent hs a S0 = []" | "a_sent hs a S1 = []" | "a_sent hs a S2 = hs" | "a_sent hs a S3 = hs @ a" | "a_sent hs a S4 = hs @ a"

primrec a_read :: "byte list \<Rightarrow> byte list \<Rightarrow> stage \<Rightarrow> byte list" where
  "a_read hs a S0 = []" | "a_read hs a S1 = hs" | "a_read hs a S2 = hs" | "a_read hs a S3 = hs" | "a_read hs a S4 = hs @ a"

primrec c_sent :: "byte list \<Rightarrow> byte list \<Rightarrow> stage \<Rightarrow> byte list" where
  "c_sent hs a S0 = []" | "c_sent hs a S1 = hs" | "c_sent hs a S2 = hs" | "c_sent hs a S3 = hs @ a" | "c_sent hs a S4 = hs @ a"

primrec c_read :: "byte list \<Rightarrow> byte list \<Rightarrow> stage \<Rightarrow> byte list" where
  "c_read hs a S0 = []" | "c_read hs a S1 = []" | "c_read hs a S2 = hs" | "c_read hs a S3 = hs" | "c_read hs a S4 = hs @ a"

definition net_inv :: "handshaker \<Rightarrow> handshaker \<Rightarrow> info_hash \<Rightarrow> stage \<Rightarrow> stage \<Rightarrow> net \<Rightarrow> bool" where
  "net_inv ha hc h i j n \<longleftrightarrow> n_accept n = a_pc hc h i \<and> n_connect n = c_pc ha j \<and>
     c_sent (hs_bytes h (hs_self_features hc)) (hs_self_id hc) j =
       a_read (hs_bytes h (hs_self_features hc)) (hs_self_id hc) i @ c2a n \<and>
     a_sent (hs_bytes h (hs_self_features ha)) (hs_self_id ha) i =
       c_read (hs_bytes h (hs_self_features ha)) (hs_self_id ha) j @ a2c n"

definition pair_ok :: "handshaker \<Rightarrow> handshaker \<Rightarrow> info_hash \<Rightarrow> bool" where
  "pair_ok ha hc h \<longleftrightarrow> length h = 20 \<and> length (hs_self_id ha) = 20 \<and> length (hs_self_id hc) = 20 \<and> hs_match ha h"

lemma sent_prefix:
  assumes "length hs = 48" and "length a = 20"
  shows "48 \<le> length (a_sent hs a i) \<Longrightarrow> \<exists>t. a_sent hs a i = hs @ t"
    and "48 \<le> length (c_sent hs a i) \<Longrightarrow> \<exists>t. c_sent hs a i = hs @ t"
    and "a_sent hs a i = hs @ t \<Longrightarrow> 20 \<le> length t \<Longrightarrow> t = a"
    and "c_sent hs a i = hs @ t \<Longrightarrow> 20 \<le> length t \<Longrightarrow> t = a"
  using assms by (cases i; auto)+

lemma recv_chan:
  "length h = 20 \<Longrightarrow> recv_handshake match (chan (hs_bytes h f @ rest)) =
    (if match h then Inr (h, f) else Inl (NotMatched h), chan rest)"
  using recv_own_handshake [of "chan (hs_bytes h f @ rest)" h f rest] by (simp add: chan_def)

lemma recv_id_chan: "length a = 20 \<Longrightarrow> recv_id (chan a) = (Inr a, chan [])"
  using recv_id_append [of "chan a" a "[]"] by (simp add: chan_def)

lemma send_chan:
  "send_handshake h f (chan []) = (Inr (), (chan [])\<lparr>cn_out := hs_bytes h f\<rparr>)"
  "send_id a (chan []) = (Inr (), (chan [])\<lparr>cn_out := a\<rparr>)"
  using send_handshake_open [of "chan []" h f] send_id_open [of "chan []" a] by (simp_all add: chan_def)

lemma cn_in_chan [simp]: "cn_in (chan bs) = bs"
  by (simp add: chan_def)

lemma pc_stage:
  "a_pc hc h i = ARecvHs \<Longrightarrow> i = S0" "a_pc hc h i = ASendHs x f \<Longrightarrow> i = S1 \<and> x = h \<and> f = hs_self_features hc"
  "a_pc hc h i = ASendId x f \<Longrightarrow> i = S2 \<and> x = h \<and> f = hs_self_features hc"
  "a_pc hc h i = ARecvId x f \<Longrightarrow> i = S3 \<and> x = h \<and> f = hs_self_features hc"
  "c_pc ha i = CSendHs \<Longrightarrow> i = S0" "c_pc ha i = CRecvHs \<Longrightarrow> i = S1"
  "c_pc ha i = CSendId f \<Longrightarrow> i = S2 \<and> f = hs_self_features ha"
  "c_pc ha i = CRecvId f \<Longrightarrow> i = S3 \<and> f = hs_self_features ha"
  by (cases i; simp)+

lemma net_step:
  assumes ok: "pair_ok ha hc h" and inv: "net_inv ha hc h i j n" and st: "hs_step ha hc h n n'"
  shows "\<exists>i' j'. net_inv ha hc h i' j' n' \<and> rank i' + rank j' = Suc (rank i + rank j)"
proof -
  let ?hc = "hs_bytes h (hs_self_features hc)" and ?ha = "hs_bytes h (hs_self_features ha)"
  have len: "length ?hc = 48" "length ?ha = 48" "length (hs_self_id hc) = 20" "length (hs_self_id ha) = 20" "length h = 20"
    "hs_match ha h" using ok by (auto simp: pair_ok_def length_hs_bytes)
  have n: "n_accept n = a_pc hc h i" "n_connect n = c_pc ha j"
    "c_sent ?hc (hs_self_id hc) j = a_read ?hc (hs_self_id hc) i @ c2a n"
    "a_sent ?ha (hs_self_id ha) i = c_read ?ha (hs_self_id ha) j @ a2c n"
    using inv by (auto simp: net_inv_def)
  from st show ?thesis
  proof cases
    case (a_recv_hs r c)
    then have i: "i = S0" using n(1) pc_stage(1) by simp
    obtain t where t: "c2a n = ?hc @ t" using sent_prefix(2) [OF len(1,3), of j] n(3) i a_recv_hs(3) by auto
    with n i a_recv_hs recv_chan [OF len(5)] len(6) show ?thesis
      by (intro exI [of _ S1] exI [of _ j]) (auto simp: net_inv_def)
  next
    case (a_send_hs x f c)
    then have i: "i = S1" "x = h" "f = hs_self_features hc" using n(1) pc_stage(2) by metis+
    with n a_send_hs show ?thesis by (intro exI [of _ S2] exI [of _ j]) (auto simp: net_inv_def send_chan)
  next
    case (a_send_id x f c)
    then have i: "i = S2" "x = h" "f = hs_self_features hc" using n(1) pc_stage(3) by metis+
    with n a_send_id show ?thesis by (intro exI [of _ S3] exI [of _ j]) (auto simp: net_inv_def send_chan)
  next
    case (a_recv_id x f a c)
    then have i: "i = S3" "x = h" "f = hs_self_features hc" using n(1) pc_stage(4) by metis+
    then have "c2a n = hs_self_id hc" using sent_prefix(4) [OF len(1,3), of j "c2a n"] n(3) a_recv_id(3) by simp
    with n i a_recv_id recv_id_chan [OF len(3)] show ?thesis
      by (intro exI [of _ S4] exI [of _ j]) (auto simp: net_inv_def)
  next
    case (c_send_hs c)
    then have j: "j = S0" using n(2) pc_stage(5) by simp
    with n c_send_hs show ?thesis
      by (intro exI [of _ i] exI [of _ S1]) (cases i; auto simp: net_inv_def send_chan)
  next
    case (c_recv_hs r c)
    then have j: "j = S1" using n(2) pc_stage(6) by simp
    obtain t where t: "a2c n = ?ha @ t" using sent_prefix(1) [OF len(2,4), of i] n(4) j c_recv_hs(3) by auto
    with n j c_recv_hs recv_chan [OF len(5), of "\<lambda>x. x = h"] show ?thesis
      by (intro exI [of _ i] exI [of _ S2]) (auto simp: net_inv_def)
  next
    case (c_send_id f c)
    then have j: "j = S2" "f = hs_self_features ha" using n(2) pc_stage(7) by metis+
    with n c_send_id show ?thesis
      by (intro exI [of _ i] exI [of _ S3]) (cases i; auto simp: net_inv_def send_chan)
  next
    case (c_recv_id f a c)
    then have j: "j = S3" "f = hs_self_features ha" using n(2) pc_stage(8) by metis+
    then have "a2c n = hs_self_id ha" using sent_prefix(3) [OF len(2,4), of i "a2c n"] n(4) c_recv_id(3) by simp
    with n j c_recv_id recv_id_chan [OF len(4)] show ?thesis
      by (intro exI [of _ i] exI [of _ S4]) (auto simp: net_inv_def)
  qed
qed

lemma a_recv_enabled:
  assumes ok: "pair_ok ha hc h" and inv: "net_inv ha hc h i j n" and "i = S0 \<and> j \<noteq> S0 \<or> i = S3 \<and> (j = S3 \<or> j = S4)"
  shows "\<exists>n'. hs_step ha hc h n n'"
proof -
  have len: "length h = 20" "length (hs_self_id hc) = 20" using ok by (auto simp: pair_ok_def)
  from assms(3) show ?thesis
  proof
    assume s: "i = S0 \<and> j \<noteq> S0"
    then have "48 \<le> length (c2a n)" "n_accept n = ARecvHs"
      using inv length_hs_bytes [OF len(1)] by (cases j; auto simp: net_inv_def dest: sym)+
    then show ?thesis by (metis hs_step.a_recv_hs surj_pair)
  next
    assume s: "i = S3 \<and> (j = S3 \<or> j = S4)"
    then have "c2a n = hs_self_id hc" "n_accept n = ARecvId h (hs_self_features hc)"
      using inv by (auto simp: net_inv_def)
    then show ?thesis using recv_id_chan [OF len(2)] len(2) by (metis hs_step.a_recv_id order_refl)
  qed
qed

lemma c_recv_enabled:
  assumes ok: "pair_ok ha hc h" and inv: "net_inv ha hc h i j n"
    and "j = S1 \<and> (i = S2 \<or> i = S3 \<or> i = S4) \<or> j = S3 \<and> (i = S3 \<or> i = S4)"
  shows "\<exists>n'. hs_step ha hc h n n'"
proof -
  have len: "length h = 20" "length (hs_self_id ha) = 20" using ok by (auto simp: pair_ok_def)
  from assms(3) show ?thesis
  proof
    assume s: "j = S1 \<and> (i = S2 \<or> i = S3 \<or> i = S4)"
    then have "48 \<le> length (a2c n)" "n_connect n = CRecvHs"
      using inv length_hs_bytes [OF len(1)] by (auto simp: net_inv_def dest: sym)
    then show ?thesis by (metis hs_step.c_recv_hs surj_pair)
  next
    assume s: "j = S3 \<and> (i = S3 \<or> i = S4)"
    then have "a2c n = hs_self_id ha" "n_connect n = CRecvId (hs_self_features ha)"
      using inv by (auto simp: net_inv_def)
    then show ?thesis using recv_id_chan [OF len(2)] len(2) by (metis hs_step.c_recv_id order_refl)
  qed
qed

lemma net_progress:
  assumes ok: "pair_ok ha hc h" and inv: "net_inv ha hc h i j n" and "rank i + rank j < 8"
  shows "\<exists>n'. hs_step ha hc h n n'"
proof -
  have sends: "\<exists>n'. hs_step ha hc h n n'" if "i = S1 \<or> i = S2 \<or> j = S0 \<or> j = S2"
  proof -
    have n: "n_accept n = a_pc hc h i" "n_connect n = c_pc ha j" using inv by (auto simp: net_inv_def)
    from that show ?thesis
    proof (elim disjE)
      assume "i = S1"
      with n(1) show ?thesis using hs_step.a_send_hs [OF _ send_chan(1)] by (metis a_pc.simps(2))
    next
      assume "i = S2"
      with n(1) show ?thesis using hs_step.a_send_id [OF _ send_chan(2)] by (metis a_pc.simps(3))
    next
      assume "j = S0"
      with n(2) show ?thesis using hs_step.c_send_hs [OF _ send_chan(1)] by (metis c_pc.simps(1))
    next
      assume "j = S2"
      with n(2) show ?thesis using hs_step.c_send_id [OF _ send_chan(2)] by (metis c_pc.simps(3))
    qed
  qed
  show ?thesis
    using sends a_recv_enabled [OF ok inv] c_recv_enabled [OF ok inv] assms(3) by (cases i; cases j) simp_all
qed

text \<open>
  C13. Two handshakers that agree on the torrent always finish: in every interleaving exactly eight steps are
  taken, before the last one some step is always possible, and after it the acceptor has the hash, the id
  and the features of the connector, the connector those of the acceptor, and both channels are empty.
\<close>

theorem handshake_completes:
  assumes "pair_ok ha hc h" and "(hs_step ha hc h ^^ k) net_new n"
  shows "k \<le> 8 \<and> (k < 8 \<longrightarrow> (\<exists>n'. hs_step ha hc h n n')) \<and> (k = 8 \<longrightarrow> hs_done ha hc h n)"
proof -
  have "\<exists>i j. net_inv ha hc h i j n \<and> rank i + rank j = k" using assms(2)
  proof (induction k arbitrary: n)
    case 0
    then show ?case by (intro exI [of _ S0]) (auto simp: net_inv_def net_new_def)
  next
    case (Suc k)
    then obtain m where m: "(hs_step ha hc h ^^ k) net_new m" "hs_step ha hc h m n" by auto
    from Suc.IH [OF m(1)] obtain i j where i: "net_inv ha hc h i j m" "rank i + rank j = k" by blast
    from net_step [OF assms(1) i(1) m(2)] i(2) show ?case by auto
  qed
  then obtain i j where ij: "net_inv ha hc h i j n" "rank i + rank j = k" by blast
  have "rank i \<le> 4" "rank j \<le> 4" by (cases i; simp) (cases j; simp)
  moreover have "hs_done ha hc h n" if "k = 8"
    using that ij by (cases i; cases j) (auto simp: net_inv_def hs_done_def)
  ultimately show ?thesis using ij net_progress [OF assms(1) ij(1)] by auto
qed

theorem handshake_completes_witness:
  "let ha = \<lparr>hs_self_id = replicate 20 1, hs_self_features = \<lparr>dht = True, fast = False, extension = True\<rparr>, hs_match = (\<lambda>_. True)\<rparr>;
       hc = \<lparr>hs_self_id = replicate 20 2, hs_self_features = \<lparr>dht = False, fast = True, extension = True\<rparr>, hs_match = (\<lambda>_. False)\<rparr>
   in \<exists>n'. hs_step ha hc (replicate 20 3) net_new n'"
  using handshake_completes [of
    "\<lparr>hs_self_id = replicate 20 1, hs_self_features = \<lparr>dht = True, fast = False, extension = True\<rparr>, hs_match = (\<lambda>_. True)\<rparr>"
    "\<lparr>hs_self_id = replicate 20 2, hs_self_features = \<lparr>dht = False, fast = True, extension = True\<rparr>, hs_match = (\<lambda>_. False)\<rparr>"
    "replicate 20 3" 0 net_new]
  by (simp add: pair_ok_def)

section \<open>Whole runs\<close>

text \<open>
  What the two roles compute on a whole connection: fed with what the other role sends, each returns the
  other's id and features and sends its own handshake and id; whatever follows the handshake in the input is
  left for the messages.
\<close>

theorem handshake_runs:
  assumes "pair_ok ha hc h"
  shows "accept_forever ha ((chan (hs_bytes h (hs_self_features hc) @ hs_self_id hc @ rest))) =
      (Inr (h, hs_self_id hc, hs_self_features hc),
       (chan rest)\<lparr>cn_out := hs_bytes h (hs_self_features ha) @ hs_self_id ha\<rparr>) \<and>
    connect_forever hc h (chan (hs_bytes h (hs_self_features ha) @ hs_self_id ha @ rest)) =
      (Inr (hs_self_id ha, hs_self_features ha),
       (chan rest)\<lparr>cn_out := hs_bytes h (hs_self_features hc) @ hs_self_id hc\<rparr>)"
proof -
  have len: "length h = 20" "length (hs_self_id ha) = 20" "length (hs_self_id hc) = 20" "hs_match ha h"
    using assms by (auto simp: pair_ok_def)
  show ?thesis
    using len recv_own_handshake [of "chan (hs_bytes h (hs_self_features hc) @ hs_self_id hc @ rest)" h]
    by (simp add: accept_forever_def connect_forever_def io_simps send_handshake_open send_id_open recv_id_append
        recv_own_handshake chan_def)
qed

theorem handshake_runs_witness:
  "fst (accept_forever \<lparr>hs_self_id = replicate 20 1, hs_self_features = \<lparr>dht = True, fast = False, extension = True\<rparr>, hs_match = (\<lambda>_. True)\<rparr>
      (chan (hs_bytes (replicate 20 3) \<lparr>dht = False, fast = True, extension = True\<rparr> @ replicate 20 2 @ [9]))) =
    Inr (replicate 20 3, replicate 20 2, \<lparr>dht = False, fast = True, extension = True\<rparr>)"
  using handshake_runs [of
    "\<lparr>hs_self_id = replicate 20 1, hs_self_features = \<lparr>dht = True, fast = False, extension = True\<rparr>, hs_match = (\<lambda>_. True)\<rparr>"
    "\<lparr>hs_self_id = replicate 20 2, hs_self_features = \<lparr>dht = False, fast = True, extension = True\<rparr>, hs_match = (\<lambda>_. False)\<rparr>"
    "replicate 20 3" "[9]"]
  by (simp add: pair_ok_def)

end
