(* ===== verification/Torrent_Model.thy ===== *)
theory Torrent_Model
  imports Handshake
begin

text \<open>
  The model of torrents, peers and connections (\<open>src/rust/bt/model/src/lib.rs\<close> and \<open>conn.rs\<close>) that the
  downloader and the scheduler read, with the updates it broadcasts to its subscribers. A hash map is an
  association list; an endpoint is of any type. The transfer statistics are counters without effect on
  the model; only which peers have them is kept.
\<close>

section \<open>Connections\<close>

type_synonym 'e conn_pair = "'e \<times> 'e"

record 'e conn_id =
  ci_info_hash :: info_hash
  ci_conn_pair :: "'e conn_pair"

definition conn_id_of :: "info_hash \<Rightarrow> 'e conn_pair \<Rightarrow> 'e conn_id" where
  "conn_id_of h pair = \<lparr>ci_info_hash = h, ci_conn_pair = pair\<rparr>"

definition self_endpoint :: "'e conn_id \<Rightarrow> 'e" where
  "self_endpoint c = fst (ci_conn_pair c)"

definition peer_endpoint :: "'e conn_id \<Rightarrow> 'e" where
  "peer_endpoint c = snd (ci_conn_pair c)"

record conn_flags =
  self_choking :: bool
  peer_choking :: bool
  self_interested :: bool
  peer_interested :: bool
  snubbing :: bool

record 'e conn_state =
  cs_conn_id :: "'e conn_id"
  cs_peer_features :: features
  cs_flags :: conn_flags

definition new_flags :: conn_flags where
  "new_flags = \<lparr>self_choking = True, peer_choking = True, self_interested = False, peer_interested = False, snubbing = False\<rparr>"

definition conn_state_new :: "'e conn_id \<Rightarrow> features \<Rightarrow> 'e conn_state" where
  "conn_state_new c f = \<lparr>cs_conn_id = c, cs_peer_features = f, cs_flags = new_flags\<rparr>"

datatype flag = SelfChokingF | PeerChokingF | SelfInterestedF | PeerInterestedF | SnubbingF

primrec get_flag :: "flag \<Rightarrow> conn_flags \<Rightarrow> bool" where
  "get_flag SelfChokingF f = self_choking f"
| "get_flag PeerChokingF f = peer_choking f"
| "get_flag SelfInterestedF f = self_interested f"
| "get_flag PeerInterestedF f = peer_interested f"
| "get_flag SnubbingF f = snubbing f"

primrec put_flag :: "flag \<Rightarrow> bool \<Rightarrow> conn_flags \<Rightarrow> conn_flags" where
  "put_flag SelfChokingF v f = f\<lparr>self_choking := v\<rparr>"
| "put_flag PeerChokingF v f = f\<lparr>peer_choking := v\<rparr>"
| "put_flag SelfInterestedF v f = f\<lparr>self_interested := v\<rparr>"
| "put_flag PeerInterestedF v f = f\<lparr>peer_interested := v\<rparr>"
| "put_flag SnubbingF v f = f\<lparr>snubbing := v\<rparr>"

section \<open>The model\<close>

record 'e torrent =
  tr_info_hash :: info_hash
  tr_layout :: layout
  tr_self_pieces :: bitfield
  tr_peer_pieces :: "('e conn_pair \<times> bitfield) list"
  tr_peer_stats :: "'e conn_pair set"

text \<open>The five updates of a connection's flags are one constructor with the flag.\<close>

datatype 'e model_update =
    NewTorrent info_hash
  | InitTorrent info_hash
  | RemoveTorrent info_hash
  | NewPeer info_hash 'e
  | ConnectPeer "'e conn_id"
  | DisconnectPeer "'e conn_id"
  | FlagChange flag "'e conn_id" bool
  | InitPeer "'e conn_id"
  | SetSelfPiece info_hash piece_index
  | SetPeerPiece "'e conn_id" piece_index

record 'e model =
  md_peers :: "(info_hash \<times> 'e set) list"
  md_conns :: "(info_hash \<times> ('e conn_pair \<times> 'e conn_state) list) list"
  md_torrents :: "(info_hash \<times> 'e torrent) list"
  md_sent :: "'e model_update list"

definition md_new :: "'e model" where
  "md_new = \<lparr>md_peers = [], md_conns = [], md_torrents = [], md_sent = []\<rparr>"

definition md_send :: "'e model_update \<Rightarrow> 'e model \<Rightarrow> 'e model" where
  "md_send u m = m\<lparr>md_sent := md_sent m @ [u]\<rparr>"

section \<open>Peers\<close>

definition contains_torrent :: "'e model \<Rightarrow> info_hash \<Rightarrow> bool" where
  "contains_torrent m h \<longleftrightarrow> map_of (md_peers m) h \<noteq> None"

definition peers_contains :: "'e model \<Rightarrow> info_hash \<Rightarrow> 'e \<Rightarrow> bool" where
  "peers_contains m h e \<longleftrightarrow> (case map_of (md_peers m) h of None \<Rightarrow> False | Some peers \<Rightarrow> e \<in> peers)"

definition peers_insert_torrent :: "'e model \<Rightarrow> info_hash \<Rightarrow> bool \<times> 'e model" where
  "peers_insert_torrent m h =
     (case map_of (md_peers m) h of
        Some _ \<Rightarrow> (False, m)
      | None \<Rightarrow> (True, m\<lparr>md_peers := AList.update h {} (md_peers m)\<rparr>))"

definition peers_insert :: "'e model \<Rightarrow> info_hash \<Rightarrow> 'e \<Rightarrow> bool option \<times> 'e model" where
  "peers_insert m h e =
     (case map_of (md_peers m) h of
        None \<Rightarrow> (None, m)
      | Some peers \<Rightarrow>
          if e \<in> peers then (Some False, m)
          else (Some True, md_send (NewPeer h e) (m\<lparr>md_peers := AList.update h (insert e peers) (md_peers m)\<rparr>)))"

definition peers_remove_torrent :: "'e model \<Rightarrow> info_hash \<Rightarrow> bool \<times> 'e model" where
  "peers_remove_torrent m h = (map_of (md_peers m) h \<noteq> None, m\<lparr>md_peers := AList.delete h (md_peers m)\<rparr>)"

definition peers_remove :: "'e model \<Rightarrow> info_hash \<Rightarrow> 'e \<Rightarrow> bool option \<times> 'e model" where
  "peers_remove m h e =
     (case map_of (md_peers m) h of
        None \<Rightarrow> (None, m)
      | Some peers \<Rightarrow> (Some (e \<in> peers), m\<lparr>md_peers := AList.update h (peers - {e}) (md_peers m)\<rparr>))"

section \<open>Connection states\<close>

definition conn_get :: "'e model \<Rightarrow> 'e conn_id \<Rightarrow> 'e conn_state option" where
  "conn_get m c =
     (case map_of (md_conns m) (ci_info_hash c) of None \<Rightarrow> None | Some cs \<Rightarrow> map_of cs (ci_conn_pair c))"

definition conn_contains :: "'e model \<Rightarrow> 'e conn_id \<Rightarrow> bool" where
  "conn_contains m c \<longleftrightarrow> conn_get m c \<noteq> None"

definition conn_insert :: "'e model \<Rightarrow> 'e conn_id \<Rightarrow> features \<Rightarrow> (bool \<times> 'e model) option" where
  "conn_insert m c f =
     (let h = ci_info_hash c;
          cs = (case map_of (md_conns m) h of None \<Rightarrow> [] | Some cs \<Rightarrow> cs) in
      case map_of cs (ci_conn_pair c) of
        Some s \<Rightarrow> do { rs_assert (cs_peer_features s = f); Some (False, m) }
      | None \<Rightarrow>
          Some (True, md_send (ConnectPeer c)
            (m\<lparr>md_conns := AList.update h (AList.update (ci_conn_pair c) (conn_state_new c f) cs) (md_conns m)\<rparr>)))"

definition conn_remove :: "'e model \<Rightarrow> 'e conn_id \<Rightarrow> bool \<times> 'e model" where
  "conn_remove m c =
     (let h = ci_info_hash c in
      case map_of (md_conns m) h of
        None \<Rightarrow> (False, m)
      | Some cs \<Rightarrow>
          let removed = map_of cs (ci_conn_pair c) \<noteq> None;
              cs = AList.delete (ci_conn_pair c) cs;
              m = m\<lparr>md_conns := (if cs = [] then AList.delete h (md_conns m) else AList.update h cs (md_conns m))\<rparr> in
          (removed, if removed then md_send (DisconnectPeer c) m else m))"

text \<open>\<open>ConnState::set\<close> through the model's handle on the connection; without a handle there is no call.\<close>

definition conn_set :: "'e model \<Rightarrow> 'e conn_id \<Rightarrow> flag \<Rightarrow> bool \<Rightarrow> bool option \<times> 'e model" where
  "conn_set m c fl v =
     (case map_of (md_conns m) (ci_info_hash c) of
        None \<Rightarrow> (None, m)
      | Some cs \<Rightarrow>
          (case map_of cs (ci_conn_pair c) of
             None \<Rightarrow> (None, m)
           | Some s \<Rightarrow>
               let m' = m\<lparr>md_conns := AList.update (ci_info_hash c)
                     (AList.update (ci_conn_pair c) (s\<lparr>cs_flags := put_flag fl v (cs_flags s)\<rparr>) cs) (md_conns m)\<rparr> in
               if get_flag fl (cs_flags s) \<noteq> v then (Some True, md_send (FlagChange fl (cs_conn_id s) v) m')
               else (Some False, m')))"

section \<open>Torrents\<close>

definition torrent_new :: "info_hash \<Rightarrow> layout \<Rightarrow> bitfield \<Rightarrow> 'e torrent option" where
  "torrent_new h l pieces = do {
     rs_assert (lnum_pieces l = length pieces);
     Some \<lparr>tr_info_hash = h, tr_layout = l, tr_self_pieces = pieces, tr_peer_pieces = [], tr_peer_stats = {}\<rparr>
   }"

definition torrents_insert :: "'e model \<Rightarrow> info_hash \<Rightarrow> layout \<Rightarrow> bitfield \<Rightarrow> (bool \<times> 'e model) option" where
  "torrents_insert m h l pieces =
     (case map_of (md_torrents m) h of
        Some t \<Rightarrow> do {
          rs_assert (tr_layout t = l);
          rs_assert (length (tr_self_pieces t) = length pieces);
          if tr_self_pieces t = pieces then Some (False, m)
          else Some (True, m\<lparr>md_torrents := AList.update h (t\<lparr>tr_self_pieces := pieces\<rparr>) (md_torrents m)\<rparr>)
        }
      | None \<Rightarrow> do {
          t \<leftarrow> torrent_new h l pieces;
          Some (True, m\<lparr>md_torrents := AList.update h t (md_torrents m)\<rparr>)
        })"

definition torrents_remove :: "'e model \<Rightarrow> info_hash \<Rightarrow> bool \<times> 'e model" where
  "torrents_remove m h = (map_of (md_torrents m) h \<noteq> None, m\<lparr>md_torrents := AList.delete h (md_torrents m)\<rparr>)"

definition set_self_piece :: "'e model \<Rightarrow> info_hash \<Rightarrow> piece_index \<Rightarrow> (bool option \<times> 'e model) option" where
  "set_self_piece m h i =
     (case map_of (md_torrents m) h of
        None \<Rightarrow> Some (None, m)
      | Some t \<Rightarrow> do {
          have \<leftarrow> rs_index (tr_self_pieces t) i;
          let m = m\<lparr>md_torrents := AList.update h (t\<lparr>tr_self_pieces := (tr_self_pieces t)[i := True]\<rparr>) (md_torrents m)\<rparr>;
          Some (if have then (Some False, m) else (Some True, md_send (SetSelfPiece (tr_info_hash t) i) m))
        })"

definition peer_insert :: "'e model \<Rightarrow> 'e conn_id \<Rightarrow> bitfield \<Rightarrow> (bool option \<times> 'e model) option" where
  "peer_insert m c pieces =
     (case map_of (md_torrents m) (ci_info_hash c) of
        None \<Rightarrow> Some (None, m)
      | Some t \<Rightarrow> do {
          rs_assert (length (tr_self_pieces t) = length pieces);
          if map_of (tr_peer_pieces t) (ci_conn_pair c) = Some pieces then Some (Some False, m)
          else Some (Some True, md_send (InitPeer (conn_id_of (tr_info_hash t) (ci_conn_pair c)))
            (m\<lparr>md_torrents := AList.update (ci_info_hash c)
                 (t\<lparr>tr_peer_pieces := AList.update (ci_conn_pair c) pieces (tr_peer_pieces t)\<rparr>) (md_torrents m)\<rparr>))
        })"

definition set_peer_piece :: "'e model \<Rightarrow> 'e conn_id \<Rightarrow> piece_index \<Rightarrow> (bool option \<times> 'e model) option" where
  "set_peer_piece m c i =
     (case map_of (md_torrents m) (ci_info_hash c) of
        None \<Rightarrow> Some (None, m)
      | Some t \<Rightarrow>
          (case map_of (tr_peer_pieces t) (ci_conn_pair c) of
             None \<Rightarrow> Some (None, m)
           | Some pieces \<Rightarrow> do {
               have \<leftarrow> rs_index pieces i;
               let m = m\<lparr>md_torrents := AList.update (ci_info_hash c)
                     (t\<lparr>tr_peer_pieces := AList.update (ci_conn_pair c) (pieces[i := True]) (tr_peer_pieces t)\<rparr>) (md_torrents m)\<rparr>;
               Some (if have then (Some False, m)
                     else (Some True, md_send (SetPeerPiece (conn_id_of (tr_info_hash t) (ci_conn_pair c)) i) m))
             }))"

definition stats_insert :: "'e torrent \<Rightarrow> 'e conn_pair \<Rightarrow> bool \<times> 'e torrent" where
  "stats_insert t pair = (pair \<notin> tr_peer_stats t, t\<lparr>tr_peer_stats := insert pair (tr_peer_stats t)\<rparr>)"

definition stats_remove :: "'e torrent \<Rightarrow> 'e conn_pair \<Rightarrow> bool \<times> 'e torrent" where
  "stats_remove t pair = (pair \<in> tr_peer_stats t, t\<lparr>tr_peer_stats := tr_peer_stats t - {pair}\<rparr>)"

definition peer_pieces_remove :: "'e torrent \<Rightarrow> 'e conn_pair \<Rightarrow> bool \<times> 'e torrent" where
  "peer_pieces_remove t pair =
     (map_of (tr_peer_pieces t) pair \<noteq> None, t\<lparr>tr_peer_pieces := AList.delete pair (tr_peer_pieces t)\<rparr>)"

section \<open>Model operations\<close>

definition new_torrent :: "'e model \<Rightarrow> info_hash \<Rightarrow> (bool \<times> 'e model) option" where
  "new_torrent m h =
     (case peers_insert_torrent m h of
        (True, m) \<Rightarrow> do {
          rs_assert (map_of (md_torrents m) h = None);
          Some (True, md_send (NewTorrent h) m)
        }
      | (False, m) \<Rightarrow> Some (False, m))"

definition init_torrent :: "'e model \<Rightarrow> info_hash \<Rightarrow> layout \<Rightarrow> bitfield \<Rightarrow> (bool \<times> 'e model) option" where
  "init_torrent m h l pieces = do {
     rs_assert (contains_torrent m h);
     (changed, m) \<leftarrow> torrents_insert m h l pieces;
     Some (if changed then (True, md_send (InitTorrent h) m) else (False, m))
   }"

definition remove_torrent :: "'e model \<Rightarrow> info_hash \<Rightarrow> (bool \<times> 'e model) option" where
  "remove_torrent m h =
     (case torrents_remove m h of
        (removed, m) \<Rightarrow>
          (case peers_remove_torrent m h of
             (True, m) \<Rightarrow> Some (True, md_send (RemoveTorrent h) m)
           | (False, m) \<Rightarrow> do { rs_assert (\<not> removed); Some (False, m) }))"

definition connect_peer :: "'e model \<Rightarrow> 'e conn_id \<Rightarrow> features \<Rightarrow> 'e model option" where
  "connect_peer m c f = do {
     m \<leftarrow> (case map_of (md_torrents m) (ci_info_hash c) of
             None \<Rightarrow> Some m
           | Some t \<Rightarrow> do {
               rs_assert (map_of (tr_peer_pieces t) (ci_conn_pair c) = None);
               let (fresh, t) = stats_insert t (ci_conn_pair c);
               rs_assert fresh;
               Some (m\<lparr>md_torrents := AList.update (ci_info_hash c) t (md_torrents m)\<rparr>)
             });
     (inserted, m) \<leftarrow> conn_insert m c f;
     rs_assert inserted;
     Some m
   }"

definition disconnect_peer :: "'e model \<Rightarrow> 'e conn_id \<Rightarrow> 'e model option" where
  "disconnect_peer m c = do {
     m \<leftarrow> (case map_of (md_torrents m) (ci_info_hash c) of
             None \<Rightarrow> Some m
           | Some t \<Rightarrow> do {
               let (_, t) = peer_pieces_remove t (ci_conn_pair c);
               let (removed, t) = stats_remove t (ci_conn_pair c);
               rs_assert removed;
               Some (m\<lparr>md_torrents := AList.update (ci_info_hash c) t (md_torrents m)\<rparr>)
             });
     let (removed, m) = conn_remove m c;
     rs_assert removed;
     Some m
   }"

end
