(* ===== verification/Torrent_Model_Spec.thy ===== *)
theory Torrent_Model_Spec
  imports Torrent_Model
begin

text \<open>
  What the torrent model keeps: every sequence of calls that respects the callers' obligations runs
  without a panic and keeps torrents, connections and statistics consistent; and the updates broadcast
  during any run tell a subscriber the state of the model.
\<close>

section \<open>Calls\<close>

datatype 'e md_op =
    OpNewTorrent info_hash
  | OpInitTorrent info_hash layout bitfield
  | OpRemoveTorrent info_hash
  | OpAddPeer info_hash 'e
  | OpDropPeer info_hash 'e
  | OpConnect "'e conn_id" features
  | OpDisconnect "'e conn_id"
  | OpSetFlag "'e conn_id" flag bool
  | OpSelfPiece info_hash piece_index
  | OpInitPeer "'e conn_id" bitfield
  | OpPeerPiece "'e conn_id" piece_index

text \<open>
  The result of a call: whether it reported a change. Connecting and disconnecting return nothing, and
  change the model whenever they return; a call on a removed torrent or connection reports nothing.
\<close>

fun md_call :: "'e md_op \<Rightarrow> 'e model \<Rightarrow> (bool option \<times> 'e model) option" where
  "md_call (OpNewTorrent h) m = map_option (apfst Some) (new_torrent m h)"
| "md_call (OpInitTorrent h l b) m = map_option (apfst Some) (init_torrent m h l b)"
| "md_call (OpRemoveTorrent h) m = map_option (apfst Some) (remove_torrent m h)"
| "md_call (OpAddPeer h e) m = Some (peers_insert m h e)"
| "md_call (OpDropPeer h e) m = Some (peers_remove m h e)"
| "md_call (OpConnect c f) m = map_option (Pair (Some True)) (connect_peer m c f)"
| "md_call (OpDisconnect c) m = map_option (Pair (Some True)) (disconnect_peer m c)"
| "md_call (OpSetFlag c fl v) m = Some (conn_set m c fl v)"
| "md_call (OpSelfPiece h i) m = set_self_piece m h i"
| "md_call (OpInitPeer c b) m = peer_insert m c b"
| "md_call (OpPeerPiece c i) m = set_peer_piece m c i"

definition md_exec :: "'e md_op \<Rightarrow> 'e model \<Rightarrow> 'e model option" where
  "md_exec p m = map_option snd (md_call p m)"

section \<open>Lookups after updates\<close>

named_theorems model_simps

declare split_paired_All [simp del] split_paired_Ex [simp del]

declare AList.update_conv' [model_simps] AList.delete_conv' [model_simps]

lemma conn_id_eq_iff: "c = d \<longleftrightarrow> ci_info_hash c = ci_info_hash d \<and> ci_conn_pair c = ci_conn_pair d" for c d :: "'e conn_id"
  by (cases c; cases d) simp

lemma conn_id_of_simps [simp]:
  "ci_info_hash (conn_id_of h p) = h"
  "ci_conn_pair (conn_id_of h p) = p"
  "conn_id_of (ci_info_hash c) (ci_conn_pair c) = c"
  "conn_id_of h p = c \<longleftrightarrow> h = ci_info_hash c \<and> p = ci_conn_pair c" for c :: "'e conn_id"
  by (auto simp: conn_id_of_def conn_id_eq_iff)

lemma conn_get_frame [simp]:
  "conn_get (m\<lparr>md_peers := x\<rparr>) = conn_get m"
  "conn_get (m\<lparr>md_torrents := y\<rparr>) = conn_get m"
  "conn_get (m\<lparr>md_sent := z\<rparr>) = conn_get m"
  "conn_get (md_send u m) = conn_get m"
  by (rule ext, simp add: conn_get_def md_send_def)+

lemma md_send_simps [simp]:
  "md_peers (md_send u m) = md_peers m"
  "md_conns (md_send u m) = md_conns m"
  "md_torrents (md_send u m) = md_torrents m"
  "md_sent (md_send u m) = md_sent m @ [u]"
  by (simp_all add: md_send_def)

definition conns_of :: "'e model \<Rightarrow> info_hash \<Rightarrow> ('e conn_pair \<times> 'e conn_state) list" where
  "conns_of m h = (case map_of (md_conns m) h of None \<Rightarrow> [] | Some cs \<Rightarrow> cs)"

lemma conn_get_conns_of: "conn_get m c = map_of (conns_of m (ci_info_hash c)) (ci_conn_pair c)"
  by (simp add: conn_get_def conns_of_def split: option.split)

lemma conn_get_update:
  "conn_get (m\<lparr>md_conns := AList.update (ci_info_hash c)
       (AList.update (ci_conn_pair c) s (conns_of m (ci_info_hash c))) (md_conns m)\<rparr>) = (conn_get m)(c \<mapsto> s)"
  by (rule ext) (auto simp: conn_get_def conns_of_def conn_id_eq_iff model_simps split: option.splits)

lemma conn_get_delete:
  assumes "cs = AList.delete (ci_conn_pair c) (conns_of m (ci_info_hash c))"
  shows "conn_get (m\<lparr>md_conns := if cs = [] then AList.delete (ci_info_hash c) (md_conns m)
      else AList.update (ci_info_hash c) cs (md_conns m)\<rparr>) = (conn_get m)(c := None)"
proof (rule ext)
  fix d :: "'a conn_id"
  have "map_of cs (ci_conn_pair d) =
      (if ci_conn_pair d = ci_conn_pair c then None else map_of (conns_of m (ci_info_hash c)) (ci_conn_pair d))"
    by (simp add: assms model_simps)
  then show "conn_get (m\<lparr>md_conns := if cs = [] then AList.delete (ci_info_hash c) (md_conns m)
      else AList.update (ci_info_hash c) cs (md_conns m)\<rparr>) d = ((conn_get m)(c := None)) d"
    by (cases "cs = []"; cases "ci_info_hash d = ci_info_hash c")
      (auto simp: conn_get_conns_of conns_of_def conn_id_eq_iff model_simps split: if_splits option.splits)
qed

section \<open>The effect of the connection calls\<close>

lemma conn_insert_eq:
  "conn_insert m c f =
     (case conn_get m c of
        Some s \<Rightarrow> if cs_peer_features s = f then Some (False, m) else None
      | None \<Rightarrow> Some (True, md_send (ConnectPeer c) (m\<lparr>md_conns := AList.update (ci_info_hash c)
          (AList.update (ci_conn_pair c) (conn_state_new c f) (conns_of m (ci_info_hash c))) (md_conns m)\<rparr>)))"
  by (simp add: conn_insert_def conn_get_conns_of flip: conns_of_def) (simp add: Let_def rs_assert_def split: option.split)

lemma conn_set_eq:
  "conn_set m c fl v =
     (case conn_get m c of
        None \<Rightarrow> (None, m)
      | Some s \<Rightarrow>
          let m' = m\<lparr>md_conns := AList.update (ci_info_hash c) (AList.update (ci_conn_pair c)
                (s\<lparr>cs_flags := put_flag fl v (cs_flags s)\<rparr>) (conns_of m (ci_info_hash c))) (md_conns m)\<rparr> in
          if get_flag fl (cs_flags s) \<noteq> v then (Some True, md_send (FlagChange fl (cs_conn_id s) v) m')
          else (Some False, m'))"
  by (simp add: conn_set_def conn_get_def conns_of_def Let_def split: option.split)

lemma conn_remove_facts:
  assumes "conn_remove m c = (r, m')"
  shows "r \<longleftrightarrow> conn_contains m c"
    and "conn_get m' = (conn_get m)(c := None)"
    and "md_peers m' = md_peers m" and "md_torrents m' = md_torrents m"
    and "md_sent m' = md_sent m @ (if r then [DisconnectPeer c] else [])"
proof -
  define cs where "cs = AList.delete (ci_conn_pair c) (conns_of m (ci_info_hash c))"
  have none: "map_of (md_conns m) (ci_info_hash c) = None \<Longrightarrow> conn_get m = (conn_get m)(c := None)"
    by (rule ext) (simp add: conn_get_def)
  have some: "map_of (md_conns m) (ci_info_hash c) = Some ds \<Longrightarrow> cs = AList.delete (ci_conn_pair c) ds" for ds
    by (simp add: cs_def conns_of_def)
  show "r \<longleftrightarrow> conn_contains m c" "md_peers m' = md_peers m" "md_torrents m' = md_torrents m"
    "md_sent m' = md_sent m @ (if r then [DisconnectPeer c] else [])"
    using assms by (auto simp: conn_remove_def conn_contains_def conn_get_def Let_def split: option.splits)
  show "conn_get m' = (conn_get m)(c := None)"
    using assms conn_get_delete [OF cs_def] none some
    by (auto simp: conn_remove_def Let_def split: option.splits)
qed

section \<open>Consistency\<close>

text \<open>
  The statistics of a torrent are those of its connections, known pieces belong to connections and have the
  torrent's size, every initialised torrent is open, every connection state carries its own id, and no
  torrent keeps an empty table of connections.
\<close>

definition torrent_ok :: "('e conn_id \<Rightarrow> 'e conn_state option) \<Rightarrow> info_hash \<Rightarrow> 'e torrent \<Rightarrow> bool" where
  "torrent_ok conns h t \<longleftrightarrow>
     tr_info_hash t = h \<and>
     lnum_pieces (tr_layout t) = length (tr_self_pieces t) \<and>
     tr_peer_stats t = {p. conns (conn_id_of h p) \<noteq> None} \<and>
     (\<forall>p b. map_of (tr_peer_pieces t) p = Some b \<longrightarrow> p \<in> tr_peer_stats t \<and> length b = length (tr_self_pieces t))"

definition md_inv :: "'e model \<Rightarrow> bool" where
  "md_inv m \<longleftrightarrow>
     (\<forall>h t. map_of (md_torrents m) h = Some t \<longrightarrow> contains_torrent m h \<and> torrent_ok (conn_get m) h t) \<and>
     (\<forall>c s. conn_get m c = Some s \<longrightarrow> cs_conn_id s = c) \<and>
     (\<forall>h. map_of (md_conns m) h \<noteq> Some [])"

text \<open>The callers' obligations.\<close>

fun md_adm :: "'e model \<Rightarrow> 'e md_op \<Rightarrow> bool" where
  "md_adm m (OpInitTorrent h l b) \<longleftrightarrow> contains_torrent m h \<and>
     (case map_of (md_torrents m) h of
        None \<Rightarrow> lnum_pieces l = length b \<and> conns_of m h = []
      | Some t \<Rightarrow> tr_layout t = l \<and> length (tr_self_pieces t) = length b)"
| "md_adm m (OpConnect c f) \<longleftrightarrow> \<not> conn_contains m c"
| "md_adm m (OpDisconnect c) \<longleftrightarrow> conn_contains m c"
| "md_adm m (OpSelfPiece h i) \<longleftrightarrow>
     (case map_of (md_torrents m) h of None \<Rightarrow> True | Some t \<Rightarrow> i < length (tr_self_pieces t))"
| "md_adm m (OpInitPeer c b) \<longleftrightarrow> conn_contains m c \<and>
     (case map_of (md_torrents m) (ci_info_hash c) of None \<Rightarrow> True | Some t \<Rightarrow> length (tr_self_pieces t) = length b)"
| "md_adm m (OpPeerPiece c i) \<longleftrightarrow>
     (case map_of (md_torrents m) (ci_info_hash c) of None \<Rightarrow> True | Some t \<Rightarrow> i < length (tr_self_pieces t))"
| "md_adm m _ \<longleftrightarrow> True"

lemma md_inv_new: "md_inv md_new"
  by (simp add: md_inv_def md_new_def conn_get_def)

lemma md_invD:
  assumes "md_inv m"
  shows "map_of (md_torrents m) h = Some t \<Longrightarrow> contains_torrent m h"
    and "map_of (md_torrents m) h = Some t \<Longrightarrow> torrent_ok (conn_get m) h t"
    and "conn_get m c = Some s \<Longrightarrow> cs_conn_id s = c"
    and "map_of (md_conns m) h \<noteq> Some []"
  using assms by (auto simp: md_inv_def)

text \<open>Only what the invariant reads matters.\<close>

lemma md_inv_cong:
  assumes "md_inv m" "conn_get m' = conn_get m" "md_conns m' = md_conns m"
    and "\<And>h t. map_of (md_torrents m') h = Some t \<Longrightarrow> contains_torrent m' h \<and> torrent_ok (conn_get m) h t"
  shows "md_inv m'"
  using assms by (auto simp: md_inv_def)

lemma torrent_step:
  assumes "md_inv m" "map_of (md_torrents m) h = Some t" "torrent_ok (conn_get m) h t'"
    and "md_conns m' = md_conns m" "md_peers m' = md_peers m" "md_torrents m' = AList.update h t' (md_torrents m)"
  shows "md_inv m'"
proof (rule md_inv_cong [OF assms(1) _ assms(4)])
  show "conn_get m' = conn_get m" by (rule ext) (simp add: conn_get_def assms(4))
  show "\<And>k s. map_of (md_torrents m') k = Some s \<Longrightarrow> contains_torrent m' k \<and> torrent_ok (conn_get m) k s"
    using assms md_invD [OF assms(1)]
    by (auto simp: model_simps contains_torrent_def split: if_splits)
qed

lemma set_self_piece_step:
  assumes "md_inv m" "md_adm m (OpSelfPiece h i)"
  shows "\<exists>m'. md_exec (OpSelfPiece h i) m = Some m' \<and> md_inv m'"
proof (cases "map_of (md_torrents m) h")
  case (Some t)
  then have "torrent_ok (conn_get m) h (t\<lparr>tr_self_pieces := (tr_self_pieces t)[i := True]\<rparr>)"
    using md_invD(2) [OF assms(1) Some] by (auto simp: torrent_ok_def)
  from torrent_step [OF assms(1) Some this] Some assms(2) show ?thesis
    by (auto simp: md_exec_def set_self_piece_def Let_def)
qed (use assms in \<open>simp add: md_exec_def set_self_piece_def\<close>)

lemma init_peer_step:
  assumes "md_inv m" "md_adm m (OpInitPeer c b)"
  shows "\<exists>m'. md_exec (OpInitPeer c b) m = Some m' \<and> md_inv m'"
proof (cases "map_of (md_torrents m) (ci_info_hash c)")
  case (Some t)
  then have "torrent_ok (conn_get m) (ci_info_hash c) (t\<lparr>tr_peer_pieces := AList.update (ci_conn_pair c) b (tr_peer_pieces t)\<rparr>)"
    using md_invD(2) [OF assms(1) Some] assms(2) by (auto simp: torrent_ok_def model_simps conn_contains_def)
  from torrent_step [OF assms(1) Some this] Some assms show ?thesis
    by (auto simp: md_exec_def peer_insert_def Let_def)
qed (use assms in \<open>simp add: md_exec_def peer_insert_def\<close>)

lemma peer_piece_step:
  assumes "md_inv m" "md_adm m (OpPeerPiece c i)"
  shows "\<exists>m'. md_exec (OpPeerPiece c i) m = Some m' \<and> md_inv m'"
proof (cases "map_of (md_torrents m) (ci_info_hash c)")
  case t: (Some t)
  show ?thesis
  proof (cases "map_of (tr_peer_pieces t) (ci_conn_pair c)")
    case (Some b)
    have len: "length b = length (tr_self_pieces t)" and con: "\<exists>s. conn_get m c = Some s"
      using md_invD(2) [OF assms(1) t] Some by (fastforce simp: torrent_ok_def)+
    have "torrent_ok (conn_get m) (ci_info_hash c)
        (t\<lparr>tr_peer_pieces := AList.update (ci_conn_pair c) (b[i := True]) (tr_peer_pieces t)\<rparr>)"
      using md_invD(2) [OF assms(1) t] Some len con by (auto simp: torrent_ok_def model_simps)
    from torrent_step [OF assms(1) t this] t Some assms(2) len show ?thesis
      by (auto simp: md_exec_def set_peer_piece_def Let_def)
  qed (use assms t in \<open>simp add: md_exec_def set_peer_piece_def\<close>)
qed (use assms in \<open>simp add: md_exec_def set_peer_piece_def\<close>)

lemma new_torrent_step:
  assumes "md_inv m"
  shows "\<exists>m'. md_exec (OpNewTorrent h) m = Some m' \<and> md_inv m'"
proof (cases "map_of (md_peers m) h")
  case None
  have "map_of (md_torrents m) h = None"
    using md_invD(1) [OF assms, of h] None by (cases "map_of (md_torrents m) h") (auto simp: contains_torrent_def)
  moreover have "md_inv (md_send (NewTorrent h) (m\<lparr>md_peers := AList.update h {} (md_peers m)\<rparr>))"
    using md_invD [OF assms] by (intro md_inv_cong [OF assms]) (auto simp: contains_torrent_def model_simps)
  ultimately show ?thesis using None by (simp add: md_exec_def new_torrent_def peers_insert_torrent_def)
qed (use assms in \<open>simp add: md_exec_def new_torrent_def peers_insert_torrent_def\<close>)

lemma remove_torrent_step:
  assumes "md_inv m"
  shows "\<exists>m'. md_exec (OpRemoveTorrent h) m = Some m' \<and> md_inv m'"
proof -
  let ?m = "m\<lparr>md_torrents := AList.delete h (md_torrents m), md_peers := AList.delete h (md_peers m)\<rparr>"
  have "md_inv ?m" "md_inv (md_send u ?m)" for u
    using md_invD [OF assms]
    by (auto intro!: md_inv_cong [OF assms] simp: contains_torrent_def model_simps split: if_splits)
  moreover have "map_of (md_peers m) h = None \<Longrightarrow> map_of (md_torrents m) h = None"
    using md_invD(1) [OF assms, of h] by (cases "map_of (md_torrents m) h") (auto simp: contains_torrent_def)
  ultimately show ?thesis
    by (cases "map_of (md_peers m) h") (auto simp: md_exec_def remove_torrent_def torrents_remove_def peers_remove_torrent_def)
qed

lemma peers_step:
  assumes "md_inv m"
  shows "\<exists>m'. md_exec (OpAddPeer h e) m = Some m' \<and> md_inv m'"
    and "\<exists>m'. md_exec (OpDropPeer h e) m = Some m' \<and> md_inv m'"
proof -
  have "md_inv (m\<lparr>md_peers := AList.update h ps (md_peers m)\<rparr>)"
    "md_inv (md_send u (m\<lparr>md_peers := AList.update h ps (md_peers m)\<rparr>))" for ps u
    using md_invD [OF assms] by (auto intro!: md_inv_cong [OF assms] simp: contains_torrent_def model_simps)
  then show "\<exists>m'. md_exec (OpAddPeer h e) m = Some m' \<and> md_inv m'"
    "\<exists>m'. md_exec (OpDropPeer h e) m = Some m' \<and> md_inv m'"
    using assms by (auto simp: md_exec_def peers_insert_def peers_remove_def split: option.splits)
qed

lemma init_torrent_step:
  assumes "md_inv m" "md_adm m (OpInitTorrent h l b)"
  shows "\<exists>m'. md_exec (OpInitTorrent h l b) m = Some m' \<and> md_inv m'"
proof (cases "map_of (md_torrents m) h")
  case None
  let ?t = "\<lparr>tr_info_hash = h, tr_layout = l, tr_self_pieces = b, tr_peer_pieces = [], tr_peer_stats = {}\<rparr>"
  have "torrent_ok (conn_get m) h ?t"
    using assms None by (simp add: torrent_ok_def conn_get_conns_of)
  then have "md_inv (md_send u (m\<lparr>md_torrents := AList.update h ?t (md_torrents m)\<rparr>))" for u
    using md_invD [OF assms(1)] assms(2)
    by (auto intro!: md_inv_cong [OF assms(1)] simp: contains_torrent_def model_simps split: if_splits)
  with assms None show ?thesis
    by (simp add: md_exec_def init_torrent_def torrents_insert_def torrent_new_def)
next
  case (Some t)
  have "torrent_ok (conn_get m) h (t\<lparr>tr_self_pieces := b\<rparr>)"
    using md_invD(2) [OF assms(1) Some] assms(2) Some by (auto simp: torrent_ok_def)
  from torrent_step [OF assms(1) Some this] Some assms show ?thesis
    by (auto simp: md_exec_def init_torrent_def torrents_insert_def)
qed

lemma set_flag_step:
  assumes "md_inv m"
  shows "\<exists>m'. md_exec (OpSetFlag c fl v) m = Some m' \<and> md_inv m'"
proof (cases "conn_get m c")
  case (Some s)
  let ?s = "s\<lparr>cs_flags := put_flag fl v (cs_flags s)\<rparr>"
  let ?m = "m\<lparr>md_conns := AList.update (ci_info_hash c) (AList.update (ci_conn_pair c) ?s (conns_of m (ci_info_hash c))) (md_conns m)\<rparr>"
  have dom: "{p. ((conn_get m)(c \<mapsto> ?s)) (conn_id_of h p) \<noteq> None} = {p. conn_get m (conn_id_of h p) \<noteq> None}" for h
    using Some by auto
  have "torrent_ok (conn_get m) h t \<Longrightarrow> torrent_ok ((conn_get m)(c \<mapsto> ?s)) h t" for h t
    unfolding torrent_ok_def dom .
  then have "md_inv ?m"
    using assms Some unfolding md_inv_def conn_get_update
    by (auto simp: contains_torrent_def model_simps)
  then have "md_inv ?m" "md_inv (md_send u ?m)" for u
    by (auto simp: md_inv_def contains_torrent_def)
  with Some show ?thesis by (auto simp: md_exec_def conn_set_eq Let_def)
qed (use assms in \<open>simp add: md_exec_def conn_set_eq\<close>)

lemma torrent_ok_other: "h \<noteq> ci_info_hash c \<Longrightarrow> torrent_ok (conns(c := x)) h t = torrent_ok conns h t"
proof -
  assume "h \<noteq> ci_info_hash c"
  then have "(conns(c := x)) (conn_id_of h p) = conns (conn_id_of h p)" for p by (auto simp: fun_upd_def)
  then show ?thesis by (simp add: torrent_ok_def)
qed

text \<open>
  A connection is added or removed together with the statistics of its torrent, if that is initialised.
\<close>

lemma conn_change_inv:
  assumes inv: "md_inv m" and conns: "conn_get m' = (conn_get m)(c := x)" "\<forall>h. map_of (md_conns m') h \<noteq> Some []"
    and x: "\<forall>s. x = Some s \<longrightarrow> cs_conn_id s = c"
    and peers: "md_peers m' = md_peers m"
    and tor: "map_of (md_torrents m') = (case map_of (md_torrents m) (ci_info_hash c) of
       None \<Rightarrow> map_of (md_torrents m) | Some t \<Rightarrow> (map_of (md_torrents m))(ci_info_hash c \<mapsto> f t))"
    and ok: "\<And>t. map_of (md_torrents m) (ci_info_hash c) = Some t \<Longrightarrow> torrent_ok ((conn_get m)(c := x)) (ci_info_hash c) (f t)"
  shows "md_inv m'"
proof -
  have "contains_torrent m' h \<and> torrent_ok (conn_get m') h t" if "map_of (md_torrents m') h = Some t" for h t
  proof (cases "h = ci_info_hash c")
    case True
    with that tor obtain u where u: "map_of (md_torrents m) (ci_info_hash c) = Some u" "t = f u"
      by (auto split: option.splits)
    then show ?thesis using ok [OF u(1)] md_invD(1) [OF inv u(1)] conns(1) peers True by (simp add: contains_torrent_def)
  next
    case False
    with that tor have "map_of (md_torrents m) h = Some t" by (auto split: option.splits)
    with False md_invD(1,2) [OF inv] show ?thesis by (simp add: torrent_ok_other conns(1) contains_torrent_def peers)
  qed
  moreover have "conn_get m' d = Some s \<Longrightarrow> cs_conn_id s = d" for d s
    using md_invD(3) [OF inv, of d s] conns(1) x by (auto split: if_splits)
  ultimately show ?thesis using conns(2) by (auto simp: md_inv_def)
qed

lemma conns_remove_nonempty:
  assumes "conn_remove m c = (r, m')" "\<forall>h. map_of (md_conns m) h \<noteq> Some []"
  shows "\<forall>h. map_of (md_conns m') h \<noteq> Some []"
  using assms by (auto simp: conn_remove_def Let_def model_simps split: option.splits if_splits)

lemma torrent_ok_connect:
  assumes "torrent_ok conns (ci_info_hash c) t" "conns c = None"
  shows "map_of (tr_peer_pieces t) (ci_conn_pair c) = None" "ci_conn_pair c \<notin> tr_peer_stats t"
    and "torrent_ok (conns(c \<mapsto> s)) (ci_info_hash c) (t\<lparr>tr_peer_stats := insert (ci_conn_pair c) (tr_peer_stats t)\<rparr>)"
proof -
  show stats: "ci_conn_pair c \<notin> tr_peer_stats t" using assms by (simp add: torrent_ok_def)
  moreover have "map_of (tr_peer_pieces t) (ci_conn_pair c) = Some b \<Longrightarrow> ci_conn_pair c \<in> tr_peer_stats t" for b
    using assms(1) unfolding torrent_ok_def by blast
  ultimately show "map_of (tr_peer_pieces t) (ci_conn_pair c) = None"
    by (cases "map_of (tr_peer_pieces t) (ci_conn_pair c)") simp_all
  have "insert (ci_conn_pair c) {p. conns (conn_id_of (ci_info_hash c) p) \<noteq> None} =
      {p. (conns(c \<mapsto> s)) (conn_id_of (ci_info_hash c) p) \<noteq> None}"
    by auto
  with assms(1) show "torrent_ok (conns(c \<mapsto> s)) (ci_info_hash c) (t\<lparr>tr_peer_stats := insert (ci_conn_pair c) (tr_peer_stats t)\<rparr>)"
    by (auto simp: torrent_ok_def)
qed

lemma connect_step:
  assumes "md_inv m" "md_adm m (OpConnect c f)"
  shows "\<exists>m'. md_exec (OpConnect c f) m = Some m' \<and> md_inv m'"
proof -
  let ?f = "\<lambda>t. t\<lparr>tr_peer_stats := insert (ci_conn_pair c) (tr_peer_stats t)\<rparr>"
  have none: "conn_get m c = None" using assms(2) by (simp add: conn_contains_def)
  let ?conns = "\<lambda>m. AList.update (ci_info_hash c) (AList.update (ci_conn_pair c) (conn_state_new c f) (conns_of m (ci_info_hash c))) (md_conns m)"
  let ?tor = "case map_of (md_torrents m) (ci_info_hash c) of None \<Rightarrow> md_torrents m
    | Some t \<Rightarrow> AList.update (ci_info_hash c) (?f t) (md_torrents m)"
  let ?m = "md_send (ConnectPeer c) (m\<lparr>md_torrents := ?tor, md_conns := ?conns m\<rparr>)"
  have of: "conns_of (m\<lparr>md_torrents := y\<rparr>) h = conns_of m h" for y h by (simp add: conns_of_def)
  have "connect_peer m c f = Some ?m"
  proof (cases "map_of (md_torrents m) (ci_info_hash c)")
    case (Some t)
    note ok = torrent_ok_connect [OF md_invD(2) [OF assms(1) Some] none]
    show ?thesis using Some ok(1,2) none by (simp add: connect_peer_def stats_insert_def conn_insert_eq of)
  qed (use none in \<open>simp add: connect_peer_def conn_insert_eq of\<close>)
  moreover have "md_inv ?m"
  proof (rule conn_change_inv [OF assms(1), where c = c and x = "Some (conn_state_new c f)" and f = ?f])
    show "conn_get ?m = (conn_get m)(c \<mapsto> conn_state_new c f)"
      using conn_get_update [where m = "m\<lparr>md_torrents := ?tor\<rparr>" and c = c] by (simp add: of)
    show "\<forall>h. map_of (md_conns ?m) h \<noteq> Some []" using md_invD(4) [OF assms(1)] by (simp add: model_simps)
    show "\<And>t. map_of (md_torrents m) (ci_info_hash c) = Some t \<Longrightarrow> torrent_ok ((conn_get m)(c \<mapsto> conn_state_new c f)) (ci_info_hash c) (?f t)"
      using torrent_ok_connect(3) [OF md_invD(2) [OF assms(1)] none] by simp
  qed (auto simp: conn_state_new_def model_simps split: option.split)
  ultimately show ?thesis by (simp add: md_exec_def)
qed

lemma torrent_ok_disconnect:
  assumes "torrent_ok conns (ci_info_hash c) t"
  shows "torrent_ok (conns(c := None)) (ci_info_hash c)
    (t\<lparr>tr_peer_pieces := AList.delete (ci_conn_pair c) (tr_peer_pieces t), tr_peer_stats := tr_peer_stats t - {ci_conn_pair c}\<rparr>)"
proof -
  have "{p. conns (conn_id_of (ci_info_hash c) p) \<noteq> None} - {ci_conn_pair c} =
      {p. (conns(c := None)) (conn_id_of (ci_info_hash c) p) \<noteq> None}"
    by auto
  with assms show ?thesis by (auto simp: torrent_ok_def model_simps split: if_splits)
qed

lemma disconnect_step:
  assumes "md_inv m" "md_adm m (OpDisconnect c)"
  shows "\<exists>m'. md_exec (OpDisconnect c) m = Some m' \<and> md_inv m'"
proof -
  let ?f = "\<lambda>t. t\<lparr>tr_peer_pieces := AList.delete (ci_conn_pair c) (tr_peer_pieces t), tr_peer_stats := tr_peer_stats t - {ci_conn_pair c}\<rparr>"
  let ?tor = "case map_of (md_torrents m) (ci_info_hash c) of None \<Rightarrow> md_torrents m
    | Some t \<Rightarrow> AList.update (ci_info_hash c) (?f t) (md_torrents m)"
  obtain r m' where m': "conn_remove (m\<lparr>md_torrents := ?tor\<rparr>) c = (r, m')" by fastforce
  note facts = conn_remove_facts [OF m']
  have r: "r" using facts(1) assms(2) by (simp add: conn_contains_def)
  have stats: "map_of (md_torrents m) (ci_info_hash c) = Some t \<Longrightarrow> ci_conn_pair c \<in> tr_peer_stats t" for t
    using md_invD(2) [OF assms(1), of "ci_info_hash c" t] assms(2) by (simp add: torrent_ok_def conn_contains_def)
  have "disconnect_peer m c = Some m'"
    using m' r stats
    by (cases "map_of (md_torrents m) (ci_info_hash c)")
      (auto simp: disconnect_peer_def peer_pieces_remove_def stats_remove_def)
  moreover have "md_inv m'"
  proof (rule conn_change_inv [OF assms(1), where c = c and x = None and f = ?f])
    show "\<forall>h. map_of (md_conns m') h \<noteq> Some []"
      using conns_remove_nonempty [OF m'] md_invD(4) [OF assms(1)] by simp
    show "\<And>t. map_of (md_torrents m) (ci_info_hash c) = Some t \<Longrightarrow> torrent_ok ((conn_get m)(c := None)) (ci_info_hash c) (?f t)"
      using torrent_ok_disconnect md_invD(2) [OF assms(1)] by blast
  qed (use facts in \<open>auto simp: model_simps split: option.split\<close>)
  ultimately show ?thesis by (simp add: md_exec_def)
qed

lemmas md_op_steps = new_torrent_step init_torrent_step remove_torrent_step peers_step connect_step
  disconnect_step set_flag_step set_self_piece_step init_peer_step peer_piece_step

interpretation md: guarded_machine md_exec md_inv md_adm
proof
  fix m :: "'e model" and p :: "'e md_op"
  assume "md_inv m" "md_adm m p"
  then show "\<exists>m'. md_exec p m = Some m' \<and> md_inv m'" by (cases p) (simp_all only: md_op_steps)
qed

section \<open>What a subscriber sees\<close>

text \<open>
  The state a subscriber reconstructs from the updates alone: the open and the initialised torrents, the
  connections with their flags, and the connections whose pieces are known.
\<close>

record 'e view =
  vw_open :: "info_hash set"
  vw_ready :: "info_hash set"
  vw_conns :: "'e conn_id \<Rightarrow> conn_flags option"
  vw_pieces :: "'e conn_id set"

definition view_empty :: "'e view" where
  "view_empty = \<lparr>vw_open = {}, vw_ready = {}, vw_conns = Map.empty, vw_pieces = {}\<rparr>"

fun observe :: "'e model_update \<Rightarrow> 'e view \<Rightarrow> 'e view" where
  "observe (NewTorrent h) v = v\<lparr>vw_open := insert h (vw_open v)\<rparr>"
| "observe (InitTorrent h) v = v\<lparr>vw_ready := insert h (vw_ready v)\<rparr>"
| "observe (RemoveTorrent h) v = v\<lparr>vw_open := vw_open v - {h}, vw_ready := vw_ready v - {h},
     vw_pieces := {c \<in> vw_pieces v. ci_info_hash c \<noteq> h}\<rparr>"
| "observe (ConnectPeer c) v = v\<lparr>vw_conns := (vw_conns v)(c \<mapsto> new_flags)\<rparr>"
| "observe (DisconnectPeer c) v = v\<lparr>vw_conns := (vw_conns v)(c := None), vw_pieces := vw_pieces v - {c}\<rparr>"
| "observe (FlagChange fl c x) v = v\<lparr>vw_conns := (vw_conns v)(c := map_option (put_flag fl x) (vw_conns v c))\<rparr>"
| "observe (InitPeer c) v = v\<lparr>vw_pieces := insert c (vw_pieces v)\<rparr>"
| "observe _ v = v"

definition pieces_known :: "'e model \<Rightarrow> 'e conn_id \<Rightarrow> bool" where
  "pieces_known m c \<longleftrightarrow> (case map_of (md_torrents m) (ci_info_hash c) of
     None \<Rightarrow> False | Some t \<Rightarrow> map_of (tr_peer_pieces t) (ci_conn_pair c) \<noteq> None)"

definition model_view :: "'e model \<Rightarrow> 'e view" where
  "model_view m = \<lparr>vw_open = dom (map_of (md_peers m)), vw_ready = dom (map_of (md_torrents m)),
     vw_conns = map_option cs_flags \<circ> conn_get m, vw_pieces = {c. pieces_known m c}\<rparr>"

text \<open>Two models that answer every lookup alike.\<close>

definition same_lookups :: "'e model \<Rightarrow> 'e model \<Rightarrow> bool" where
  "same_lookups m m' \<longleftrightarrow> map_of (md_peers m') = map_of (md_peers m) \<and> conn_get m' = conn_get m \<and>
     map_of (md_torrents m') = map_of (md_torrents m)"

text \<open>
  A call that reports a change sends one update, which describes it; any other call sends nothing and changes
  nothing. Only dropping a peer is silent.
\<close>

definition reported :: "bool \<Rightarrow> bool option \<Rightarrow> 'e model \<Rightarrow> 'e model \<Rightarrow> bool" where
  "reported silent r m m' \<longleftrightarrow>
     (\<exists>us. md_sent m' = md_sent m @ us \<and> model_view m' = fold observe us (model_view m) \<and>
       (if r = Some True then length us = (if silent then 0 else 1) else us = [] \<and> same_lookups m m'))"

text \<open>Torrents and connections are filed under their own identity.\<close>

definition filed :: "'e model \<Rightarrow> bool" where
  "filed m \<longleftrightarrow> (\<forall>h t. map_of (md_torrents m) h = Some t \<longrightarrow> tr_info_hash t = h) \<and>
     (\<forall>c s. conn_get m c = Some s \<longrightarrow> cs_conn_id s = c)"

lemma same_lookups_refl [simp]: "same_lookups m m"
  by (simp add: same_lookups_def)

lemma same_view: "same_lookups m m' \<Longrightarrow> model_view m' = model_view m"
  by (simp add: same_lookups_def model_view_def pieces_known_def)

lemma reported_same:
  "same_lookups m m' \<Longrightarrow> md_sent m' = md_sent m \<Longrightarrow> r \<noteq> Some True \<Longrightarrow> reported silent r m m'"
  using same_view [of m m'] by (auto simp: reported_def)

lemma reported_one:
  "md_sent m' = md_sent m @ [u] \<Longrightarrow> model_view m' = observe u (model_view m) \<Longrightarrow> reported False (Some True) m m'"
  by (auto simp: reported_def intro!: exI [of _ "[u]"])

lemma reported_silent:
  "md_sent m' = md_sent m \<Longrightarrow> model_view m' = model_view m \<Longrightarrow> reported True (Some True) m m'"
  by (simp add: reported_def)

lemma view_torrents:
  assumes "map_of (md_torrents m) h = Some t"
    and "\<And>p. (map_of (tr_peer_pieces t') p = None) = (map_of (tr_peer_pieces t) p = None)"
  shows "model_view (m\<lparr>md_torrents := AList.update h t' (md_torrents m)\<rparr>) = model_view m"
proof -
  have "pieces_known (m\<lparr>md_torrents := AList.update h t' (md_torrents m)\<rparr>) = pieces_known m"
    by (rule ext) (use assms in \<open>simp add: pieces_known_def model_simps\<close>)
  with assms(1) show ?thesis by (auto simp: model_view_def model_simps)
qed

lemma model_view_send [simp]: "model_view (md_send u m) = model_view m"
  by (simp add: model_view_def pieces_known_def)

lemma self_update [simp]: "map_of xs k = Some v \<Longrightarrow> map_of (AList.update k v xs) = map_of xs"
  by (auto simp: model_simps)

lemma alist_update_same: "map_of xs k = Some v \<Longrightarrow> AList.update k v xs = xs"
  by (induction xs) (auto split: if_splits)

lemma list_update_True: "i < length xs \<Longrightarrow> xs ! i \<Longrightarrow> xs[i := True] = xs"
  using list_update_id [of xs i] by simp

section \<open>The report of every call\<close>

lemma new_torrent_reported: "new_torrent m h = Some (r, m') \<Longrightarrow> reported False (Some r) m m'"
  by (auto simp: new_torrent_def peers_insert_torrent_def rs_assert_bind model_view_def pieces_known_def model_simps
      split: option.splits if_splits intro!: reported_same reported_one)

lemma remove_torrent_reported:
  assumes "remove_torrent m h = Some (r, m')"
  shows "reported False (Some r) m m'"
proof (cases "map_of (md_peers m) h")
  case None
  with assms have *: "r = False" "m' = m\<lparr>md_torrents := AList.delete h (md_torrents m), md_peers := AList.delete h (md_peers m)\<rparr>"
    "map_of (md_torrents m) h = None"
    by (auto simp: remove_torrent_def torrents_remove_def peers_remove_torrent_def rs_assert_bind split: if_splits)
  then show ?thesis using None by (intro reported_same) (auto simp: same_lookups_def model_simps)
next
  case (Some ps)
  with assms have "r = True" "m' = md_send (RemoveTorrent h) (m\<lparr>md_torrents := AList.delete h (md_torrents m), md_peers := AList.delete h (md_peers m)\<rparr>)"
    by (auto simp: remove_torrent_def torrents_remove_def peers_remove_torrent_def)
  then show ?thesis by (auto simp: model_view_def pieces_known_def model_simps intro!: reported_one)
qed

lemma peers_insert_reported: "peers_insert m h e = (r, m') \<Longrightarrow> reported False r m m'"
  by (auto simp: peers_insert_def model_view_def pieces_known_def model_simps
      split: option.splits if_splits intro!: reported_same reported_one)

lemma peers_remove_reported:
  assumes "peers_remove m h e = (r, m')"
  shows "reported True r m m'"
proof (cases "map_of (md_peers m) h")
  case (Some ps)
  with assms have m': "r = Some (e \<in> ps)" "m' = m\<lparr>md_peers := AList.update h (ps - {e}) (md_peers m)\<rparr>"
    by (auto simp: peers_remove_def)
  show ?thesis
  proof (cases "e \<in> ps")
    case True
    with Some m' show ?thesis by (auto simp: model_view_def pieces_known_def model_simps intro!: reported_silent)
  next
    case False
    with Some m' show ?thesis by (auto simp: same_lookups_def intro!: reported_same)
  qed
qed (use assms in \<open>auto simp: peers_remove_def intro!: reported_same\<close>)

lemma init_torrent_reported:
  assumes "init_torrent m h l b = Some (r, m')"
  shows "reported False (Some r) m m'"
proof (cases "map_of (md_torrents m) h")
  case None
  with assms obtain t where t: "torrent_new h l b = Some t" "r = True"
    "m' = md_send (InitTorrent h) (m\<lparr>md_torrents := AList.update h t (md_torrents m)\<rparr>)"
    by (auto simp: init_torrent_def torrents_insert_def rs_assert_bind Option.bind_eq_Some_conv split: if_splits)
  then have "tr_peer_pieces t = []" by (auto simp: torrent_new_def rs_assert_bind split: if_splits)
  with t None show ?thesis
    by (auto simp: model_view_def pieces_known_def model_simps intro!: reported_one split: option.splits)
next
  case (Some t)
  have view: "model_view (m\<lparr>md_torrents := AList.update h (t\<lparr>tr_self_pieces := b\<rparr>) (md_torrents m)\<rparr>) = model_view m"
    by (rule view_torrents [OF Some]) simp
  have "h \<in> vw_ready (model_view m)" using Some by (auto simp: model_view_def)
  then have "model_view m = observe (InitTorrent h) (model_view m)" by (simp add: insert_absorb)
  with assms Some view show ?thesis
    by (auto simp: init_torrent_def torrents_insert_def rs_assert_bind split: if_splits intro!: reported_same reported_one)
qed

lemma set_self_piece_reported:
  assumes "set_self_piece m h i = Some (r, m')"
  shows "reported False r m m'"
proof (cases "map_of (md_torrents m) h")
  case (Some t)
  let ?t = "t\<lparr>tr_self_pieces := (tr_self_pieces t)[i := True]\<rparr>"
  have view: "model_view (m\<lparr>md_torrents := AList.update h ?t (md_torrents m)\<rparr>) = model_view m"
    by (rule view_torrents [OF Some]) simp
  have i: "i < length (tr_self_pieces t)" using assms Some by (cases "i < length (tr_self_pieces t)") (auto simp: set_self_piece_def)
  have "tr_self_pieces t ! i \<Longrightarrow> ?t = t" using i by (simp add: list_update_True)
  with assms Some view i show ?thesis
    by (auto simp: set_self_piece_def same_lookups_def Let_def split: if_splits intro!: reported_same reported_one)
qed (use assms in \<open>auto simp: set_self_piece_def intro!: reported_same\<close>)

lemma peer_insert_reported:
  assumes "peer_insert m c b = Some (r, m')" "filed m"
  shows "reported False r m m'"
proof (cases "map_of (md_torrents m) (ci_info_hash c)")
  case (Some t)
  let ?t = "t\<lparr>tr_peer_pieces := AList.update (ci_conn_pair c) b (tr_peer_pieces t)\<rparr>"
  let ?m = "m\<lparr>md_torrents := AList.update (ci_info_hash c) ?t (md_torrents m)\<rparr>"
  have hash: "tr_info_hash t = ci_info_hash c" using assms(2) Some by (simp add: filed_def)
  have "pieces_known ?m d \<longleftrightarrow> d = c \<or> pieces_known m d" for d
    using Some by (auto simp: pieces_known_def model_simps conn_id_eq_iff)
  with Some have "model_view ?m = observe (InitPeer c) (model_view m)"
    by (auto simp: model_view_def model_simps)
  with assms(1) Some hash show ?thesis
    by (auto simp: peer_insert_def rs_assert_bind split: if_splits intro!: reported_same reported_one)
qed (use assms in \<open>auto simp: peer_insert_def intro!: reported_same\<close>)

lemma set_peer_piece_reported:
  assumes "set_peer_piece m c i = Some (r, m')"
  shows "reported False r m m'"
proof (cases "map_of (md_torrents m) (ci_info_hash c)")
  case t: (Some t)
  show ?thesis
  proof (cases "map_of (tr_peer_pieces t) (ci_conn_pair c)")
    case (Some b)
    let ?t = "t\<lparr>tr_peer_pieces := AList.update (ci_conn_pair c) (b[i := True]) (tr_peer_pieces t)\<rparr>"
    let ?m = "m\<lparr>md_torrents := AList.update (ci_info_hash c) ?t (md_torrents m)\<rparr>"
    have view: "model_view ?m = model_view m"
      by (rule view_torrents [OF t]) (use Some in \<open>simp add: model_simps\<close>)
    have i: "i < length b" using assms t Some by (cases "i < length b") (auto simp: set_peer_piece_def)
    have same: "b ! i \<Longrightarrow> map_of (md_torrents ?m) = map_of (md_torrents m)"
    proof -
      assume "b ! i"
      then have "b[i := True] = b" using i by (simp add: list_update_True)
      then have "AList.update (ci_conn_pair c) (b[i := True]) (tr_peer_pieces t) = tr_peer_pieces t"
        using Some by (simp add: alist_update_same)
      then show ?thesis using t by simp
    qed
    show ?thesis
    proof (cases "b ! i")
      case True
      with assms t Some i same show ?thesis
        by (auto simp: set_peer_piece_def same_lookups_def Let_def intro!: reported_same)
    next
      case False
      with assms t Some i view show ?thesis by (auto simp: set_peer_piece_def Let_def intro!: reported_one)
    qed
  qed (use assms t in \<open>auto simp: set_peer_piece_def intro!: reported_same\<close>)
qed (use assms in \<open>auto simp: set_peer_piece_def intro!: reported_same\<close>)

lemma connect_facts:
  assumes "connect_peer m c f = Some m'"
  shows "conn_get m' = (conn_get m)(c \<mapsto> conn_state_new c f)" "md_peers m' = md_peers m"
    and "md_sent m' = md_sent m @ [ConnectPeer c]"
    and "map_of (md_torrents m') = (case map_of (md_torrents m) (ci_info_hash c) of None \<Rightarrow> map_of (md_torrents m)
      | Some t \<Rightarrow> (map_of (md_torrents m))(ci_info_hash c \<mapsto> t\<lparr>tr_peer_stats := insert (ci_conn_pair c) (tr_peer_stats t)\<rparr>))"
proof -
  have of: "conns_of (m\<lparr>md_torrents := y\<rparr>) h = conns_of m h" for y h by (simp add: conns_of_def)
  have get: "conn_get (m\<lparr>md_torrents := y, md_conns := AList.update (ci_info_hash c)
       (AList.update (ci_conn_pair c) s (conns_of m (ci_info_hash c))) (md_conns m)\<rparr>) = (conn_get m)(c \<mapsto> s)" for y s
    using conn_get_update [where m = "m\<lparr>md_torrents := y\<rparr>" and c = c and s = s] by (simp add: of)
  show "conn_get m' = (conn_get m)(c \<mapsto> conn_state_new c f)" "md_peers m' = md_peers m"
    "md_sent m' = md_sent m @ [ConnectPeer c]"
    "map_of (md_torrents m') = (case map_of (md_torrents m) (ci_info_hash c) of None \<Rightarrow> map_of (md_torrents m)
      | Some t \<Rightarrow> (map_of (md_torrents m))(ci_info_hash c \<mapsto> t\<lparr>tr_peer_stats := insert (ci_conn_pair c) (tr_peer_stats t)\<rparr>))"
    using assms get conn_get_update [where m = m and c = c]
    by (auto simp: connect_peer_def stats_insert_def conn_insert_eq of rs_assert_bind model_simps
        split: option.splits if_splits)
qed

lemma disconnect_facts:
  assumes "disconnect_peer m c = Some m'"
  shows "conn_get m' = (conn_get m)(c := None)" "md_peers m' = md_peers m"
    and "md_sent m' = md_sent m @ [DisconnectPeer c]"
    and "map_of (md_torrents m') = (case map_of (md_torrents m) (ci_info_hash c) of None \<Rightarrow> map_of (md_torrents m)
      | Some t \<Rightarrow> (map_of (md_torrents m))(ci_info_hash c \<mapsto>
          t\<lparr>tr_peer_pieces := AList.delete (ci_conn_pair c) (tr_peer_pieces t), tr_peer_stats := tr_peer_stats t - {ci_conn_pair c}\<rparr>))"
proof -
  have rem: "conn_remove m0 c = (r, m1) \<Longrightarrow> rs_assert r \<bind> (\<lambda>_. Some m1) = Some m' \<Longrightarrow>
      conn_get m' = (conn_get m0)(c := None) \<and> md_peers m' = md_peers m0 \<and> md_torrents m' = md_torrents m0 \<and>
      md_sent m' = md_sent m0 @ [DisconnectPeer c]" for m0 r m1
    using conn_remove_facts [of m0 c r m1] by (auto simp: rs_assert_bind split: if_splits)
  show "conn_get m' = (conn_get m)(c := None)" "md_peers m' = md_peers m"
    "md_sent m' = md_sent m @ [DisconnectPeer c]"
    "map_of (md_torrents m') = (case map_of (md_torrents m) (ci_info_hash c) of None \<Rightarrow> map_of (md_torrents m)
      | Some t \<Rightarrow> (map_of (md_torrents m))(ci_info_hash c \<mapsto>
          t\<lparr>tr_peer_pieces := AList.delete (ci_conn_pair c) (tr_peer_pieces t), tr_peer_stats := tr_peer_stats t - {ci_conn_pair c}\<rparr>))"
    using assms
    by (auto simp: disconnect_peer_def peer_pieces_remove_def stats_remove_def model_simps
        split: option.splits prod.splits if_splits dest!: rem elim!: bind_eq_SomeE)
qed

lemma connect_reported:
  assumes "connect_peer m c f = Some m'"
  shows "reported False (Some True) m m'"
proof -
  note facts = connect_facts [OF assms]
  have "pieces_known m' d = pieces_known m d" for d
    by (simp add: pieces_known_def facts(4) split: option.split)
  moreover have "dom (map_of (md_torrents m')) = dom (map_of (md_torrents m))"
    unfolding facts(4) by (auto split: option.splits)
  ultimately have "model_view m' = observe (ConnectPeer c) (model_view m)"
    by (auto simp: model_view_def facts(1,2) conn_state_new_def)
  then show ?thesis by (rule reported_one [OF facts(3)])
qed

lemma disconnect_reported:
  assumes "disconnect_peer m c = Some m'"
  shows "reported False (Some True) m m'"
proof -
  note facts = disconnect_facts [OF assms]
  have "pieces_known m' d \<longleftrightarrow> pieces_known m d \<and> d \<noteq> c" for d
    by (auto simp: pieces_known_def facts(4) conn_id_eq_iff model_simps split: option.splits)
  moreover have "dom (map_of (md_torrents m')) = dom (map_of (md_torrents m))"
    unfolding facts(4) by (auto split: option.splits)
  ultimately have "model_view m' = observe (DisconnectPeer c) (model_view m)"
    by (auto simp: model_view_def facts(1,2))
  then show ?thesis by (rule reported_one [OF facts(3)])
qed

lemma put_same_flag: "get_flag fl f = v \<Longrightarrow> put_flag fl v f = f"
  by (cases fl) auto

lemma conn_set_reported:
  assumes "conn_set m c fl v = (r, m')" "filed m"
  shows "reported False r m m'"
proof (cases "conn_get m c")
  case (Some s)
  let ?s = "s\<lparr>cs_flags := put_flag fl v (cs_flags s)\<rparr>"
  let ?m = "m\<lparr>md_conns := AList.update (ci_info_hash c) (AList.update (ci_conn_pair c) ?s (conns_of m (ci_info_hash c))) (md_conns m)\<rparr>"
  have id: "cs_conn_id s = c" using assms(2) Some by (simp add: filed_def)
  show ?thesis
  proof (cases "get_flag fl (cs_flags s) = v")
    case True
    then have "same_lookups m ?m" using Some by (auto simp: same_lookups_def conn_get_update put_same_flag)
    moreover have "r = Some False" "m' = ?m" using True assms(1) Some by (auto simp: conn_set_eq Let_def)
    ultimately show ?thesis by (simp add: reported_same)
  next
    case False
    have "model_view ?m = observe (FlagChange fl c v) (model_view m)"
      using Some by (auto simp: model_view_def pieces_known_def conn_get_update)
    moreover have "r = Some True" "m' = md_send (FlagChange fl c v) ?m" using False assms(1) Some id by (auto simp: conn_set_eq Let_def)
    ultimately show ?thesis by (simp add: reported_one)
  qed
qed (use assms in \<open>auto simp: conn_set_eq intro!: reported_same\<close>)

section \<open>Filing\<close>

lemma filed_new: "filed md_new"
  by (simp add: filed_def md_new_def conn_get_def)

lemma filed_cong:
  assumes "filed m" "conn_get m' = conn_get m"
    and "\<And>h t. map_of (md_torrents m') h = Some t \<Longrightarrow> \<exists>u. map_of (md_torrents m) h = Some u \<and> tr_info_hash t = tr_info_hash u"
  shows "filed m'"
  using assms by (fastforce simp: filed_def)

lemma filed_conn:
  assumes "filed m" "conn_get m' = (conn_get m)(c := x)" "\<forall>s. x = Some s \<longrightarrow> cs_conn_id s = c"
    and "map_of (md_torrents m') = (case map_of (md_torrents m) h of None \<Rightarrow> map_of (md_torrents m)
      | Some t \<Rightarrow> (map_of (md_torrents m))(h \<mapsto> g t))" "\<And>t. tr_info_hash (g t) = tr_info_hash t"
  shows "filed m'"
  using assms by (auto simp: filed_def split: option.splits if_splits)

lemma filed_call:
  assumes "filed m" "md_call p m = Some (r, m')"
  shows "filed m'"
proof (cases p)
  case (OpInitTorrent h l b)
  with assms show ?thesis
    by (auto simp: filed_def init_torrent_def torrents_insert_def torrent_new_def rs_assert_bind model_simps split: option.splits if_splits)
next
  case (OpConnect c f)
  with assms have *: "connect_peer m c f = Some m'" by auto
  show ?thesis
    by (rule filed_conn [OF assms(1) connect_facts(1) [OF *] _ connect_facts(4) [OF *]]) (auto simp: conn_state_new_def)
next
  case (OpDisconnect c)
  with assms have *: "disconnect_peer m c = Some m'" by auto
  show ?thesis by (rule filed_conn [OF assms(1) disconnect_facts(1) [OF *] _ disconnect_facts(4) [OF *]]) auto
next
  case (OpSetFlag c fl v)
  with assms show ?thesis by (auto simp: filed_def conn_set_eq Let_def conn_get_update split: option.splits if_splits)
qed (use assms in \<open>auto simp: new_torrent_def peers_insert_torrent_def remove_torrent_def torrents_remove_def
      peers_remove_torrent_def peers_insert_def peers_remove_def set_self_piece_def peer_insert_def set_peer_piece_def
      rs_assert_bind rs_index_def model_simps Let_def intro!: filed_cong [OF assms(1)]
      split: option.splits prod.splits bool.splits if_splits\<close>)

fun silent_op :: "'e md_op \<Rightarrow> bool" where
  "silent_op (OpDropPeer _ _) = True"
| "silent_op _ = False"

lemma call_reported:
  assumes "filed m" "md_call p m = Some (r, m')"
  shows "reported (silent_op p) r m m'"
  using assms
  by (cases p) (auto intro: new_torrent_reported remove_torrent_reported init_torrent_reported peers_insert_reported
      peers_remove_reported connect_reported disconnect_reported conn_set_reported set_self_piece_reported
      peer_insert_reported set_peer_piece_reported)

lemma run_reported:
  "filed m \<Longrightarrow> run_ops md_exec ps m = Some m' \<Longrightarrow>
     filed m' \<and> (\<exists>us. md_sent m' = md_sent m @ us \<and> model_view m' = fold observe us (model_view m))"
proof (induction ps arbitrary: m)
  case (Cons p ps)
  obtain m1 where exec: "md_exec p m = Some m1" and rest: "run_ops md_exec ps m1 = Some m'"
    using Cons.prems(2) by (auto split: bind_splits)
  obtain r where call: "md_call p m = Some (r, m1)" using exec by (auto simp: md_exec_def)
  obtain us where us: "md_sent m1 = md_sent m @ us" "model_view m1 = fold observe us (model_view m)"
    using call_reported [OF Cons.prems(1) call] by (auto simp: reported_def)
  from Cons.IH [OF filed_call [OF Cons.prems(1) call] rest] us show ?case by auto
qed simp

lemma model_view_new: "model_view md_new = view_empty"
  by (auto simp: model_view_def md_new_def view_empty_def pieces_known_def conn_get_def)

section \<open>Layouts\<close>

text \<open>The model's torrents have these layouts.\<close>

definition layouts_are :: "(info_hash \<Rightarrow> layout) \<Rightarrow> 'e model \<Rightarrow> bool" where
  "layouts_are lay m \<longleftrightarrow> (\<forall>h t. map_of (md_torrents m) h = Some t \<longrightarrow> tr_layout t = lay h)"

lemma layouts_conn:
  assumes "layouts_are lay m"
    and "map_of (md_torrents m') = (case map_of (md_torrents m) h of None \<Rightarrow> map_of (md_torrents m)
      | Some t \<Rightarrow> (map_of (md_torrents m))(h \<mapsto> g t))" "\<And>t. tr_layout (g t) = tr_layout t"
  shows "layouts_are lay m'"
  using assms by (auto simp: layouts_are_def split: option.splits if_splits)

fun init_with :: "(info_hash \<Rightarrow> layout) \<Rightarrow> 'e md_op \<Rightarrow> bool" where
  "init_with lay (OpInitTorrent h l b) \<longleftrightarrow> l = lay h"
| "init_with lay _ \<longleftrightarrow> True"

lemma layouts_call:
  assumes "layouts_are lay m" "init_with lay p" "md_call p m = Some (r, m')"
  shows "layouts_are lay m'"
proof (cases p)
  case (OpInitTorrent h l b)
  with assms show ?thesis
    by (auto simp: layouts_are_def init_torrent_def torrents_insert_def torrent_new_def rs_assert_bind model_simps
        split: option.splits if_splits)
next
  case (OpConnect c f)
  with assms have *: "connect_peer m c f = Some m'" by auto
  show ?thesis by (rule layouts_conn [OF assms(1) connect_facts(4) [OF *]]) simp
next
  case (OpDisconnect c)
  with assms have *: "disconnect_peer m c = Some m'" by auto
  show ?thesis by (rule layouts_conn [OF assms(1) disconnect_facts(4) [OF *]]) simp
next
  case (OpSetFlag c fl v)
  with assms show ?thesis by (auto simp: layouts_are_def conn_set_eq Let_def split: option.splits if_splits)
qed (use assms in \<open>auto simp: layouts_are_def new_torrent_def peers_insert_torrent_def remove_torrent_def torrents_remove_def
      peers_remove_torrent_def peers_insert_def peers_remove_def set_self_piece_def peer_insert_def set_peer_piece_def
      rs_assert_bind rs_index_def model_simps Let_def split: option.splits prod.splits bool.splits if_splits\<close>)

lemma model_step:
  assumes "md_inv m" "layouts_are lay m" "md_adm m p" "init_with lay p"
  shows "\<exists>r m'. md_call p m = Some (r, m') \<and> md_inv m' \<and> layouts_are lay m'"
proof -
  obtain m' where m': "md_exec p m = Some m'" "md_inv m'" using md.step_guarded [OF assms(1,3)] by blast
  then obtain r where "md_call p m = Some (r, m')" by (auto simp: md_exec_def)
  with m'(2) layouts_call [OF assms(2,4)] show ?thesis by blast
qed

text \<open>What a call does to a connection, unless it opens or closes it.\<close>

fun touches :: "'e md_op \<Rightarrow> 'e conn_id \<Rightarrow> bool" where
  "touches (OpConnect d _) c \<longleftrightarrow> d = c"
| "touches (OpDisconnect d) c \<longleftrightarrow> d = c"
| "touches _ c \<longleftrightarrow> False"

lemma call_keeps_conn:
  assumes "md_call p m = Some (r, m')" "\<not> touches p c"
  shows "map_option (\<lambda>s. (cs_conn_id s, cs_peer_features s)) (conn_get m' c) = map_option (\<lambda>s. (cs_conn_id s, cs_peer_features s)) (conn_get m c)"
proof (cases p)
  case (OpConnect d f)
  with assms have "connect_peer m d f = Some m'" by auto
  from connect_facts(1) [OF this] OpConnect assms(2) show ?thesis by simp
next
  case (OpDisconnect d)
  with assms have "disconnect_peer m d = Some m'" by auto
  from disconnect_facts(1) [OF this] OpDisconnect assms(2) show ?thesis by simp
next
  case (OpSetFlag d fl v)
  with assms show ?thesis by (auto simp: conn_set_eq Let_def conn_get_update split: option.splits if_splits)
qed (use assms in \<open>auto simp: new_torrent_def init_torrent_def torrents_insert_def peers_insert_torrent_def remove_torrent_def torrents_remove_def
      peers_remove_torrent_def peers_insert_def peers_remove_def set_self_piece_def peer_insert_def set_peer_piece_def torrent_new_def
      rs_assert_bind rs_index_def Let_def split: option.splits prod.splits bool.splits if_splits\<close>)

section \<open>Properties\<close>

definition hash_ex :: info_hash where
  "hash_ex = replicate 20 7"

definition layout_ex :: layout where
  "layout_ex = \<lparr>lsize = 5, lnum_pieces = 2, lpiece_size = 3, llast_piece_size = 2\<rparr>"

definition conn_ex :: "nat conn_id" where
  "conn_ex = \<lparr>ci_info_hash = hash_ex, ci_conn_pair = (1, 2)\<rparr>"

definition features_ex :: features where
  "features_ex = \<lparr>dht = True, fast = True, extension = False\<rparr>"

definition ops_ex :: "nat md_op list" where
  "ops_ex = [OpNewTorrent hash_ex, OpInitTorrent hash_ex layout_ex [True, False], OpAddPeer hash_ex 2,
     OpConnect conn_ex features_ex, OpInitPeer conn_ex [False, True], OpSetFlag conn_ex SelfInterestedF True,
     OpPeerPiece conn_ex 0, OpSelfPiece hash_ex 1, OpDisconnect conn_ex]"

lemmas ops_ex_simps = ops_ex_def conn_ex_def layout_ex_def md_new_def md_exec_def new_torrent_def peers_insert_torrent_def
  init_torrent_def contains_torrent_def torrents_insert_def torrent_new_def peers_insert_def connect_peer_def stats_insert_def
  conn_insert_def conn_state_new_def new_flags_def conn_set_def peer_insert_def set_peer_piece_def set_self_piece_def disconnect_peer_def
  peer_pieces_remove_def stats_remove_def conn_remove_def md_send_def conns_of_def conn_contains_def conn_get_def conn_id_of_def
  Let_def

lemma ops_ex_adm: "admissible_run md_exec md_adm ops_ex md_new"
  by (simp add: ops_ex_simps)

text \<open>
  C11. As long as the callers keep their obligations (connect what is not connected, disconnect what is, initialise an
  open torrent before its first connection and with bit fields of its size), no sequence of calls makes the model panic,
  and torrents, connections, piece tables and statistics stay consistent.
\<close>

theorem model_stays_consistent:
  assumes "admissible_run md_exec md_adm ps md_new"
  shows "\<exists>m. run_ops md_exec ps md_new = Some m \<and> md_inv m"
  using md.run_guarded [OF md_inv_new assms] .

theorem model_stays_consistent_witness:
  "admissible_run md_exec md_adm ops_ex md_new \<and> (\<exists>m. run_ops md_exec ops_ex md_new = Some m \<and> md_inv m)"
  using model_stays_consistent [OF ops_ex_adm] ops_ex_adm by simp



text \<open>
  Every call reports a change exactly when there is one: it sends one update when it returns true, and otherwise
  sends none and leaves every lookup as it was. Dropping a peer is the one change that is not broadcast.
\<close>

theorem changes_are_reported:
  assumes "run_ops md_exec ps md_new = Some m" "md_call p m = Some (r, m')"
  shows "(\<exists>us. md_sent m' = md_sent m @ us \<and> length us = (if r = Some True \<and> \<not> silent_op p then 1 else 0)) \<and>
    (r \<noteq> Some True \<longrightarrow> same_lookups m m')"
proof -
  have "filed m" using run_reported [OF filed_new assms(1)] by simp
  from call_reported [OF this assms(2)] show ?thesis by (auto simp: reported_def split: if_splits)
qed

theorem changes_are_reported_witness:
  "\<exists>m m' us. run_ops md_exec [OpNewTorrent hash_ex] (md_new :: nat model) = Some m \<and>
     md_call (OpAddPeer hash_ex 2) m = Some (Some True, m') \<and> md_sent m' = md_sent m @ us \<and> length us = 1"
proof -
  let ?m = "\<lparr>md_peers = [(hash_ex, {})], md_conns = [], md_torrents = [], md_sent = [NewTorrent hash_ex]\<rparr> :: nat model"
  let ?m' = "md_send (NewPeer hash_ex 2) (?m\<lparr>md_peers := [(hash_ex, {2})]\<rparr>)"
  have run: "run_ops md_exec [OpNewTorrent hash_ex] md_new = Some ?m" by (simp add: ops_ex_simps)
  have call: "md_call (OpAddPeer hash_ex 2) ?m = Some (Some True, ?m')" by (simp add: peers_insert_def)
  from changes_are_reported [OF run call] run call show ?thesis
    unfolding silent_op.simps by (metis (full_types))
qed

text \<open>
  C32. In the trackerless order, where a peer is connected before the torrent is initialised from it, closing that
  connection panics: initialisation creates no statistics for the connection, and disconnecting asserts that there are.
\<close>

theorem disconnect_after_late_init_panics:
  assumes "lnum_pieces l = length b"
  shows "\<exists>m. run_ops md_exec [OpNewTorrent (ci_info_hash c), OpConnect c f, OpInitTorrent (ci_info_hash c) l b] md_new = Some m \<and>
    conn_contains m c \<and> disconnect_peer m c = None"
  using assms by (simp add: ops_ex_simps)

theorem disconnect_after_late_init_panics_witness:
  "\<exists>m. run_ops md_exec [OpNewTorrent hash_ex, OpConnect conn_ex features_ex, OpInitTorrent hash_ex layout_ex [False, False]] md_new = Some m \<and>
    conn_contains m conn_ex \<and> disconnect_peer m conn_ex = None"
  using disconnect_after_late_init_panics [of layout_ex "[False, False]" conn_ex features_ex]
  by (simp add: layout_ex_def conn_ex_def)

end
