(* ===== verification/Vec_List.thy ===== *)
theory Vec_List
  imports Prelude
begin

text \<open>
  The linked list in a vector of \<^verbatim>\<open>rust/g1/base/src/collections/vec_list.rs\<close>: the nodes
  live in a \<^verbatim>\<open>Vec\<close>, two circular doubly linked lists run through them (the used nodes and
  the free ones), and a cursor is the index of a node.

  The low-level list functions and every operation of \<^verbatim>\<open>VecList\<close> are modelled on the
  vector itself, index by index. The contract is the locale \<open>cursor_list\<close> at the end: seen from
  outside, the structure is a list of pairs (cursor, value), and the operations are the obvious
  ones on that list. The interpretation proves that the pointer structure implements it, so no
  operation on a live cursor panics.
\<close>

section \<open>State\<close>

record 'a vnode =
  nvalue :: "'a option"
  nprev :: nat
  nnext :: nat

record 'a vec_list =
  nodes :: "'a vnode list"
  vlen :: nat
  used :: "nat option"
  free :: "nat option"

type_synonym cursor = nat

definition usize_max :: nat where
  "usize_max = 2 ^ 64 - 1"

definition node_new :: "'a \<Rightarrow> 'a vnode" where
  "node_new v = \<lparr>nvalue = Some v, nprev = usize_max, nnext = usize_max\<rparr>"

definition is_free :: "'a vnode \<Rightarrow> bool" where
  "is_free n \<longleftrightarrow> nvalue n = None"

definition node_assign :: "'a vnode \<Rightarrow> 'a \<Rightarrow> 'a vnode option" where
  "node_assign n v = do {
     rs_assert (is_free n);
     Some (n\<lparr>nvalue := Some v\<rparr>)
   }"

section \<open>Circular doubly linked lists in a vector\<close>

definition list_link :: "'a vnode list \<Rightarrow> nat \<Rightarrow> nat \<Rightarrow> 'a vnode list option" where
  "list_link ns i j = do {
     ni \<leftarrow> rs_index ns i;
     let ns = ns[i := ni\<lparr>nnext := j\<rparr>];
     nj \<leftarrow> rs_index ns j;
     Some (ns[j := nj\<lparr>nprev := i\<rparr>])
   }"

definition list_is_single :: "'a vnode list \<Rightarrow> nat \<Rightarrow> bool option" where
  "list_is_single ns i = do {
     n \<leftarrow> rs_index ns i;
     Some (nprev n = i \<and> nnext n = i)
   }"

definition list_insert_prev :: "'a vnode list \<Rightarrow> nat \<Rightarrow> nat \<Rightarrow> 'a vnode list option" where
  "list_insert_prev ns target source = do {
     n \<leftarrow> rs_index ns target;
     ns \<leftarrow> list_link ns (nprev n) source;
     list_link ns source target
   }"

definition list_insert_next :: "'a vnode list \<Rightarrow> nat \<Rightarrow> nat \<Rightarrow> 'a vnode list option" where
  "list_insert_next ns target source = do {
     n \<leftarrow> rs_index ns target;
     ns \<leftarrow> list_link ns source (nnext n);
     list_link ns target source
   }"

definition list_remove :: "'a vnode list \<Rightarrow> nat \<Rightarrow> 'a vnode list option" where
  "list_remove ns target = do {
     n \<leftarrow> rs_index ns target;
     list_link ns (nprev n) (nnext n)
   }"

section \<open>Operations\<close>

definition vl_new :: "'a vec_list" where
  "vl_new = \<lparr>nodes = [], vlen = 0, used = None, free = None\<rparr>"

definition vl_is_empty :: "'a vec_list \<Rightarrow> bool" where
  "vl_is_empty l \<longleftrightarrow> vlen l = 0"

definition is_null :: "'a vec_list \<Rightarrow> cursor \<Rightarrow> bool" where
  "is_null l c = (if c < length (nodes l) then is_free (nodes l ! c) else True)"

definition cursor_front :: "'a vec_list \<Rightarrow> cursor option" where
  "cursor_front l = used l"

definition cursor_back :: "'a vec_list \<Rightarrow> cursor option option" where
  "cursor_back l =
     (case used l of
        None \<Rightarrow> Some None
      | Some u \<Rightarrow> do { n \<leftarrow> rs_index (nodes l) u; Some (Some (nprev n)) })"

definition get_impl :: "'a vec_list \<Rightarrow> cursor \<Rightarrow> 'a option" where
  "get_impl l c = do { n \<leftarrow> rs_index (nodes l) c; nvalue n }"

definition set_impl :: "'a vec_list \<Rightarrow> cursor \<Rightarrow> 'a \<Rightarrow> 'a vec_list option" where
  "set_impl l c v = do {
     n \<leftarrow> rs_index (nodes l) c;
     _ \<leftarrow> nvalue n;
     Some (l\<lparr>nodes := (nodes l)[c := n\<lparr>nvalue := Some v\<rparr>]\<rparr>)
   }"

definition vl_get :: "'a vec_list \<Rightarrow> cursor \<Rightarrow> 'a option option" where
  "vl_get l c = (if is_null l c then Some None else map_option Some (get_impl l c))"

definition vl_front :: "'a vec_list \<Rightarrow> 'a option option" where
  "vl_front l =
     (case cursor_front l of None \<Rightarrow> Some None | Some p \<Rightarrow> map_option Some (get_impl l p))"

definition vl_back :: "'a vec_list \<Rightarrow> 'a option option" where
  "vl_back l = do {
     c \<leftarrow> cursor_back l;
     (case c of None \<Rightarrow> Some None | Some p \<Rightarrow> map_option Some (get_impl l p))
   }"

definition new_node :: "'a vec_list \<Rightarrow> 'a \<Rightarrow> (nat \<times> 'a vec_list) option" where
  "new_node l v =
     (case free l of
        Some f \<Rightarrow> do {
          single \<leftarrow> list_is_single (nodes l) f;
          l \<leftarrow> (if single then Some (l\<lparr>free := None\<rparr>)
               else do {
                 n \<leftarrow> rs_index (nodes l) f;
                 ns \<leftarrow> list_remove (nodes l) f;
                 Some (l\<lparr>free := Some (nnext n), nodes := ns\<rparr>)
               });
          n \<leftarrow> rs_index (nodes l) f;
          n \<leftarrow> node_assign n v;
          Some (f, l\<lparr>nodes := (nodes l)[f := n]\<rparr>)
        }
      | None \<Rightarrow> Some (length (nodes l), l\<lparr>nodes := nodes l @ [node_new v]\<rparr>))"

definition push_front :: "'a vec_list \<Rightarrow> 'a \<Rightarrow> (cursor \<times> 'a vec_list) option" where
  "push_front l v = do {
     (new, l) \<leftarrow> new_node l v;
     ns \<leftarrow> (case used l of
             Some u \<Rightarrow> list_insert_prev (nodes l) u new
           | None \<Rightarrow> list_link (nodes l) new new);
     Some (new, l\<lparr>nodes := ns, used := Some new, vlen := vlen l + 1\<rparr>)
   }"

definition push_back :: "'a vec_list \<Rightarrow> 'a \<Rightarrow> (cursor \<times> 'a vec_list) option" where
  "push_back l v = do {
     (new, l) \<leftarrow> new_node l v;
     l \<leftarrow> (case used l of
             Some u \<Rightarrow> do {
               ns \<leftarrow> list_insert_prev (nodes l) u new;
               Some (l\<lparr>nodes := ns\<rparr>)
             }
           | None \<Rightarrow> do {
               ns \<leftarrow> list_link (nodes l) new new;
               Some (l\<lparr>nodes := ns, used := Some new\<rparr>)
             });
     Some (new, l\<lparr>vlen := vlen l + 1\<rparr>)
   }"

definition insert_prev :: "'a vec_list \<Rightarrow> cursor \<Rightarrow> 'a \<Rightarrow> (cursor \<times> 'a vec_list) option" where
  "insert_prev l c v = do {
     rs_assert (\<not> is_null l c);
     (new, l) \<leftarrow> new_node l v;
     ns \<leftarrow> list_insert_prev (nodes l) c new;
     u \<leftarrow> used l;
     Some (new, l\<lparr>nodes := ns, used := (if c = u then Some new else used l), vlen := vlen l + 1\<rparr>)
   }"

definition insert_next :: "'a vec_list \<Rightarrow> cursor \<Rightarrow> 'a \<Rightarrow> (cursor \<times> 'a vec_list) option" where
  "insert_next l c v = do {
     rs_assert (\<not> is_null l c);
     (new, l) \<leftarrow> new_node l v;
     ns \<leftarrow> list_insert_next (nodes l) c new;
     Some (new, l\<lparr>nodes := ns, vlen := vlen l + 1\<rparr>)
   }"

definition cleanup_last :: "'a vec_list \<Rightarrow> 'a vec_list option" where
  "cleanup_last l = do {
     let i = length (nodes l) - 1;
     single \<leftarrow> list_is_single (nodes l) i;
     l \<leftarrow> (if single then Some (l\<lparr>free := None\<rparr>)
          else do {
            f \<leftarrow> free l;
            n \<leftarrow> rs_index (nodes l) i;
            let l = (if i = f then l\<lparr>free := Some (nnext n)\<rparr> else l);
            ns \<leftarrow> list_remove (nodes l) i;
            Some (l\<lparr>nodes := ns\<rparr>)
          });
     Some (l\<lparr>nodes := butlast (nodes l)\<rparr>)
   }"

lemma length_list_link: "list_link ns i j = Some ns' \<Longrightarrow> length ns' = length ns"
  by (auto simp: list_link_def rs_index_def Let_def split: if_splits)

lemma length_list_remove: "list_remove ns i = Some ns' \<Longrightarrow> length ns' = length ns"
  by (auto simp: list_remove_def rs_index_def length_list_link split: if_splits)

lemma length_cleanup_last:
  "cleanup_last l = Some l' \<Longrightarrow> length (nodes l') = length (nodes l) - 1"
  by (auto simp: cleanup_last_def Let_def rs_index_def length_list_remove
      elim!: bind_eq_SomeE split: if_splits)

function cleanup_free_list :: "'a vec_list \<Rightarrow> 'a vec_list option" where
  "cleanup_free_list l =
     (if nodes l \<noteq> [] \<and> is_free (last (nodes l))
      then do { l \<leftarrow> cleanup_last l; cleanup_free_list l }
      else Some l)"
  by pat_completeness auto
termination
  by (relation "measure (\<lambda>l. length (nodes l))") (auto simp: length_cleanup_last)

declare cleanup_free_list.simps [simp del]

definition vl_remove :: "'a vec_list \<Rightarrow> cursor \<Rightarrow> ('a \<times> 'a vec_list) option" where
  "vl_remove l c = do {
     rs_assert (\<not> is_null l c);
     single \<leftarrow> list_is_single (nodes l) c;
     l \<leftarrow> (if single then Some (l\<lparr>used := None\<rparr>)
          else do {
            u \<leftarrow> used l;
            n \<leftarrow> rs_index (nodes l) c;
            Some (if c = u then l\<lparr>used := Some (nnext n)\<rparr> else l)
          });
     ns \<leftarrow> list_remove (nodes l) c;
     n \<leftarrow> rs_index ns c;
     value \<leftarrow> nvalue n;
     let ns = ns[c := n\<lparr>nvalue := None\<rparr>];
     len \<leftarrow> rs_sub (vlen l) 1;
     let l = l\<lparr>nodes := ns, vlen := len\<rparr>;
     l \<leftarrow> (case free l of
            Some f \<Rightarrow> do {
              ns \<leftarrow> list_insert_prev (nodes l) f c;
              Some (l\<lparr>nodes := ns\<rparr>)
            }
          | None \<Rightarrow> do {
              ns \<leftarrow> list_link (nodes l) c c;
              Some (l\<lparr>nodes := ns, free := Some c\<rparr>)
            });
     l \<leftarrow> cleanup_free_list l;
     Some (value, l)
   }"

definition pop_front :: "'a vec_list \<Rightarrow> ('a option \<times> 'a vec_list) option" where
  "pop_front l =
     (case cursor_front l of
        None \<Rightarrow> Some (None, l)
      | Some p \<Rightarrow> do { (v, l) \<leftarrow> vl_remove l p; Some (Some v, l) })"

definition pop_back :: "'a vec_list \<Rightarrow> ('a option \<times> 'a vec_list) option" where
  "pop_back l = do {
     c \<leftarrow> cursor_back l;
     (case c of
        None \<Rightarrow> Some (None, l)
      | Some p \<Rightarrow> do { (v, l) \<leftarrow> vl_remove l p; Some (Some v, l) })
   }"

definition move_front :: "'a vec_list \<Rightarrow> cursor \<Rightarrow> 'a vec_list option" where
  "move_front l c = do {
     rs_assert (\<not> is_null l c);
     u \<leftarrow> used l;
     if c = u then Some l
     else do {
       ns \<leftarrow> list_remove (nodes l) c;
       ns \<leftarrow> list_insert_prev ns u c;
       n \<leftarrow> rs_index ns u;
       Some (l\<lparr>nodes := ns, used := Some (nprev n)\<rparr>)
     }
   }"

definition move_back :: "'a vec_list \<Rightarrow> cursor \<Rightarrow> 'a vec_list option" where
  "move_back l c = do {
     rs_assert (\<not> is_null l c);
     u \<leftarrow> used l;
     if c = u then do {
       n \<leftarrow> rs_index (nodes l) u;
       Some (l\<lparr>used := Some (nnext n)\<rparr>)
     }
     else do {
       ns \<leftarrow> list_remove (nodes l) c;
       ns \<leftarrow> list_insert_prev ns u c;
       Some (l\<lparr>nodes := ns\<rparr>)
     }
   }"

definition vl_clear :: "'a vec_list \<Rightarrow> 'a vec_list" where
  "vl_clear l = l\<lparr>nodes := [], vlen := 0, used := None, free := None\<rparr>"

definition vl_prev :: "'a vec_list \<Rightarrow> cursor \<Rightarrow> cursor option option" where
  "vl_prev l c =
     (case used l of
        None \<Rightarrow> Some None
      | Some u \<Rightarrow>
          if c = u then Some None
          else Some (if c < length (nodes l) \<and> \<not> is_free (nodes l ! c)
                     then Some (nprev (nodes l ! c)) else None))"

definition vl_next :: "'a vec_list \<Rightarrow> cursor \<Rightarrow> cursor option option" where
  "vl_next l c =
     (case used l of
        None \<Rightarrow> Some None
      | Some u \<Rightarrow> do {
          n \<leftarrow> rs_index (nodes l) u;
          if c = nprev n then Some None
          else Some (if c < length (nodes l) \<and> \<not> is_free (nodes l ! c)
                     then Some (nnext (nodes l ! c)) else None)
        })"

text \<open>The iterators borrow the list and keep the two ends and the number of values left.\<close>

record vl_iter =
  it_start :: "cursor option"
  it_end :: "cursor option"
  it_len :: nat

definition iter_new :: "'a vec_list \<Rightarrow> vl_iter option" where
  "iter_new l = do {
     back \<leftarrow> cursor_back l;
     Some \<lparr>it_start = cursor_front l, it_end = back, it_len = vlen l\<rparr>
   }"

definition iter_next :: "'a vec_list \<Rightarrow> vl_iter \<Rightarrow> ('a option \<times> vl_iter) option" where
  "iter_next l it =
     (case it_start it of
        None \<Rightarrow> Some (None, it)
      | Some this \<Rightarrow> do {
          it \<leftarrow> (if it_start it = it_end it then Some (it\<lparr>it_start := None, it_end := None\<rparr>)
                else do { n \<leftarrow> vl_next l this; Some (it\<lparr>it_start := n\<rparr>) });
          len \<leftarrow> rs_sub (it_len it) 1;
          v \<leftarrow> get_impl l this;
          Some (Some v, it\<lparr>it_len := len\<rparr>)
        })"

definition iter_next_back :: "'a vec_list \<Rightarrow> vl_iter \<Rightarrow> ('a option \<times> vl_iter) option" where
  "iter_next_back l it =
     (case it_end it of
        None \<Rightarrow> Some (None, it)
      | Some this \<Rightarrow> do {
          it \<leftarrow> (if it_start it = it_end it then Some (it\<lparr>it_start := None, it_end := None\<rparr>)
                else do { n \<leftarrow> vl_prev l this; Some (it\<lparr>it_end := n\<rparr>) });
          len \<leftarrow> rs_sub (it_len it) 1;
          v \<leftarrow> get_impl l this;
          Some (Some v, it\<lparr>it_len := len\<rparr>)
        })"

function iter_collect :: "'a vec_list \<Rightarrow> vl_iter \<Rightarrow> 'a list option" where
  "iter_collect l it = do {
     (v, it') \<leftarrow> iter_next l it;
     case v of
       None \<Rightarrow> Some []
     | Some x \<Rightarrow> do { xs \<leftarrow> iter_collect l it'; Some (x # xs) }
   }"
  by pat_completeness auto

lemma iter_next_decreases:
  "iter_next l it = Some (Some x, it') \<Longrightarrow> it_len it' < it_len it"
  by (auto simp: iter_next_def rs_sub_def split: option.splits if_splits elim!: bind_eq_SomeE)

termination iter_collect
  by (relation "measure (\<lambda>(l, it). it_len it)") (auto dest: iter_next_decreases)

declare iter_collect.simps [simp del]

section \<open>Circular lists\<close>

definition relink :: "'a vnode list \<Rightarrow> nat \<Rightarrow> nat \<Rightarrow> 'a vnode list" where
  "relink ns i j =
     (let ns = ns[i := (ns ! i)\<lparr>nnext := j\<rparr>] in ns[j := (ns ! j)\<lparr>nprev := i\<rparr>])"

lemma list_link_relink:
  "i < length ns \<Longrightarrow> j < length ns \<Longrightarrow> list_link ns i j = Some (relink ns i j)"
  by (simp add: list_link_def relink_def Let_def)

lemma relink_simps [simp]:
  "length (relink ns i j) = length ns"
  "i < length ns \<Longrightarrow> j < length ns \<Longrightarrow> k < length ns \<Longrightarrow>
     nnext (relink ns i j ! k) = (if k = i then j else nnext (ns ! k))"
  "i < length ns \<Longrightarrow> j < length ns \<Longrightarrow> k < length ns \<Longrightarrow>
     nprev (relink ns i j ! k) = (if k = j then i else nprev (ns ! k))"
  "i < length ns \<Longrightarrow> j < length ns \<Longrightarrow> k < length ns \<Longrightarrow>
     nvalue (relink ns i j ! k) = nvalue (ns ! k)"
  by (auto simp: relink_def Let_def nth_list_update)

definition link :: "'a vnode list \<Rightarrow> nat \<Rightarrow> nat \<Rightarrow> bool" where
  "link ns a b \<longleftrightarrow> nnext (ns ! a) = b \<and> nprev (ns ! b) = a"

fun path :: "'a vnode list \<Rightarrow> nat \<Rightarrow> nat list \<Rightarrow> nat \<Rightarrow> bool" where
  "path ns a [] b = link ns a b"
| "path ns a (x # xs) b = (link ns a x \<and> path ns x xs b)"

fun circ :: "'a vnode list \<Rightarrow> nat list \<Rightarrow> bool" where
  "circ ns [] = True"
| "circ ns (x # xs) = path ns x xs x"

lemma path_append: "path ns a (xs @ y # ys) b \<longleftrightarrow> path ns a xs y \<and> path ns y ys b"
  by (induction xs arbitrary: a) auto

lemma circ_rotate1: "circ ns (x # xs) \<longleftrightarrow> circ ns (xs @ [x])"
  by (cases xs) (auto simp: path_append)

lemma circ_rotate: "circ ns (xs @ ys) \<longleftrightarrow> circ ns (ys @ xs)"
proof (induction xs arbitrary: ys)
  case Nil
  then show ?case by simp
next
  case (Cons x xs)
  have "circ ns ((x # xs) @ ys) \<longleftrightarrow> circ ns (xs @ ys @ [x])"
    using circ_rotate1 [of ns x "xs @ ys"] by simp
  also have "\<dots> \<longleftrightarrow> circ ns ((ys @ [x]) @ xs)"
    by (rule Cons.IH)
  finally show ?case by simp
qed

lemma path_frame:
  assumes "path ns a xs b" and "set (a # xs @ [b]) \<subseteq> {..<length ns}"
    and "i \<notin> set (a # xs)" and "j \<notin> set (xs @ [b])" and "i < length ns" and "j < length ns"
  shows "path (relink ns i j) a xs b"
  using assms by (induction xs arbitrary: a) (auto simp: link_def)

lemma circ_frame:
  assumes "circ ns xs" and "set xs \<subseteq> {..<length ns}"
    and "i \<notin> set xs" and "j \<notin> set xs" and "i < length ns" and "j < length ns"
  shows "circ (relink ns i j) xs"
  using assms by (cases xs) (auto intro!: path_frame)

lemma path_cong:
  assumes "\<forall>i \<in> set (a # xs @ [b]). nnext (ns' ! i) = nnext (ns ! i) \<and> nprev (ns' ! i) = nprev (ns ! i)"
  shows "path ns' a xs b = path ns a xs b"
  using assms by (induction xs arbitrary: a) (auto simp: link_def)

lemma circ_cong:
  assumes "\<forall>i \<in> set xs. nnext (ns' ! i) = nnext (ns ! i) \<and> nprev (ns' ! i) = nprev (ns ! i)"
  shows "circ ns' xs = circ ns xs"
proof (cases xs)
  case (Cons a ys)
  with assms have "path ns' a ys a = path ns a ys a" by (intro path_cong) auto
  with Cons show ?thesis by simp
qed simp

lemma circ_ends:
  assumes "circ ns (t # ys)"
  shows "nprev (ns ! t) = last (t # ys)" and "nnext (ns ! t) = hd (ys @ [t])"
proof -
  show "nnext (ns ! t) = hd (ys @ [t])"
    using assms by (cases ys) (auto simp: link_def)
  show "nprev (ns ! t) = last (t # ys)"
  proof (cases ys rule: rev_cases)
    case Nil
    with assms show ?thesis by (simp add: link_def)
  next
    case (snoc zs p)
    with assms show ?thesis by (simp add: path_append link_def)
  qed
qed

lemma list_is_single_circ:
  assumes "circ ns (t # ys)" and "distinct (t # ys)" and "t < length ns"
  shows "list_is_single ns t = Some (ys = [])"
  using circ_ends [OF assms(1)] assms by (cases ys) (auto simp: list_is_single_def)

text \<open>Inserting before \<open>t\<close> puts the new node at the end of the list that starts at \<open>t\<close>.\<close>

lemma list_insert_prev_circ:
  assumes c: "circ ns (t # ys)" and d: "distinct (t # ys)" and sub: "set (t # ys) \<subseteq> {..<length ns}"
    and s: "s \<notin> set (t # ys)" "s < length ns"
  shows "list_insert_prev ns t s = Some (relink (relink ns (last (t # ys)) s) s t)"
    and "circ (relink (relink ns (last (t # ys)) s) s t) (t # ys @ [s])"
proof -
  have p: "last (t # ys) < length ns" "t < length ns"
    using sub last_in_set [of "t # ys"] by auto
  show "list_insert_prev ns t s = Some (relink (relink ns (last (t # ys)) s) s t)"
    using p s circ_ends(1) [OF c] by (simp add: list_insert_prev_def list_link_relink)
  show "circ (relink (relink ns (last (t # ys)) s) s t) (t # ys @ [s])"
  proof (cases ys rule: rev_cases)
    case Nil
    with p s show ?thesis by (auto simp: link_def)
  next
    case (snoc zs q)
    with c have "path ns t zs q" by (simp add: path_append)
    then have "path (relink (relink ns q s) s t) t zs q"
      using d sub s snoc by (intro path_frame) auto
    then show ?thesis
      using snoc p s d by (auto simp: path_append link_def)
  qed
qed

lemma list_remove_circ:
  assumes c: "circ ns (t # ys)" and d: "distinct (t # ys)" and sub: "set (t # ys) \<subseteq> {..<length ns}"
  shows "list_remove ns t = Some (relink ns (last (t # ys)) (hd (ys @ [t])))"
    and "circ (relink ns (last (t # ys)) (hd (ys @ [t]))) ys"
proof -
  have p: "last (t # ys) < length ns" "hd (ys @ [t]) < length ns" "t < length ns"
    using sub last_in_set [of "t # ys"] hd_in_set [of "ys @ [t]"] by (auto simp del: hd_append2)
  show "list_remove ns t = Some (relink ns (last (t # ys)) (hd (ys @ [t])))"
    using p circ_ends [OF c] by (simp add: list_remove_def list_link_relink)
  show "circ (relink ns (last (t # ys)) (hd (ys @ [t]))) ys"
  proof (cases ys)
    case Nil
    then show ?thesis by simp
  next
    case (Cons y zs)
    show ?thesis
    proof (cases zs rule: rev_cases)
      case Nil
      with Cons p show ?thesis by (simp add: link_def)
    next
      case (snoc ws q)
      with c Cons have "path ns y ws q" by (simp add: path_append)
      then have "path (relink ns q y) y ws q"
        using d sub Cons snoc by (intro path_frame) auto
      then show ?thesis
        using Cons snoc p by (auto simp: path_append link_def)
    qed
  qed
qed

section \<open>The invariant\<close>

text \<open>
  \<open>vl_rep l us ps fs\<close>: the used list visits the nodes \<open>us\<close>, the free list the nodes
  \<open>fs\<close>, and the nodes \<open>ps\<close> are in neither (an operation has just taken them out and
  has not linked them in yet); every node of the vector is in exactly one of the three.
\<close>

definition hd_opt :: "'a list \<Rightarrow> 'a option" where
  "hd_opt xs = (case xs of [] \<Rightarrow> None | x # _ \<Rightarrow> Some x)"

lemma hd_opt_simps [simp]:
  "hd_opt [] = None"
  "hd_opt (x # xs) = Some x"
  by (simp_all add: hd_opt_def)

lemma hd_opt_append: "hd_opt (xs @ ys) = (if xs = [] then hd_opt ys else hd_opt xs)"
  by (cases xs) auto

definition vl_rep :: "'a vec_list \<Rightarrow> nat list \<Rightarrow> nat list \<Rightarrow> nat list \<Rightarrow> bool" where
  "vl_rep l us ps fs \<longleftrightarrow>
     circ (nodes l) us \<and> circ (nodes l) fs \<and> distinct (us @ ps @ fs) \<and>
     set (us @ ps @ fs) = {..<length (nodes l)} \<and>
     (\<forall>i \<in> set us. \<not> is_free (nodes l ! i)) \<and> (\<forall>i \<in> set fs. is_free (nodes l ! i)) \<and>
     used l = hd_opt us \<and> free l = hd_opt fs"

definition compact :: "'a vnode list \<Rightarrow> bool" where
  "compact ns \<longleftrightarrow> (ns = [] \<or> \<not> is_free (last ns))"

lemma compact_iff: "compact ns \<longleftrightarrow> (\<forall>i. Suc i = length ns \<longrightarrow> nvalue (ns ! i) \<noteq> None)"
  by (cases ns rule: rev_cases) (auto simp: compact_def is_free_def)

definition vl_ok :: "'a vec_list \<Rightarrow> nat list \<Rightarrow> nat list \<Rightarrow> bool" where
  "vl_ok l us fs \<longleftrightarrow> vl_rep l us [] fs \<and> vlen l = length us \<and> compact (nodes l)"

fun follow :: "'a vnode list \<Rightarrow> nat \<Rightarrow> nat \<Rightarrow> nat list" where
  "follow ns i 0 = []"
| "follow ns i (Suc n) = i # follow ns (nnext (ns ! i)) n"

definition vl_cursors :: "'a vec_list \<Rightarrow> cursor list" where
  "vl_cursors l = (case used l of None \<Rightarrow> [] | Some u \<Rightarrow> follow (nodes l) u (vlen l))"

definition vl_frees :: "'a vec_list \<Rightarrow> cursor list" where
  "vl_frees l =
     (case free l of None \<Rightarrow> [] | Some f \<Rightarrow> follow (nodes l) f (length (nodes l) - vlen l))"

definition vl_inv :: "'a vec_list \<Rightarrow> bool" where
  "vl_inv l \<longleftrightarrow> vl_ok l (vl_cursors l) (vl_frees l)"

definition vl_view :: "'a vec_list \<Rightarrow> (cursor \<times> 'a) list" where
  "vl_view l = map (\<lambda>i. (i, the (nvalue (nodes l ! i)))) (vl_cursors l)"

lemma follow_path: "path ns a xs b \<Longrightarrow> follow ns a (Suc (length xs)) = a # xs"
  by (induction xs arbitrary: a) (auto simp: link_def)

lemma follow_circ: "circ ns (x # xs) \<Longrightarrow> follow ns x (Suc (length xs)) = x # xs"
  by (auto dest: follow_path)

lemma vl_ok_cursors: "vl_ok l us fs \<Longrightarrow> vl_cursors l = us"
  by (cases us) (auto simp: vl_ok_def vl_rep_def vl_cursors_def follow_path simp del: follow.simps)

lemma vl_ok_length:
  assumes "vl_ok l us fs"
  shows "length (nodes l) = length us + length fs"
proof -
  from assms have "distinct (us @ fs)" "set (us @ fs) = {..<length (nodes l)}"
    by (auto simp: vl_ok_def vl_rep_def)
  from distinct_card [OF this(1)] this(2) show ?thesis by simp
qed

lemma vl_ok_frees:
  assumes "vl_ok l us fs"
  shows "vl_frees l = fs"
proof (cases fs)
  case Nil
  with assms show ?thesis by (simp add: vl_ok_def vl_rep_def vl_frees_def)
next
  case (Cons f gs)
  with assms have "circ (nodes l) (f # gs)" by (simp add: vl_ok_def vl_rep_def)
  then have "follow (nodes l) f (Suc (length gs)) = f # gs" by (rule follow_circ)
  moreover have "length (nodes l) - vlen l = Suc (length gs)" and "free l = Some f"
    using assms vl_ok_length [OF assms] Cons by (auto simp: vl_ok_def vl_rep_def)
  ultimately show ?thesis using Cons by (simp add: vl_frees_def del: follow.simps)
qed

lemma vl_ok_inv: "vl_ok l us fs \<Longrightarrow> vl_inv l"
  by (simp add: vl_inv_def vl_ok_cursors vl_ok_frees)

lemma vl_invE:
  assumes "vl_inv l"
  obtains fs where "vl_ok l (vl_cursors l) fs"
  using assms by (auto simp: vl_inv_def)

lemma vl_repD:
  assumes "vl_rep l us ps fs"
  shows "circ (nodes l) us" "circ (nodes l) fs" "distinct (us @ ps @ fs)"
    "set us \<subseteq> {..<length (nodes l)}" "set ps \<subseteq> {..<length (nodes l)}"
    "set fs \<subseteq> {..<length (nodes l)}" "used l = hd_opt us" "free l = hd_opt fs"
    "\<And>i. i \<in> set us \<Longrightarrow> \<not> is_free (nodes l ! i)"
    "\<And>i. i \<in> set fs \<Longrightarrow> is_free (nodes l ! i)"
  using assms unfolding vl_rep_def by auto

text \<open>Writing values leaves the links alone.\<close>

lemma circ_value_update [simp]:
  "circ (ns[c := (ns ! c)\<lparr>nvalue := v\<rparr>]) xs = circ ns xs"
  by (rule circ_cong, cases "c < length ns") (auto simp: nth_list_update list_update_beyond)

section \<open>Allocation\<close>

text \<open>
  Taking a node out of one list and linking a node into one: the other list, and all values,
  stay as they are.
\<close>

lemma detach:
  assumes "circ ns (t # ys)" and "circ ns os" and "distinct (t # ys @ os)"
    and "set (t # ys @ os) \<subseteq> {..<length ns}"
  obtains ns' where "list_remove ns t = Some ns'" "length ns' = length ns"
    "circ ns' ys" "circ ns' os" "\<forall>i < length ns. nvalue (ns' ! i) = nvalue (ns ! i)"
proof -
  let ?p = "last (t # ys)" and ?n = "hd (ys @ [t])"
  have p: "?p \<in> set (t # ys)" by (rule last_in_set) simp
  have n: "?n \<in> set (t # ys)" using hd_in_set [of "ys @ [t]"] by (auto simp del: hd_append2)
  have b: "?p < length ns" "?n < length ns" using p n assms(4) by auto
  have "circ (relink ns ?p ?n) os"
    using assms p n b by (intro circ_frame) (auto simp del: last.simps)
  then show thesis
    using list_remove_circ [OF assms(1)] assms(3,4) b by (intro that [of "relink ns ?p ?n"]) auto
qed

lemma attach:
  assumes "circ ns (t # ys)" and "circ ns os" and "distinct (t # ys @ s # os)"
    and "set (t # ys @ s # os) \<subseteq> {..<length ns}"
  obtains ns' where "list_insert_prev ns t s = Some ns'" "length ns' = length ns"
    "circ ns' (t # ys @ [s])" "circ ns' os" "\<forall>i < length ns. nvalue (ns' ! i) = nvalue (ns ! i)"
proof -
  let ?p = "last (t # ys)"
  let ?ns = "relink (relink ns ?p s) s t"
  have p: "?p \<in> set (t # ys)" by (rule last_in_set) simp
  have b: "?p < length ns" "s < length ns" "t < length ns" using p assms(4) by auto
  have "circ (relink ns ?p s) os"
    by (rule circ_frame) (use assms p b in \<open>auto simp del: last.simps\<close>)
  then have "circ ?ns os"
    by (rule circ_frame) (use assms b in auto)
  moreover have "list_insert_prev ns t s = Some ?ns" and "circ ?ns (t # ys @ [s])"
    using list_insert_prev_circ [OF assms(1), of s] assms(3,4) by auto
  ultimately show thesis using b by (intro that [of ?ns]) auto
qed

lemma attach_single:
  assumes "circ ns os" and "distinct (s # os)" and "set (s # os) \<subseteq> {..<length ns}"
  obtains ns' where "list_link ns s s = Some ns'" "length ns' = length ns"
    "circ ns' [s]" "circ ns' os" "\<forall>i < length ns. nvalue (ns' ! i) = nvalue (ns ! i)"
proof -
  have "circ (relink ns s s) os" using assms by (intro circ_frame) auto
  then show thesis
    using assms by (intro that [of "relink ns s s"]) (auto simp: list_link_relink link_def)
qed

lemma new_node_rep:
  assumes ok: "vl_ok l us fs"
  obtains c ns fs' where
    "new_node l v = Some (c, l\<lparr>nodes := ns, free := hd_opt fs'\<rparr>)"
    "vl_rep (l\<lparr>nodes := ns, free := hd_opt fs'\<rparr>) us [c] fs'"
    "nvalue (ns ! c) = Some v" "compact ns"
    "\<forall>i \<in> set us. nvalue (ns ! i) = nvalue (nodes l ! i)"
proof (cases fs)
  case Nil
  let ?n = "length (nodes l)" and ?ns = "nodes l @ [node_new v]"
  from ok Nil have r: "circ (nodes l) us" "distinct us" "set us = {..<?n}" "used l = hd_opt us"
    "free l = None" "\<forall>i \<in> set us. \<not> is_free (nodes l ! i)"
    by (auto simp: vl_ok_def vl_rep_def)
  have "circ ?ns us = circ (nodes l) us"
    by (rule circ_cong) (simp add: r(3) nth_append)
  with r(1) have "circ ?ns us" by simp
  moreover have "set us \<union> {?n} = {..<Suc ?n}"
    by (simp add: r(3) lessThan_Suc)
  ultimately have "vl_rep (l\<lparr>nodes := ?ns, free := hd_opt []\<rparr>) us [?n] []"
    using r by (simp add: vl_rep_def nth_append)
  moreover have "new_node l v = Some (?n, l\<lparr>nodes := ?ns, free := hd_opt []\<rparr>)"
    using r(5) by (simp add: new_node_def)
  ultimately show thesis
    using r(3) by (intro that [of ?n "[]" ?ns]) (auto simp: nth_append node_new_def compact_def is_free_def)
next
  case (Cons f gs)
  with ok have r: "vl_rep l us [] (f # gs)" "compact (nodes l)"
    by (auto simp: vl_ok_def)
  note d = vl_repD [OF r(1)]
  obtain ns0 where ns0: "list_remove (nodes l) f = Some ns0" "length ns0 = length (nodes l)"
    "circ ns0 gs" "circ ns0 us" "\<forall>i < length (nodes l). nvalue (ns0 ! i) = nvalue (nodes l ! i)"
    by (rule detach [OF d(2,1)]) (use d(3,4,6) in auto)
  have f: "f < length (nodes l)" "is_free (nodes l ! f)" using d(6) d(10) [of f] by auto
  have single: "list_is_single (nodes l) f = Some (gs = [])"
    using d f(1) by (intro list_is_single_circ) auto
  define ns1 where "ns1 = (if gs = [] then nodes l else ns0)"
  have ns1: "length ns1 = length (nodes l)" "circ ns1 gs" "circ ns1 us"
    "\<forall>i < length (nodes l). nvalue (ns1 ! i) = nvalue (nodes l ! i)"
    using ns0 d(1) by (auto simp: ns1_def)
  let ?ns = "ns1[f := (ns1 ! f)\<lparr>nvalue := Some v\<rparr>]"
  have val: "nvalue (?ns ! i) = (if i = f then Some v else nvalue (nodes l ! i))"
    if "i < length (nodes l)" for i
    using that ns1(1,4) f by (simp add: nth_list_update)
  have "nnext (nodes l ! f) = hd gs" if "gs \<noteq> []"
    using circ_ends(2) [OF d(2)] that by simp
  then have "new_node l v = Some (f, l\<lparr>nodes := ?ns, free := hd_opt gs\<rparr>)"
    using d(8) single f ns0 unfolding ns1_def
    by (cases gs) (simp_all add: new_node_def node_assign_def is_free_def)
  moreover have uv: "\<forall>i \<in> set us. nvalue (?ns ! i) = nvalue (nodes l ! i)"
    and gv: "\<forall>i \<in> set gs. nvalue (?ns ! i) = nvalue (nodes l ! i)"
    using val d(3,4,6) by auto
  moreover have "vl_rep (l\<lparr>nodes := ?ns, free := hd_opt gs\<rparr>) us [f] gs"
    using r(1) ns1 uv gv by (auto simp: vl_rep_def is_free_def)
  moreover have "compact ?ns"
    using r(2) val ns1(1) by (auto simp: compact_iff)
  ultimately show thesis using val [OF f(1)] by (intro that [of f gs ?ns]) auto
qed

section \<open>Insertion\<close>

declare circ.simps(2) [simp del]

text \<open>Relinking and the rest of the state: what the operations leave to prove.\<close>

lemma vl_rep_relink:
  assumes "vl_rep l us ps fs"
    and "length (nodes l') = length (nodes l)"
    and "\<forall>i < length (nodes l). nvalue (nodes l' ! i) = nvalue (nodes l ! i)"
    and "circ (nodes l') us'" and "circ (nodes l') fs'"
    and "distinct (us' @ ps' @ fs')" and "set (us' @ ps' @ fs') = set (us @ ps @ fs)"
    and "\<forall>i \<in> set us'. \<not> is_free (nodes l ! i)" and "\<forall>i \<in> set fs'. is_free (nodes l ! i)"
    and "used l' = hd_opt us'" and "free l' = hd_opt fs'"
  shows "vl_rep l' us' ps' fs'"
proof -
  have s: "set (us' @ ps' @ fs') = {..<length (nodes l')}"
    using assms(1,2,7) by (simp add: vl_rep_def)
  then have "\<forall>i \<in> set (us' @ fs'). is_free (nodes l' ! i) = is_free (nodes l ! i)"
    using assms(2,3) by (auto simp: is_free_def)
  then show ?thesis using assms s by (simp add: vl_rep_def)
qed

lemma compact_relink:
  assumes "compact ns" and "length ns' = length ns"
    and "\<forall>i < length ns. nvalue (ns' ! i) = nvalue (ns ! i)"
  shows "compact ns'"
  using assms by (auto simp: compact_iff)

lemma attach_next:
  assumes "circ ns (t # ys)" and "circ ns os" and "distinct (t # s # ys @ os)"
    and "set (t # s # ys @ os) \<subseteq> {..<length ns}"
  obtains ns' where "list_insert_next ns t s = Some ns'" "length ns' = length ns"
    "circ ns' (t # s # ys)" "circ ns' os" "\<forall>i < length ns. nvalue (ns' ! i) = nvalue (ns ! i)"
proof -
  let ?n = "hd (ys @ [t])"
  let ?ns = "relink (relink ns s ?n) t s"
  have n: "?n \<in> set (t # ys)" using hd_in_set [of "ys @ [t]"] by (auto simp del: hd_append2)
  then have b: "?n < length ns" "s < length ns" "t < length ns" using assms(4) by auto
  have "list_insert_next ns t s = Some ?ns"
    using b circ_ends(2) [OF assms(1)] by (simp add: list_insert_next_def list_link_relink)
  moreover have "circ (relink ns s ?n) os"
    by (rule circ_frame) (use assms n b in \<open>auto simp del: hd_append2\<close>)
  then have "circ ?ns os"
    by (rule circ_frame) (use assms b in auto)
  moreover have "circ ?ns (t # s # ys)"
  proof (cases ys)
    case Nil
    with b assms(3) show ?thesis by (simp add: link_def circ.simps(2))
  next
    case (Cons y zs)
    with assms(1) have "path ns y zs t" by (simp add: circ.simps(2))
    then have "path (relink ns s y) y zs t"
      by (rule path_frame) (use assms Cons in auto)
    then have "path (relink (relink ns s y) t s) y zs t"
      by (rule path_frame) (use assms Cons in auto)
    with Cons b assms(3) show ?thesis by (auto simp: link_def circ.simps(2))
  qed
  ultimately show thesis using b by (intro that [of ?ns]) auto
qed

text \<open>
  The four insertions share this step: a fresh node \<open>c\<close> goes in before the node \<open>t\<close>, and
  the walk that starts at the head visits it there.
\<close>

lemma vl_rep_insert_prev:
  assumes "vl_rep l (as @ t # bs) [c] fs"
  obtains ns' where "list_insert_prev (nodes l) t c = Some ns'" "length ns' = length (nodes l)"
    "circ ns' (as @ c # t # bs)" "circ ns' (t # bs @ as @ [c])" "circ ns' fs"
    "\<forall>i < length (nodes l). nvalue (ns' ! i) = nvalue (nodes l ! i)"
proof -
  note d = vl_repD [OF assms]
  have c: "circ (nodes l) (t # bs @ as)"
    using d(1) circ_rotate [of "nodes l" as "t # bs"] by simp
  obtain ns' where ns': "list_insert_prev (nodes l) t c = Some ns'" "length ns' = length (nodes l)"
    "circ ns' (t # (bs @ as) @ [c])" "circ ns' fs"
    "\<forall>i < length (nodes l). nvalue (ns' ! i) = nvalue (nodes l ! i)"
    by (rule attach [OF c d(2)]) (use d(3,4,5,6) in auto)
  moreover have "circ ns' (as @ c # t # bs)"
    using ns'(3) circ_rotate [of ns' "t # bs" "as @ [c]"] by simp
  ultimately show thesis using that by simp
qed

lemma vl_ok_insert:
  assumes ok: "vl_ok l us fs" and r1: "vl_rep l1 us [c] fs1" and v1: "nvalue (nodes l1 ! c) = Some v"
    and k1: "compact (nodes l1)" and u1: "\<forall>i \<in> set us. nvalue (nodes l1 ! i) = nvalue (nodes l ! i)"
    and ns': "length (nodes l') = length (nodes l1)"
    "\<forall>i < length (nodes l1). nvalue (nodes l' ! i) = nvalue (nodes l1 ! i)"
    "circ (nodes l') us'" "circ (nodes l') fs1"
    and l': "used l' = hd_opt us'" "free l' = hd_opt fs1" "vlen l' = length us'"
    and us': "mset us' = mset (c # us)"
  shows "vl_ok l' us' fs1" and "c \<notin> set us" and "nvalue (nodes l' ! c) = Some v"
    and "\<forall>i \<in> set us. nvalue (nodes l' ! i) = nvalue (nodes l ! i)"
proof -
  note d = vl_repD [OF r1]
  have s: "set us' = insert c (set us)" using us' by (metis list.simps(15) set_mset_mset)
  have "distinct (c # us)" using d(3) by auto
  then have "distinct us'" using us' mset_eq_imp_distinct_iff by blast
  then have "vl_rep l' us' [] fs1"
    using d v1 s by (intro vl_rep_relink [OF r1 ns'(1-4)]) (auto simp: is_free_def l')
  moreover have "compact (nodes l')"
    by (rule compact_relink [OF k1 ns'(1,2)])
  ultimately show "vl_ok l' us' fs1" using l'(3) by (simp add: vl_ok_def)
  show "c \<notin> set us" using d(3) by auto
  show "nvalue (nodes l' ! c) = Some v" using ns'(2) v1 d(5) by auto
  show "\<forall>i \<in> set us. nvalue (nodes l' ! i) = nvalue (nodes l ! i)" using ns'(2) u1 d(4) by auto
qed

definition values_kept :: "'a vec_list \<Rightarrow> nat list \<Rightarrow> 'a vec_list \<Rightarrow> bool" where
  "values_kept l us l' \<longleftrightarrow> (\<forall>i \<in> set us. nvalue (nodes l' ! i) = nvalue (nodes l ! i))"

lemma push_back_ok:
  assumes ok: "vl_ok l us fs"
  obtains c l' fs' where "push_back l v = Some (c, l')" "vl_ok l' (us @ [c]) fs'" "c \<notin> set us"
    "nvalue (nodes l' ! c) = Some v" "values_kept l us l'"
proof -
  obtain c ns fs1 where n: "new_node l v = Some (c, l\<lparr>nodes := ns, free := hd_opt fs1\<rparr>)"
    "vl_rep (l\<lparr>nodes := ns, free := hd_opt fs1\<rparr>) us [c] fs1" "nvalue (ns ! c) = Some v" "compact ns"
    "\<forall>i \<in> set us. nvalue (ns ! i) = nvalue (nodes l ! i)"
    by (rule new_node_rep [OF ok])
  note d = vl_repD [OF n(2)]
  have len: "vlen l = length us" using ok by (simp add: vl_ok_def)
  show thesis
  proof (cases us)
    case Nil
    obtain ns' where a: "list_link ns c c = Some ns'" "length ns' = length ns"
      "circ ns' [c]" "circ ns' fs1" "\<forall>i < length ns. nvalue (ns' ! i) = nvalue (ns ! i)"
      by (rule attach_single [where ns = ns and os = fs1 and s = c]) (use d in auto)
    let ?l = "l\<lparr>nodes := ns', free := hd_opt fs1, used := Some c, vlen := Suc 0\<rparr>"
    have "push_back l v = Some (c, ?l)"
      using n(1) d(7) a(1) Nil len by (simp add: push_back_def)
    then show thesis
      by (rule that) (use vl_ok_insert [OF ok n(2), of v ?l "us @ [c]"] n a Nil in
        \<open>simp_all add: values_kept_def\<close>)
  next
    case (Cons t bs)
    obtain ns' where a: "list_insert_prev ns t c = Some ns'" "length ns' = length ns"
      "circ ns' (t # bs @ [c])" "circ ns' fs1" "\<forall>i < length ns. nvalue (ns' ! i) = nvalue (ns ! i)"
      by (rule vl_rep_insert_prev [of "l\<lparr>nodes := ns, free := hd_opt fs1\<rparr>" "[]" t bs c fs1])
        (use n(2) Cons that in auto)
    let ?l = "l\<lparr>nodes := ns', free := hd_opt fs1, vlen := Suc (length us)\<rparr>"
    have "push_back l v = Some (c, ?l)"
      using n(1) d(7) a(1) Cons len by (simp add: push_back_def)
    then show thesis
      by (rule that) (use vl_ok_insert [OF ok n(2), of v ?l "us @ [c]"] n a d(7) Cons in
        \<open>simp_all add: values_kept_def\<close>)
  qed
qed

lemma push_front_ok:
  assumes ok: "vl_ok l us fs"
  obtains c l' fs' where "push_front l v = Some (c, l')" "vl_ok l' (c # us) fs'" "c \<notin> set us"
    "nvalue (nodes l' ! c) = Some v" "values_kept l us l'"
proof -
  obtain c ns fs1 where n: "new_node l v = Some (c, l\<lparr>nodes := ns, free := hd_opt fs1\<rparr>)"
    "vl_rep (l\<lparr>nodes := ns, free := hd_opt fs1\<rparr>) us [c] fs1" "nvalue (ns ! c) = Some v" "compact ns"
    "\<forall>i \<in> set us. nvalue (ns ! i) = nvalue (nodes l ! i)"
    by (rule new_node_rep [OF ok])
  note d = vl_repD [OF n(2)]
  have "vlen l = length us" using ok by (simp add: vl_ok_def)
  then have pf: "push_front l v = Some (c, l\<lparr>nodes := ns', free := hd_opt fs1, used := Some c, vlen := Suc (length us)\<rparr>)"
    if "(case us of [] \<Rightarrow> list_link ns c c | t # _ \<Rightarrow> list_insert_prev ns t c) = Some ns'" for ns'
    using n(1) d(7) that by (cases us) (simp_all add: push_front_def)
  obtain ns' where a: "(case us of [] \<Rightarrow> list_link ns c c | t # _ \<Rightarrow> list_insert_prev ns t c) = Some ns'"
    "length ns' = length ns" "circ ns' (c # us)" "circ ns' fs1"
    "\<forall>i < length ns. nvalue (ns' ! i) = nvalue (ns ! i)"
  proof (cases us)
    case Nil
    show thesis
      by (rule attach_single [where ns = ns and os = fs1 and s = c]) (use Nil d that in auto)
  next
    case (Cons t bs)
    show thesis
      by (rule vl_rep_insert_prev [of "l\<lparr>nodes := ns, free := hd_opt fs1\<rparr>" "[]" t bs c fs1])
        (use Cons n(2) that in auto)
  qed
  let ?l = "l\<lparr>nodes := ns', free := hd_opt fs1, used := Some c, vlen := Suc (length us)\<rparr>"
  show thesis
    by (rule that [OF pf [OF a(1)]])
      (use vl_ok_insert [OF ok n(2), of v ?l "c # us"] n a in \<open>simp_all add: values_kept_def\<close>)
qed

text \<open>Insertion at a live cursor.\<close>

lemma vl_ok_live:
  assumes "vl_ok l us fs"
  shows "is_null l c \<longleftrightarrow> c \<notin> set us"
  using assms unfolding vl_ok_def vl_rep_def is_null_def by auto

lemma insert_prev_ok:
  assumes ok: "vl_ok l (as @ t # bs) fs"
  obtains c l' fs' where "insert_prev l t v = Some (c, l')" "vl_ok l' (as @ c # t # bs) fs'"
    "c \<notin> set (as @ t # bs)" "nvalue (nodes l' ! c) = Some v" "values_kept l (as @ t # bs) l'"
proof -
  obtain c ns fs1 where n: "new_node l v = Some (c, l\<lparr>nodes := ns, free := hd_opt fs1\<rparr>)"
    "vl_rep (l\<lparr>nodes := ns, free := hd_opt fs1\<rparr>) (as @ t # bs) [c] fs1" "nvalue (ns ! c) = Some v"
    "compact ns" "\<forall>i \<in> set (as @ t # bs). nvalue (ns ! i) = nvalue (nodes l ! i)"
    by (rule new_node_rep [OF ok])
  note d = vl_repD [OF n(2)]
  obtain ns' where a: "list_insert_prev ns t c = Some ns'" "length ns' = length ns"
    "circ ns' (as @ c # t # bs)" "circ ns' fs1" "\<forall>i < length ns. nvalue (ns' ! i) = nvalue (ns ! i)"
    by (rule vl_rep_insert_prev [OF n(2)]) (use that in simp)
  let ?l = "l\<lparr>nodes := ns', free := hd_opt fs1, used := hd_opt (as @ c # t # bs),
    vlen := length (as @ c # t # bs)\<rparr>"
  have u: "used l = hd_opt (as @ t # bs)" "vlen l = length (as @ t # bs)"
    using ok by (simp_all add: vl_ok_def vl_rep_def)
  have "insert_prev l t v = Some (c, ?l)"
    using n(1) a(1) u d(3) vl_ok_live [OF ok, of t]
    by (cases as) (auto simp: insert_prev_def)
  then show thesis
    by (rule that) (use vl_ok_insert [OF ok n(2), of v ?l "as @ c # t # bs"] n a in
      \<open>simp_all add: values_kept_def\<close>)
qed

lemma insert_next_ok:
  assumes ok: "vl_ok l (as @ t # bs) fs"
  obtains c l' fs' where "insert_next l t v = Some (c, l')" "vl_ok l' (as @ t # c # bs) fs'"
    "c \<notin> set (as @ t # bs)" "nvalue (nodes l' ! c) = Some v" "values_kept l (as @ t # bs) l'"
proof -
  obtain c ns fs1 where n: "new_node l v = Some (c, l\<lparr>nodes := ns, free := hd_opt fs1\<rparr>)"
    "vl_rep (l\<lparr>nodes := ns, free := hd_opt fs1\<rparr>) (as @ t # bs) [c] fs1" "nvalue (ns ! c) = Some v"
    "compact ns" "\<forall>i \<in> set (as @ t # bs). nvalue (ns ! i) = nvalue (nodes l ! i)"
    by (rule new_node_rep [OF ok])
  note d = vl_repD [OF n(2), simplified]
  have ct: "circ ns (t # bs @ as)"
    using d(1) circ_rotate [of ns as "t # bs"] by simp
  obtain ns' where a: "list_insert_next ns t c = Some ns'" "length ns' = length ns"
    "circ ns' (t # c # bs @ as)" "circ ns' fs1" "\<forall>i < length ns. nvalue (ns' ! i) = nvalue (ns ! i)"
    by (rule attach_next [OF ct d(2)]) (use d(3-8) that in auto)
  have c: "circ ns' (as @ t # c # bs)"
    using a(3) circ_rotate [of ns' "t # c # bs" as] by simp
  let ?l = "l\<lparr>nodes := ns', free := hd_opt fs1, vlen := length (as @ t # c # bs)\<rparr>"
  have u: "used l = hd_opt (as @ t # c # bs)" "vlen l = length (as @ t # bs)"
    using ok by (simp_all add: vl_ok_def vl_rep_def hd_opt_append)
  have "insert_next l t v = Some (c, ?l)"
    using n(1) a(1) u(2) vl_ok_live [OF ok, of t] by (simp add: insert_next_def)
  then show thesis
    by (rule that) (use vl_ok_insert [OF ok n(2), of v ?l "as @ t # c # bs"] n a c u in
      \<open>simp_all add: values_kept_def\<close>)
qed

section \<open>Removal\<close>

lemma cleanup_last_rep:
  assumes r: "vl_rep l us [] fs" and ne: "nodes l \<noteq> []" and fr: "is_free (last (nodes l))"
  obtains l' fs' where "cleanup_last l = Some l'" "vl_rep l' us [] fs'" "vlen l' = vlen l"
    "values_kept l us l'"
proof -
  note d = vl_repD [OF r]
  let ?i = "length (nodes l) - 1"
  have i: "?i < length (nodes l)" "is_free (nodes l ! ?i)"
    using ne fr by (simp_all add: last_conv_nth)
  have "?i \<in> set (us @ fs)" using r i(1) by (simp add: vl_rep_def)
  with i d(9) have "?i \<in> set fs" by auto
  then obtain xs ys where fs: "fs = xs @ ?i # ys" by (meson split_list)
  have ci: "circ (nodes l) (?i # ys @ xs)"
    using d(2) circ_rotate [of "nodes l" xs "?i # ys"] fs by simp
  have nn: "nnext (nodes l ! ?i) = hd (ys @ xs @ [?i])"
    using circ_ends(2) [OF ci] by simp
  have dst: "distinct (?i # (ys @ xs) @ us)" using d(3) fs by auto
  have single: "list_is_single (nodes l) ?i = Some (ys @ xs = [])"
    by (rule list_is_single_circ [OF ci]) (use dst i(1) in auto)
  obtain ns where ns: "list_remove (nodes l) ?i = Some ns" "length ns = length (nodes l)"
    "circ ns (ys @ xs)" "circ ns us" "\<forall>j < length (nodes l). nvalue (ns ! j) = nvalue (nodes l ! j)"
    by (rule detach [OF ci d(1)]) (use dst d(4,6) fs i(1) that in auto)
  define ns1 where "ns1 = (if ys @ xs = [] then nodes l else ns)"
  have ns1: "length ns1 = length (nodes l)" "circ ns1 (xs @ ys)" "circ ns1 us"
    "\<forall>j < length (nodes l). nvalue (ns1 ! j) = nvalue (nodes l ! j)"
    using ns d(1) circ_rotate [of ns ys xs] by (auto simp: ns1_def)
  let ?l = "l\<lparr>nodes := butlast ns1, free := hd_opt (xs @ ys)\<rparr>"
  have "cleanup_last l = Some ?l"
    using single ns(1) nn d(8) fs i(1) dst
    by (cases xs; cases ys) (auto simp: cleanup_last_def ns1_def Let_def)
  moreover have s: "set (us @ xs @ ys) = {..<?i}"
  proof -
    have "set (us @ xs @ ys) = set (us @ fs) - {?i}" using dst fs by auto
    also have "\<dots> = {..<length (nodes l)} - {?i}" using r by (simp add: vl_rep_def)
    also have "\<dots> = {..<?i}" using ne by (intro lessThan_minus_last) simp
    finally show ?thesis .
  qed
  then have nth: "butlast ns1 ! j = ns1 ! j" if "j \<in> set (us @ xs @ ys)" for j
    using that ns1(1) by (intro nth_butlast) auto
  have "circ (butlast ns1) us = circ ns1 us" "circ (butlast ns1) (xs @ ys) = circ ns1 (xs @ ys)"
    by (rule circ_cong; use nth in simp)+
  then have "vl_rep ?l us [] (xs @ ys)"
    using ns1 nth s d(3,4,6,7,9,10) fs unfolding vl_rep_def by (auto simp: is_free_def)
  moreover have "values_kept l us ?l"
    using nth ns1(4) d(4) by (auto simp: values_kept_def)
  ultimately show thesis using that by simp
qed

lemma values_kept_trans: "values_kept l us l1 \<Longrightarrow> values_kept l1 us l2 \<Longrightarrow> values_kept l us l2"
  by (simp add: values_kept_def)

lemma cleanup_free_list_ok:
  assumes "vl_rep l us [] fs" and "vlen l = length us"
  shows "\<exists>l' fs'. cleanup_free_list l = Some l' \<and> vl_ok l' us fs' \<and> values_kept l us l'"
  using assms
proof (induction l arbitrary: fs rule: cleanup_free_list.induct)
  case (1 l)
  show ?case
  proof (cases "nodes l \<noteq> [] \<and> is_free (last (nodes l))")
    case True
    then obtain l1 fs1 where l1: "cleanup_last l = Some l1" "vl_rep l1 us [] fs1" "vlen l1 = vlen l"
      "values_kept l us l1"
      using cleanup_last_rep [OF "1.prems"(1)] by metis
    then obtain l' fs' where "cleanup_free_list l1 = Some l'" "vl_ok l' us fs'" "values_kept l1 us l'"
      using "1.IH" [OF True l1(1,2)] "1.prems"(2) by auto
    with True l1 show ?thesis
      by (auto simp: cleanup_free_list.simps [of l] intro: values_kept_trans)
  next
    case False
    then have "cleanup_free_list l = Some l"
      by (simp only: cleanup_free_list.simps [of l] False if_False)
    moreover have "vl_ok l us fs"
      using "1.prems" False by (auto simp: vl_ok_def compact_def)
    ultimately show ?thesis by (auto simp: values_kept_def)
  qed
qed

text \<open>The two halves of a removal: out of the used list, and into the free list.\<close>

lemma unlink_used:
  assumes r: "vl_rep l (as @ c # bs) [] fs"
  obtains ns where "list_remove (nodes l) c = Some ns" "length ns = length (nodes l)"
    "circ ns (as @ bs)" "circ ns fs" "\<forall>i < length (nodes l). nvalue (ns ! i) = nvalue (nodes l ! i)"
    "list_is_single (nodes l) c = Some (as @ bs = [])" "c < length (nodes l)"
    "nnext (nodes l ! c) = hd (bs @ as @ [c])" "nprev (nodes l ! c) = last (c # bs @ as)"
proof -
  note d = vl_repD [OF r]
  have cc: "circ (nodes l) (c # bs @ as)"
    using d(1) circ_rotate [of "nodes l" as "c # bs"] by simp
  have c: "c < length (nodes l)" using d(4) by simp
  have "list_is_single (nodes l) c = Some (bs @ as = [])"
    by (rule list_is_single_circ [OF cc]) (use d(3) c in auto)
  then have single: "list_is_single (nodes l) c = Some (as @ bs = [])" by auto
  obtain ns where ns: "list_remove (nodes l) c = Some ns" "length ns = length (nodes l)"
    "circ ns (bs @ as)" "circ ns fs" "\<forall>i < length (nodes l). nvalue (ns ! i) = nvalue (nodes l ! i)"
    by (rule detach [OF cc d(2)]) (use d(3-6) that in auto)
  have "circ ns (as @ bs)" using ns(3) circ_rotate by blast
  then show thesis using that [OF ns(1,2) _ ns(4,5) single c] circ_ends [OF cc] by simp
qed

lemma link_free:
  assumes "circ ns us" and "circ ns fs" and "distinct (us @ c # fs)"
    and "set (us @ c # fs) \<subseteq> {..<length ns}"
  obtains ns' where
    "(case hd_opt fs of Some f \<Rightarrow> list_insert_prev ns f c | None \<Rightarrow> list_link ns c c) = Some ns'"
    "length ns' = length ns" "circ ns' us" "circ ns' (fs @ [c])"
    "\<forall>i < length ns. nvalue (ns' ! i) = nvalue (ns ! i)"
proof (cases fs)
  case Nil
  show thesis
    by (rule attach_single [OF assms(1), of c]) (use assms Nil that in auto)
next
  case (Cons f gs)
  show thesis
    by (rule attach [of ns f gs us c]) (use assms Cons that in auto)
qed

lemma vl_remove_ok:
  assumes ok: "vl_ok l (as @ c # bs) fs"
  obtains v l' fs' where "nvalue (nodes l ! c) = Some v" "vl_remove l c = Some (v, l')"
    "vl_ok l' (as @ bs) fs'" "values_kept l (as @ bs) l'"
proof -
  have r: "vl_rep l (as @ c # bs) [] fs" and len: "vlen l = Suc (length (as @ bs))"
    using ok by (auto simp: vl_ok_def)
  note d = vl_repD [OF r]
  obtain ns where ns: "list_remove (nodes l) c = Some ns" "length ns = length (nodes l)"
    "circ ns (as @ bs)" "circ ns fs" "\<forall>i < length (nodes l). nvalue (ns ! i) = nvalue (nodes l ! i)"
    "list_is_single (nodes l) c = Some (as @ bs = [])" "c < length (nodes l)"
    "nnext (nodes l ! c) = hd (bs @ as @ [c])"
    by (rule unlink_used [OF r])
  have live: "\<not> is_null l c" using vl_ok_live [OF ok, of c] by simp
  obtain v where v: "nvalue (nodes l ! c) = Some v"
    using d(9) [of c] by (auto simp: is_free_def)
  let ?ns1 = "ns[c := (ns ! c)\<lparr>nvalue := None\<rparr>]"
  obtain ns2 where ns2:
    "(case hd_opt fs of Some f \<Rightarrow> list_insert_prev ?ns1 f c | None \<Rightarrow> list_link ?ns1 c c) = Some ns2"
    "length ns2 = length ns" "circ ns2 (as @ bs)" "circ ns2 (fs @ [c])"
    "\<forall>i < length ns. nvalue (ns2 ! i) = nvalue (?ns1 ! i)"
    by (rule link_free [of ?ns1 "as @ bs" fs c]) (use ns d(3-6) that in auto)
  let ?l2 = "l\<lparr>nodes := ns2, vlen := length (as @ bs), used := hd_opt (as @ bs), free := hd_opt (fs @ [c])\<rparr>"
  have val: "nvalue (ns2 ! i) = (if i = c then None else nvalue (nodes l ! i))" if "i < length (nodes l)" for i
    using that ns(2,5,7) ns2(5) by (auto simp: nth_list_update)
  have "vl_rep ?l2 (as @ bs) [] (fs @ [c])"
    using r ns(2) ns2(2-4) val d(3,4,6) unfolding vl_rep_def by (auto simp: is_free_def)
  then obtain l' fs' where l': "cleanup_free_list ?l2 = Some l'" "vl_ok l' (as @ bs) fs'"
    "values_kept ?l2 (as @ bs) l'"
    using cleanup_free_list_ok [of ?l2 "as @ bs" "fs @ [c]"] by auto
  have "vl_remove l c = Some (v, l')"
    using live ns(1,2,5-8) ns2(1) v len d(7,8) l'(1) d(3)
    by (cases l, cases as; cases bs; cases fs) (auto simp: vl_remove_def Let_def)
  moreover have "values_kept l (as @ bs) ?l2"
    using val d(3,4) by (auto simp: values_kept_def)
  ultimately show thesis
    using that v l' values_kept_trans by blast
qed

section \<open>Moving a node to an end\<close>

lemma relocate:
  assumes r: "vl_rep l (u # as @ c # bs) [] fs"
  obtains ns ns' where "list_remove (nodes l) c = Some ns" "list_insert_prev ns u c = Some ns'"
    "length ns' = length (nodes l)" "circ ns' (u # as @ bs @ [c])" "circ ns' fs"
    "\<forall>i < length (nodes l). nvalue (ns' ! i) = nvalue (nodes l ! i)"
proof -
  note d = vl_repD [OF r]
  have r': "vl_rep l ((u # as) @ c # bs) [] fs" using r by simp
  obtain ns where ns: "list_remove (nodes l) c = Some ns" "length ns = length (nodes l)"
    "circ ns ((u # as) @ bs)" "circ ns fs" "\<forall>i < length (nodes l). nvalue (ns ! i) = nvalue (nodes l ! i)"
    by (rule unlink_used [OF r'])
  obtain ns' where ns': "list_insert_prev ns u c = Some ns'" "length ns' = length ns"
    "circ ns' (u # (as @ bs) @ [c])" "circ ns' fs" "\<forall>i < length ns. nvalue (ns' ! i) = nvalue (ns ! i)"
    by (rule attach [of ns u "as @ bs" fs c]) (use ns d(3-6) that in auto)
  show thesis using that [OF ns(1) ns'(1)] ns ns' by simp
qed

lemma vl_ok_relink:
  assumes "vl_ok l us fs" and "length (nodes l') = length (nodes l)"
    and "\<forall>i < length (nodes l). nvalue (nodes l' ! i) = nvalue (nodes l ! i)"
    and "circ (nodes l') us'" and "circ (nodes l') fs" and "mset us' = mset us"
    and "used l' = hd_opt us'" and "free l' = free l" and "vlen l' = vlen l"
  shows "vl_ok l' us' fs" and "values_kept l us l'"
proof -
  have r: "vl_rep l us [] fs" and "vlen l = length us" and k: "compact (nodes l)"
    using assms(1) by (auto simp: vl_ok_def)
  note d = vl_repD [OF r]
  have s: "set us' = set us" using assms(6) by (metis set_mset_mset)
  moreover have "distinct us' = distinct us" using assms(6) mset_eq_imp_distinct_iff by blast
  ultimately have "vl_rep l' us' [] fs"
    using d assms(7,8) by (intro vl_rep_relink [OF r assms(2-5)]) auto
  moreover have "compact (nodes l')" by (rule compact_relink [OF k assms(2,3)])
  moreover have "length us' = length us" using assms(6) by (metis size_mset)
  ultimately show "vl_ok l' us' fs" using assms(9) \<open>vlen l = length us\<close> by (simp add: vl_ok_def)
  show "values_kept l us l'" using assms(3) d(4) by (auto simp: values_kept_def)
qed

lemma move_front_ok:
  assumes ok: "vl_ok l (as @ c # bs) fs"
  obtains l' where "move_front l c = Some l'" "vl_ok l' (c # as @ bs) fs"
    "values_kept l (as @ c # bs) l'"
proof (cases as)
  case Nil
  have "move_front l c = Some l"
    using ok Nil vl_ok_live [OF ok, of c] by (simp add: move_front_def vl_ok_def vl_rep_def)
  then show thesis using that ok Nil by (simp add: values_kept_def)
next
  case (Cons u as')
  have r: "vl_rep l (u # as' @ c # bs) [] fs" using ok Cons by (simp add: vl_ok_def)
  obtain ns ns' where n: "list_remove (nodes l) c = Some ns" "list_insert_prev ns u c = Some ns'"
    "length ns' = length (nodes l)" "circ ns' (u # as' @ bs @ [c])" "circ ns' fs"
    "\<forall>i < length (nodes l). nvalue (ns' ! i) = nvalue (nodes l ! i)"
    by (rule relocate [OF r])
  have u: "u < length (nodes l)" "c \<noteq> u" "used l = Some u" using vl_repD [OF r] by auto
  have p: "nprev (ns' ! u) = c" using circ_ends(1) [OF n(4)] by simp
  have cc: "circ ns' (c # as @ bs)"
    using n(4) circ_rotate [of ns' "u # as' @ bs" "[c]"] Cons by simp
  have "move_front l c = Some (l\<lparr>nodes := ns', used := Some c\<rparr>)"
    using n(1-3) p u vl_ok_live [OF ok, of c] by (simp add: move_front_def)
  then show thesis
    by (rule that) (use vl_ok_relink [OF ok, of "l\<lparr>nodes := ns', used := Some c\<rparr>" "c # as @ bs"] n cc in simp_all)
qed

lemma move_back_ok:
  assumes ok: "vl_ok l (as @ c # bs) fs"
  obtains l' where "move_back l c = Some l'" "vl_ok l' (as @ bs @ [c]) fs"
    "values_kept l (as @ c # bs) l'"
proof (cases as)
  case Nil
  let ?l = "l\<lparr>used := hd_opt (bs @ [c])\<rparr>"
  have r: "vl_rep l (c # bs) [] fs" using ok Nil by (simp add: vl_ok_def)
  note d = vl_repD [OF r]
  have "nnext (nodes l ! c) = hd (bs @ [c])" by (rule circ_ends(2) [OF d(1)])
  then have "move_back l c = Some ?l"
    using d(4,7) vl_ok_live [OF ok, of c] by (cases bs) (simp_all add: move_back_def)
  moreover have "circ (nodes l) (bs @ [c])" using d(1) circ_rotate [of "nodes l" "[c]" bs] by simp
  ultimately show thesis
    by (intro that [of ?l]) (use vl_ok_relink [OF ok, of ?l "bs @ [c]"] d Nil in simp_all)
next
  case (Cons u as')
  have r: "vl_rep l (u # as' @ c # bs) [] fs" using ok Cons by (simp add: vl_ok_def)
  obtain ns ns' where n: "list_remove (nodes l) c = Some ns" "list_insert_prev ns u c = Some ns'"
    "length ns' = length (nodes l)" "circ ns' (u # as' @ bs @ [c])" "circ ns' fs"
    "\<forall>i < length (nodes l). nvalue (ns' ! i) = nvalue (nodes l ! i)"
    by (rule relocate [OF r])
  have u: "c \<noteq> u" "used l = Some u" using vl_repD [OF r] by auto
  have "move_back l c = Some (l\<lparr>nodes := ns'\<rparr>)"
    using n(1-2) u vl_ok_live [OF ok, of c] by (simp add: move_back_def)
  then show thesis
    by (rule that) (use vl_ok_relink [OF ok, of "l\<lparr>nodes := ns'\<rparr>" "as @ bs @ [c]"] n u Cons in simp_all)
qed

section \<open>The view\<close>

lemma vl_view_ok: "vl_ok l us fs \<Longrightarrow> vl_view l = map (\<lambda>i. (i, the (nvalue (nodes l ! i)))) us"
  by (simp add: vl_view_def vl_ok_cursors)

lemma fst_vl_view [simp]: "map fst (vl_view l) = vl_cursors l"
  by (simp add: vl_view_def comp_def)

lemma vl_inv_distinct: "vl_inv l \<Longrightarrow> distinct (vl_cursors l)"
  by (auto simp: vl_inv_def vl_ok_def vl_rep_def)

text \<open>The nodes hold the values of the view; and a view is determined by its nodes.\<close>

definition holds :: "'a vec_list \<Rightarrow> (cursor \<times> 'a) list \<Rightarrow> bool" where
  "holds l ps \<longleftrightarrow> (\<forall>p \<in> set ps. nvalue (nodes l ! fst p) = Some (snd p))"

lemma holds_simps [simp]:
  "holds l []"
  "holds l (p # ps) \<longleftrightarrow> nvalue (nodes l ! fst p) = Some (snd p) \<and> holds l ps"
  "holds l (ps @ qs) \<longleftrightarrow> holds l ps \<and> holds l qs"
  by (auto simp: holds_def)

lemma holds_kept: "holds l ps \<Longrightarrow> values_kept l (map fst ps) l' \<Longrightarrow> holds l' ps"
  by (simp add: holds_def values_kept_def)

lemma vl_viewE:
  assumes "vl_inv l"
  obtains fs where "vl_ok l (map fst (vl_view l)) fs" and "holds l (vl_view l)"
proof -
  obtain fs where ok: "vl_ok l (vl_cursors l) fs" by (rule vl_invE [OF assms])
  then have "\<forall>i \<in> set (vl_cursors l). \<not> is_free (nodes l ! i)" by (simp add: vl_ok_def vl_rep_def)
  then have "holds l (vl_view l)" by (auto simp: holds_def vl_view_def is_free_def)
  with ok show thesis using that by simp
qed

lemma vl_viewI:
  assumes "vl_ok l (map fst ps) fs" and "holds l ps"
  shows "vl_inv l" and "vl_view l = ps"
proof -
  show "vl_inv l" by (rule vl_ok_inv [OF assms(1)])
  have "map (\<lambda>i. (i, the (nvalue (nodes l ! i)))) (map fst ps) = ps"
    using assms(2) by (induction ps) auto
  then show "vl_view l = ps" using assms(1) by (simp add: vl_view_ok)
qed

section \<open>The contract\<close>

locale cursor_list =
  fixes inv :: "'l \<Rightarrow> bool"
    and view :: "'l \<Rightarrow> (cursor \<times> 'a) list"
    and new :: "'l"
    and push_front :: "'l \<Rightarrow> 'a \<Rightarrow> (cursor \<times> 'l) option"
    and push_back :: "'l \<Rightarrow> 'a \<Rightarrow> (cursor \<times> 'l) option"
    and insert_prev :: "'l \<Rightarrow> cursor \<Rightarrow> 'a \<Rightarrow> (cursor \<times> 'l) option"
    and insert_next :: "'l \<Rightarrow> cursor \<Rightarrow> 'a \<Rightarrow> (cursor \<times> 'l) option"
    and remove :: "'l \<Rightarrow> cursor \<Rightarrow> ('a \<times> 'l) option"
    and move_front :: "'l \<Rightarrow> cursor \<Rightarrow> 'l option"
    and move_back :: "'l \<Rightarrow> cursor \<Rightarrow> 'l option"
    and get :: "'l \<Rightarrow> cursor \<Rightarrow> 'a option"
    and set_val :: "'l \<Rightarrow> cursor \<Rightarrow> 'a \<Rightarrow> 'l option"
  assumes inv_new: "inv new" and view_new: "view new = []"
    and distinct_view: "inv l \<Longrightarrow> distinct (map fst (view l))"
    and push_front: "inv l \<Longrightarrow> \<exists>c l'. push_front l v = Some (c, l') \<and> inv l' \<and> view l' = (c, v) # view l"
    and push_back: "inv l \<Longrightarrow> \<exists>c l'. push_back l v = Some (c, l') \<and> inv l' \<and> view l' = view l @ [(c, v)]"
    and insert_prev: "inv l \<Longrightarrow> view l = xs @ (c, w) # ys \<Longrightarrow>
      \<exists>c' l'. insert_prev l c v = Some (c', l') \<and> inv l' \<and> view l' = xs @ (c', v) # (c, w) # ys"
    and insert_next: "inv l \<Longrightarrow> view l = xs @ (c, w) # ys \<Longrightarrow>
      \<exists>c' l'. insert_next l c v = Some (c', l') \<and> inv l' \<and> view l' = xs @ (c, w) # (c', v) # ys"
    and remove: "inv l \<Longrightarrow> view l = xs @ (c, v) # ys \<Longrightarrow>
      \<exists>l'. remove l c = Some (v, l') \<and> inv l' \<and> view l' = xs @ ys"
    and move_front: "inv l \<Longrightarrow> view l = xs @ (c, v) # ys \<Longrightarrow>
      \<exists>l'. move_front l c = Some l' \<and> inv l' \<and> view l' = (c, v) # xs @ ys"
    and move_back: "inv l \<Longrightarrow> view l = xs @ (c, v) # ys \<Longrightarrow>
      \<exists>l'. move_back l c = Some l' \<and> inv l' \<and> view l' = xs @ ys @ [(c, v)]"
    and get: "inv l \<Longrightarrow> view l = xs @ (c, v) # ys \<Longrightarrow> get l c = Some v"
    and set_val: "inv l \<Longrightarrow> view l = xs @ (c, v) # ys \<Longrightarrow>
      \<exists>l'. set_val l c w = Some l' \<and> inv l' \<and> view l' = xs @ (c, w) # ys"
begin

lemma fresh_push_back:
  assumes "inv l" and "push_back l v = Some (c, l')"
  shows "c \<notin> fst ` set (view l)"
  using push_back [OF assms(1), of v] assms(2) distinct_view [of l'] by auto

lemma get_mem: "inv l \<Longrightarrow> (c, v) \<in> set (view l) \<Longrightarrow> get l c = Some v"
  by (meson get split_list)

text \<open>What a queue built on the list relies on: values come out in the order they went in.\<close>

lemma push_remove_fifo:
  assumes "inv l" and "view l = (c, v) # ys"
  shows "\<exists>d l1 l2. push_back l w = Some (d, l1) \<and> remove l1 c = Some (v, l2) \<and> inv l2 \<and>
    view l2 = ys @ [(d, w)]"
proof -
  obtain d l1 where l1: "push_back l w = Some (d, l1)" "inv l1" "view l1 = view l @ [(d, w)]"
    using push_back [OF assms(1)] by blast
  moreover obtain l2 where "remove l1 c = Some (v, l2)" "inv l2" "view l2 = ys @ [(d, w)]"
    using remove [OF l1(2), of "[]" c v "ys @ [(d, w)]"] l1(3) assms(2) by auto
  ultimately show ?thesis by blast
qed

end

lemma vl_new_ok: "vl_ok vl_new [] []"
  by (simp add: vl_ok_def vl_rep_def vl_new_def compact_def)

lemma set_impl_ok:
  assumes "vl_ok l us fs" and "c \<in> set us"
  obtains l' where "set_impl l c v = Some l'" "vl_ok l' us fs" "nvalue (nodes l' ! c) = Some v"
    "\<forall>i. i \<noteq> c \<longrightarrow> nvalue (nodes l' ! i) = nvalue (nodes l ! i)"
proof -
  let ?l = "l\<lparr>nodes := (nodes l)[c := (nodes l ! c)\<lparr>nvalue := Some v\<rparr>]\<rparr>"
  have r: "vl_rep l us [] fs" and k: "compact (nodes l)" "vlen l = length us"
    using assms(1) by (auto simp: vl_ok_def)
  note d = vl_repD [OF r]
  have c: "c < length (nodes l)" "\<not> is_free (nodes l ! c)" "c \<notin> set fs" using assms(2) d by auto
  have "set_impl l c v = Some ?l" using c by (auto simp: set_impl_def is_free_def)
  moreover have "vl_rep ?l us [] fs"
    using r c unfolding vl_rep_def by (auto simp: nth_list_update is_free_def)
  moreover have "compact (nodes ?l)" using k(1) c by (auto simp: compact_iff nth_list_update)
  ultimately show thesis
    using k c by (intro that [of ?l]) (auto simp: vl_ok_def nth_list_update)
qed

interpretation vl: cursor_list vl_inv vl_view vl_new push_front push_back insert_prev insert_next
  vl_remove move_front move_back get_impl set_impl
proof (unfold_locales, goal_cases)
  case 1
  show ?case by (rule vl_ok_inv [OF vl_new_ok])
next
  case 2
  show ?case by (simp add: vl_view_ok [OF vl_new_ok])
next
  case (3 l)
  then show ?case by (simp add: vl_inv_distinct)
next
  case (4 l v)
  obtain fs where o: "vl_ok l (map fst (vl_view l)) fs" "holds l (vl_view l)" by (rule vl_viewE [OF 4])
  obtain c l' fs' where "push_front l v = Some (c, l')" "vl_ok l' (c # map fst (vl_view l)) fs'"
    "nvalue (nodes l' ! c) = Some v" "values_kept l (map fst (vl_view l)) l'"
    by (rule push_front_ok [OF o(1)])
  then show ?case using vl_viewI [of l' "(c, v) # vl_view l" fs'] holds_kept [OF o(2)] by auto
next
  case (5 l v)
  obtain fs where o: "vl_ok l (map fst (vl_view l)) fs" "holds l (vl_view l)" by (rule vl_viewE [OF 5])
  obtain c l' fs' where "push_back l v = Some (c, l')" "vl_ok l' (map fst (vl_view l) @ [c]) fs'"
    "nvalue (nodes l' ! c) = Some v" "values_kept l (map fst (vl_view l)) l'"
    by (rule push_back_ok [OF o(1)])
  then show ?case using vl_viewI [of l' "vl_view l @ [(c, v)]" fs'] holds_kept [OF o(2)] by auto
next
  case (6 l xs c w ys v)
  obtain fs where o: "vl_ok l (map fst (vl_view l)) fs" "holds l (vl_view l)"
    by (rule vl_viewE [OF 6(1)])
  then have ok: "vl_ok l (map fst xs @ c # map fst ys) fs" using 6(2) by simp
  obtain c' l' fs' where "insert_prev l c v = Some (c', l')"
    "vl_ok l' (map fst xs @ c' # c # map fst ys) fs'" "nvalue (nodes l' ! c') = Some v"
    "values_kept l (map fst xs @ c # map fst ys) l'"
    by (rule insert_prev_ok [OF ok])
  then show ?case using vl_viewI [of l' "xs @ (c', v) # (c, w) # ys" fs'] holds_kept [OF o(2)] 6(2)
    by auto
next
  case (7 l xs c w ys v)
  obtain fs where o: "vl_ok l (map fst (vl_view l)) fs" "holds l (vl_view l)"
    by (rule vl_viewE [OF 7(1)])
  then have ok: "vl_ok l (map fst xs @ c # map fst ys) fs" using 7(2) by simp
  obtain c' l' fs' where "insert_next l c v = Some (c', l')"
    "vl_ok l' (map fst xs @ c # c' # map fst ys) fs'" "nvalue (nodes l' ! c') = Some v"
    "values_kept l (map fst xs @ c # map fst ys) l'"
    by (rule insert_next_ok [OF ok])
  then show ?case using vl_viewI [of l' "xs @ (c, w) # (c', v) # ys" fs'] holds_kept [OF o(2)] 7(2)
    by auto
next
  case (8 l xs c v ys)
  obtain fs where o: "vl_ok l (map fst (vl_view l)) fs" "holds l (vl_view l)"
    by (rule vl_viewE [OF 8(1)])
  then have ok: "vl_ok l (map fst xs @ c # map fst ys) fs" using 8(2) by simp
  have h: "holds l (xs @ ys)" "nvalue (nodes l ! c) = Some v" using o(2) 8(2) by auto
  obtain v' l' fs' where "nvalue (nodes l ! c) = Some v'" "vl_remove l c = Some (v', l')"
    "vl_ok l' (map fst xs @ map fst ys) fs'" "values_kept l (map fst xs @ map fst ys) l'"
    by (rule vl_remove_ok [OF ok])
  then show ?case using vl_viewI [of l' "xs @ ys" fs'] holds_kept [OF h(1)] h(2) by auto
next
  case (9 l xs c v ys)
  obtain fs where o: "vl_ok l (map fst (vl_view l)) fs" "holds l (vl_view l)"
    by (rule vl_viewE [OF 9(1)])
  then have ok: "vl_ok l (map fst xs @ c # map fst ys) fs" using 9(2) by simp
  obtain l' where "move_front l c = Some l'" "vl_ok l' (c # map fst xs @ map fst ys) fs"
    "values_kept l (map fst xs @ c # map fst ys) l'"
    by (rule move_front_ok [OF ok])
  then show ?case using vl_viewI [of l' "(c, v) # xs @ ys" fs] holds_kept [OF o(2)] 9(2) by auto
next
  case (10 l xs c v ys)
  obtain fs where o: "vl_ok l (map fst (vl_view l)) fs" "holds l (vl_view l)"
    by (rule vl_viewE [OF 10(1)])
  then have ok: "vl_ok l (map fst xs @ c # map fst ys) fs" using 10(2) by simp
  obtain l' where "move_back l c = Some l'" "vl_ok l' (map fst xs @ map fst ys @ [c]) fs"
    "values_kept l (map fst xs @ c # map fst ys) l'"
    by (rule move_back_ok [OF ok])
  then show ?case using vl_viewI [of l' "xs @ ys @ [(c, v)]" fs] holds_kept [OF o(2)] 10(2) by auto
next
  case (11 l xs c v ys)
  obtain fs where "vl_ok l (map fst (vl_view l)) fs" "holds l (vl_view l)"
    by (rule vl_viewE [OF 11(1)])
  then have "c < length (nodes l)" "nvalue (nodes l ! c) = Some v"
    using 11(2) by (auto simp: vl_ok_def dest: vl_repD(4))
  then show ?case using 11(2) by (simp add: get_impl_def)
next
  case (12 l xs c v ys w)
  obtain fs where o: "vl_ok l (map fst (vl_view l)) fs" "holds l (vl_view l)"
    by (rule vl_viewE [OF 12(1)])
  then obtain l' where l': "set_impl l c w = Some l'" "vl_ok l' (map fst (vl_view l)) fs"
    "nvalue (nodes l' ! c) = Some w" "\<forall>i. i \<noteq> c \<longrightarrow> nvalue (nodes l' ! i) = nvalue (nodes l ! i)"
    using 12(2) by (elim set_impl_ok [of l "map fst (vl_view l)" fs c w]) auto
  have "distinct (map fst (vl_view l))" using vl_inv_distinct [OF 12(1)] by simp
  then have "\<forall>p \<in> set (xs @ ys). fst p \<noteq> c" using 12(2) by (auto simp: rev_image_eqI)
  then have "holds l' (xs @ ys)" using o(2) 12(2) l'(4) by (auto simp: holds_def)
  with l' show ?case using vl_viewI [of l' "xs @ (c, w) # ys" fs] 12(2) by auto
qed

end
