(* ===== verification/Vec_List_Spec.thy ===== *)
theory Vec_List_Spec
  imports Vec_List
begin

text \<open>
  What \<open>VecList\<close> promises (\<open>src/rust/g1/base/src/collections/vec_list.rs\<close>), stated over whole runs:
  the abstract list steps on sequences of (cursor, value) pairs, the simulation by the node array,
  panics exactly on dead cursors, and the two-ended iterators.
\<close>

section \<open>Operations and the abstract steps\<close>

datatype 'a vl_op =
    PushFront 'a
  | PushBack 'a
  | InsertPrev cursor 'a
  | InsertNext cursor 'a
  | Remove cursor
  | MoveFront cursor
  | MoveBack cursor
  | PopFront
  | PopBack
  | Clear

fun vl_exec :: "'a vl_op \<Rightarrow> 'a vec_list \<Rightarrow> 'a vec_list option" where
  "vl_exec (PushFront v) l = map_option snd (push_front l v)"
| "vl_exec (PushBack v) l = map_option snd (push_back l v)"
| "vl_exec (InsertPrev c v) l = map_option snd (insert_prev l c v)"
| "vl_exec (InsertNext c v) l = map_option snd (insert_next l c v)"
| "vl_exec (Remove c) l = map_option snd (vl_remove l c)"
| "vl_exec (MoveFront c) l = move_front l c"
| "vl_exec (MoveBack c) l = move_back l c"
| "vl_exec PopFront l = map_option snd (pop_front l)"
| "vl_exec PopBack l = map_option snd (pop_back l)"
| "vl_exec Clear l = Some (vl_clear l)"

fun vl_run :: "'a vl_op list \<Rightarrow> 'a vec_list \<Rightarrow> 'a vec_list option" where
  "vl_run [] l = Some l"
| "vl_run (p # ps) l = do { l \<leftarrow> vl_exec p l; vl_run ps l }"

fun op_cursor :: "'a vl_op \<Rightarrow> cursor option" where
  "op_cursor (InsertPrev c v) = Some c"
| "op_cursor (InsertNext c v) = Some c"
| "op_cursor (Remove c) = Some c"
| "op_cursor (MoveFront c) = Some c"
| "op_cursor (MoveBack c) = Some c"
| "op_cursor _ = None"

definition op_live :: "'a vl_op \<Rightarrow> (cursor \<times> 'a) list \<Rightarrow> bool" where
  "op_live p ps \<longleftrightarrow> (case op_cursor p of None \<Rightarrow> True | Some c \<Rightarrow> c \<in> fst ` set ps)"

inductive cl_step :: "(cursor \<times> 'a) list \<Rightarrow> 'a vl_op \<Rightarrow> (cursor \<times> 'a) list \<Rightarrow> bool" where
  push_front: "c \<notin> fst ` set ps \<Longrightarrow> cl_step ps (PushFront v) ((c, v) # ps)"
| push_back: "c \<notin> fst ` set ps \<Longrightarrow> cl_step ps (PushBack v) (ps @ [(c, v)])"
| insert_prev: "c' \<notin> fst ` set (xs @ (c, w) # ys) \<Longrightarrow>
    cl_step (xs @ (c, w) # ys) (InsertPrev c v) (xs @ (c', v) # (c, w) # ys)"
| insert_next: "c' \<notin> fst ` set (xs @ (c, w) # ys) \<Longrightarrow>
    cl_step (xs @ (c, w) # ys) (InsertNext c v) (xs @ (c, w) # (c', v) # ys)"
| remove: "cl_step (xs @ (c, v) # ys) (Remove c) (xs @ ys)"
| move_front: "cl_step (xs @ (c, v) # ys) (MoveFront c) ((c, v) # xs @ ys)"
| move_back: "cl_step (xs @ (c, v) # ys) (MoveBack c) (xs @ ys @ [(c, v)])"
| pop_front: "cl_step ps PopFront (tl ps)"
| pop_back: "cl_step ps PopBack (butlast ps)"
| clear: "cl_step ps Clear []"

inductive_cases cl_step_removeE: "cl_step ps (Remove c) qs"

fun cl_run :: "(cursor \<times> 'a) list \<Rightarrow> 'a vl_op list \<Rightarrow> (cursor \<times> 'a) list \<Rightarrow> bool" where
  "cl_run ps [] qs \<longleftrightarrow> ps = qs"
| "cl_run ps (p # os) qs \<longleftrightarrow> (\<exists>rs. cl_step ps p rs \<and> op_live p ps \<and> cl_run rs os qs)"

section \<open>The ends of a list\<close>

lemma circ_adjacent:
  assumes "circ ns (as @ x # y # bs)"
  shows "nnext (ns ! x) = y" and "nprev (ns ! y) = x"
proof -
  have "circ ns ((x # y # bs) @ as)" using assms circ_rotate [of ns as "x # y # bs"] by simp
  then show "nnext (ns ! x) = y" "nprev (ns ! y) = x" by (auto simp: link_def circ.simps(2))
qed

lemma hd_opt_rev: "us \<noteq> [] \<Longrightarrow> hd_opt (rev us) = Some (last us)"
  by (cases us rule: rev_cases) auto

lemma cursor_ends:
  assumes "vl_ok l us fs"
  shows "cursor_front l = hd_opt us" and "cursor_back l = Some (hd_opt (rev us))"
proof -
  have d: "circ (nodes l) us" "set us \<subseteq> {..<length (nodes l)}" "used l = hd_opt us"
    using assms vl_repD [of l us "[]" fs] by (auto simp: vl_ok_def)
  show "cursor_front l = hd_opt us" using d by (simp add: cursor_front_def)
  show "cursor_back l = Some (hd_opt (rev us))"
  proof (cases us)
    case (Cons u vs)
    then have "nprev (nodes l ! u) = last us" using circ_ends(1) [of "nodes l" u vs] d(1) by simp
    moreover have "hd_opt (rev us) = Some (last us)"
      using Cons by (intro hd_opt_rev) simp
    ultimately show ?thesis using d Cons by (simp add: cursor_back_def)
  qed (use d in \<open>simp add: cursor_back_def\<close>)
qed

lemma hd_opt_map: "hd_opt (map f xs) = map_option f (hd_opt xs)"
  by (cases xs) auto

lemma view_ends:
  assumes "vl_inv l"
  shows "cursor_front l = map_option fst (hd_opt (vl_view l))"
    and "cursor_back l = Some (map_option fst (hd_opt (rev (vl_view l))))"
proof -
  obtain fs where "vl_ok l (map fst (vl_view l)) fs" by (rule vl_viewE [OF assms])
  then show "cursor_front l = map_option fst (hd_opt (vl_view l))"
    and "cursor_back l = Some (map_option fst (hd_opt (rev (vl_view l))))"
    using cursor_ends [of l "map fst (vl_view l)" fs]
    by (simp_all del: fst_vl_view add: hd_opt_map rev_map)
qed

lemma pop_front_view:
  assumes "vl_inv l"
  shows "\<exists>l'. pop_front l = Some (map_option snd (hd_opt (vl_view l)), l') \<and> vl_inv l' \<and>
    vl_view l' = tl (vl_view l)"
proof (cases "vl_view l")
  case (Cons p ps)
  with vl.remove [OF assms, of "[]" "fst p" "snd p" ps] view_ends [OF assms] show ?thesis
    by (auto simp: pop_front_def)
qed (use assms view_ends [OF assms] in \<open>simp add: pop_front_def\<close>)

lemma pop_back_view:
  assumes "vl_inv l"
  shows "\<exists>l'. pop_back l = Some (map_option snd (hd_opt (rev (vl_view l))), l') \<and> vl_inv l' \<and>
    vl_view l' = butlast (vl_view l)"
proof (cases "vl_view l" rule: rev_cases)
  case (snoc ps p)
  with vl.remove [OF assms, of ps "fst p" "snd p" "[]"] view_ends [OF assms] show ?thesis
    by (auto simp: pop_back_def)
qed (use assms view_ends [OF assms] in \<open>simp add: pop_back_def\<close>)

lemma view_clear: "vl_inv (vl_clear l) \<and> vl_view (vl_clear l) = []"
proof -
  have "vl_clear l = vl_new" by (cases l) (simp add: vl_clear_def vl_new_def)
  then show ?thesis using vl.inv_new vl.view_new by simp
qed

section \<open>Simulation\<close>

lemma null_iff_dead: "vl_inv l \<Longrightarrow> is_null l c \<longleftrightarrow> c \<notin> fst ` set (vl_view l)"
  by (metis fst_vl_view list.set_map vl_invE vl_ok_live)

lemma dead_panics:
  assumes "vl_inv l" and "\<not> op_live p (vl_view l)"
  shows "vl_exec p l = None"
  using assms null_iff_dead [OF assms(1)]
  by (cases p) (auto simp: op_live_def insert_prev_def insert_next_def vl_remove_def
      move_front_def move_back_def rs_assert_def)

lemma fresh_head:
  "vl_inv l' \<Longrightarrow> vl_view l' = xs @ (c, v) # ys \<Longrightarrow> c \<notin> fst ` set (xs @ ys)"
  using vl.distinct_view [of l'] by auto

lemma live_steps:
  assumes inv: "vl_inv l" and live: "op_live p (vl_view l)"
  shows "\<exists>l'. vl_exec p l = Some l' \<and> vl_inv l' \<and> cl_step (vl_view l) p (vl_view l')"
proof -
  have split: "\<exists>xs v ys. vl_view l = xs @ (c, v) # ys" if "op_cursor p = Some c" for c
    using live that split_list [of _ "vl_view l"] by (fastforce simp: op_live_def)
  show ?thesis
  proof (cases p)
    case (PushFront v)
    obtain c l' where l': "push_front l v = Some (c, l')" "vl_inv l'" "vl_view l' = (c, v) # vl_view l"
      using vl.push_front [OF inv] by blast
    with PushFront fresh_head [of l' "[]" c v] show ?thesis by (auto intro!: cl_step.push_front)
  next
    case (PushBack v)
    obtain c l' where l': "push_back l v = Some (c, l')" "vl_inv l'" "vl_view l' = vl_view l @ [(c, v)]"
      using vl.push_back [OF inv] by blast
    with PushBack fresh_head [of l' "vl_view l" c v "[]"] show ?thesis
      by (auto intro!: cl_step.push_back)
  next
    case (InsertPrev c v)
    then obtain xs w ys where s: "vl_view l = xs @ (c, w) # ys" using split by fastforce
    from vl.insert_prev [OF inv s, of v] obtain c' l' where "insert_prev l c v = Some (c', l')"
      "vl_inv l'" "vl_view l' = xs @ (c', v) # (c, w) # ys" by blast
    with InsertPrev s fresh_head [of l' xs c' v] show ?thesis
      by (auto intro!: cl_step.insert_prev)
  next
    case (InsertNext c v)
    then obtain xs w ys where s: "vl_view l = xs @ (c, w) # ys" using split by fastforce
    from vl.insert_next [OF inv s, of v] obtain c' l' where "insert_next l c v = Some (c', l')"
      "vl_inv l'" "vl_view l' = xs @ (c, w) # (c', v) # ys" by blast
    with InsertNext s fresh_head [of l' "xs @ [(c, w)]" c' v] show ?thesis
      by (auto intro!: cl_step.insert_next)
  next
    case (Remove c)
    then obtain xs w ys where s: "vl_view l = xs @ (c, w) # ys" using split by fastforce
    with vl.remove [OF inv s] Remove show ?thesis by (auto intro: cl_step.remove)
  next
    case (MoveFront c)
    then obtain xs w ys where s: "vl_view l = xs @ (c, w) # ys" using split by fastforce
    with vl.move_front [OF inv s] MoveFront show ?thesis by (auto intro: cl_step.move_front)
  next
    case (MoveBack c)
    then obtain xs w ys where s: "vl_view l = xs @ (c, w) # ys" using split by fastforce
    with vl.move_back [OF inv s] MoveBack show ?thesis by (auto intro: cl_step.move_back)
  next
    case PopFront
    with pop_front_view [OF inv] show ?thesis by (auto intro: cl_step.pop_front)
  next
    case PopBack
    with pop_back_view [OF inv] show ?thesis by (auto intro: cl_step.pop_back)
  next
    case Clear
    with view_clear [of l] show ?thesis by (auto intro: cl_step.clear)
  qed
qed

lemma run_simulates:
  assumes "vl_inv l" and "vl_run ops l = Some l'"
  shows "vl_inv l' \<and> cl_run (vl_view l) ops (vl_view l')"
  using assms
proof (induction ops arbitrary: l)
  case (Cons p ops)
  then obtain l1 where l1: "vl_exec p l = Some l1" "vl_run ops l1 = Some l'"
    by (auto elim!: bind_eq_SomeE)
  then have live: "op_live p (vl_view l)" using dead_panics [OF Cons.prems(1), of p] by auto
  with live_steps [OF Cons.prems(1) live] l1 Cons.IH show ?case by auto
qed simp

section \<open>Iterators\<close>

definition it_at :: "'a vec_list \<Rightarrow> vl_iter \<Rightarrow> (cursor \<times> 'a) list \<Rightarrow> bool" where
  "it_at l it ps \<longleftrightarrow>
     (\<exists>xs zs. vl_view l = xs @ ps @ zs) \<and>
     it = \<lparr>it_start = map_option fst (hd_opt ps), it_end = map_option fst (hd_opt (rev ps)),
           it_len = length ps\<rparr>"

lemma it_at_new: "vl_inv l \<Longrightarrow> \<exists>it. iter_new l = Some it \<and> it_at l it (vl_view l)"
proof -
  assume inv: "vl_inv l"
  then obtain fs where "vl_ok l (vl_cursors l) fs" by (rule vl_invE)
  then have "vlen l = length (vl_view l)" by (simp add: vl_ok_def vl_view_def)
  moreover have "\<exists>xs zs. vl_view l = xs @ vl_view l @ zs" by (intro exI [of _ "[]"]) simp
  ultimately show ?thesis using view_ends [OF inv] by (simp add: iter_new_def it_at_def)
qed

lemma step_within:
  assumes inv: "vl_inv l" and s: "vl_view l = xs @ p # q # zs"
  shows "vl_next l (fst p) = Some (Some (fst q))" and "vl_prev l (fst q) = Some (Some (fst p))"
proof -
  let ?us = "map fst (vl_view l)"
  obtain fs where ok: "vl_ok l ?us fs" by (rule vl_viewE [OF inv])
  then have d: "circ (nodes l) ?us" "set ?us \<subseteq> {..<length (nodes l)}" "used l = hd_opt ?us"
    "\<forall>i \<in> set ?us. \<not> is_free (nodes l ! i)" "distinct ?us"
    using vl_repD [of l ?us "[]" fs] by (auto simp: vl_ok_def)
  from d(1) have a: "nnext (nodes l ! fst p) = fst q" "nprev (nodes l ! fst q) = fst p"
    using circ_adjacent [of "nodes l" "map fst xs" "fst p" "fst q" "map fst zs"] s by auto
  obtain u us where u: "?us = u # us" using s by (cases ?us) (auto simp: s simp del: fst_vl_view)
  then have e: "nprev (nodes l ! u) = last ?us" using circ_ends(1) [of "nodes l" u us] d(1) by simp
  have "fst p \<noteq> last ?us" using d(5) by (auto simp: s last_map simp del: fst_vl_view)
  then have n: "fst p \<noteq> nprev (nodes l ! u)" using e by simp
  have "u \<in> set ?us" using u by simp
  moreover have "fst p \<in> set ?us" "fst q \<in> set ?us" by (simp_all add: s del: fst_vl_view)
  ultimately have r: "u < length (nodes l)" "fst p < length (nodes l)" "fst q < length (nodes l)"
    "\<not> is_free (nodes l ! fst p)" "\<not> is_free (nodes l ! fst q)" using d(2,4) by auto
  have h: "used l = Some u" using d(3) u by simp
  show "vl_next l (fst p) = Some (Some (fst q))"
    using h n r a by (simp add: vl_next_def)
  have "fst q \<noteq> u" using d(5) u by (cases xs) (auto simp: s simp del: fst_vl_view)
  then show "vl_prev l (fst q) = Some (Some (fst p))"
    using h r a by (simp add: vl_prev_def)
qed

lemma iter_next_at:
  assumes inv: "vl_inv l" and i: "it_at l it (p # ps)"
  shows "\<exists>it'. iter_next l it = Some (Some (snd p), it') \<and> it_at l it' ps"
proof -
  obtain xs zs where v: "vl_view l = xs @ p # ps @ zs" using i by (auto simp: it_at_def)
  have g: "get_impl l (fst p) = Some (snd p)" by (rule vl.get_mem [OF inv]) (simp add: v)
  have k: "\<exists>xs' zs'. vl_view l = xs' @ ps @ zs'" using v by (metis append.assoc append_Cons append_Nil)
  show ?thesis
  proof (cases ps)
    case Nil
    with g i k show ?thesis by (auto simp: iter_next_def it_at_def rs_sub_def)
  next
    case (Cons q qs)
    have "distinct (map fst (vl_view l))" by (rule vl.distinct_view [OF inv])
    then have "fst p \<noteq> fst (last ps)" using v Cons by (auto simp del: fst_vl_view)
    with i Cons have "it_start it \<noteq> it_end it" by (auto simp: it_at_def hd_opt_append hd_opt_rev)
    moreover have "vl_next l (fst p) = Some (Some (fst q))"
      by (rule step_within [OF inv]) (simp add: v Cons)
    ultimately show ?thesis
      using g i k Cons by (auto simp: iter_next_def it_at_def rs_sub_def hd_opt_append)
  qed
qed

lemma iter_next_back_at:
  assumes inv: "vl_inv l" and i: "it_at l it (ps @ [p])"
  shows "\<exists>it'. iter_next_back l it = Some (Some (snd p), it') \<and> it_at l it' ps"
proof -
  obtain xs zs where v: "vl_view l = xs @ (ps @ [p]) @ zs" using i by (auto simp: it_at_def)
  have g: "get_impl l (fst p) = Some (snd p)" by (rule vl.get_mem [OF inv]) (simp add: v)
  have k: "\<exists>xs' zs'. vl_view l = xs' @ ps @ zs'" using v by auto
  show ?thesis
  proof (cases ps rule: rev_cases)
    case Nil
    with g i k show ?thesis by (auto simp: iter_next_back_def it_at_def rs_sub_def)
  next
    case (snoc qs q)
    have "distinct (map fst (vl_view l))" by (rule vl.distinct_view [OF inv])
    then have "fst p \<noteq> fst (hd ps)" using v snoc by (cases qs) (auto simp del: fst_vl_view)
    with i snoc have "it_start it \<noteq> it_end it" by (cases qs) (auto simp: it_at_def hd_opt_append)
    moreover have "vl_prev l (fst p) = Some (Some (fst q))"
      by (rule step_within(2) [OF inv, of "xs @ qs" q p zs]) (simp add: v snoc)
    ultimately show ?thesis
      using g i k snoc by (auto simp: iter_next_back_def it_at_def rs_sub_def hd_opt_append)
  qed
qed

text \<open>Taking values from both ends in any order; \<open>True\<close> asks for \<open>next\<close>, \<open>False\<close> for \<open>next_back\<close>.\<close>

fun iter_run :: "'a vec_list \<Rightarrow> vl_iter \<Rightarrow> bool list \<Rightarrow> 'a option list option" where
  "iter_run l it [] = Some []"
| "iter_run l it (d # ds) = do {
     (v, it) \<leftarrow> (if d then iter_next l it else iter_next_back l it);
     vs \<leftarrow> iter_run l it ds;
     Some (v # vs)
   }"

fun deque_run :: "'a list \<Rightarrow> bool list \<Rightarrow> 'a option list" where
  "deque_run xs [] = []"
| "deque_run xs (d # ds) =
     (if d then hd_opt xs # deque_run (tl xs) ds else hd_opt (rev xs) # deque_run (butlast xs) ds)"

lemma iter_run_at:
  "vl_inv l \<Longrightarrow> it_at l it ps \<Longrightarrow> iter_run l it ds = Some (deque_run (map snd ps) ds)"
proof (induction ds arbitrary: it ps)
  case (Cons d ds)
  show ?case
  proof (cases "ps = []")
    case True
    with Cons.prems have "iter_next l it = Some (None, it)" "iter_next_back l it = Some (None, it)"
      by (auto simp: it_at_def iter_next_def iter_next_back_def)
    with Cons True show ?thesis by simp
  next
    case False
    then obtain p qs where f: "ps = p # qs" by (cases ps) auto
    from False obtain p' qs' where b: "ps = qs' @ [p']" by (cases ps rule: rev_cases) auto
    show ?thesis
    proof (cases d)
      case True
      with iter_next_at [of l it p qs] Cons f show ?thesis by auto
    next
      case d: False
      with iter_next_back_at [of l it qs' p'] Cons b show ?thesis by (auto simp: map_butlast)
    qed
  qed
qed simp

lemma iter_collect_at:
  "vl_inv l \<Longrightarrow> it_at l it ps \<Longrightarrow> iter_collect l it = Some (map snd ps)"
proof (induction ps arbitrary: it)
  case Nil
  then show ?case by (subst iter_collect.simps) (simp add: it_at_def iter_next_def)
next
  case (Cons p ps)
  obtain it' where "iter_next l it = Some (Some (snd p), it')" "it_at l it' ps"
    using iter_next_at [OF Cons.prems] by blast
  with Cons show ?case by (subst iter_collect.simps) simp
qed

section \<open>Properties\<close>

lemmas vl_evals = push_front_def push_back_def vl_remove_def move_back_def new_node_def
  node_new_def node_assign_def is_null_def is_free_def list_is_single_def list_insert_prev_def
  list_remove_def list_link_def vl_new_def cleanup_free_list.simps cleanup_last_def rs_sub_def
  rs_assert_def vl_view_def vl_cursors_def

text \<open>
  C9. \<open>VecList\<close> refines a sequence of (cursor, value) pairs. Every list reached from \<open>new\<close> by any
  operations that did not panic satisfies the representation invariant (two disjoint circular
  lists that cover the node array, no free node at its end), the pairs it shows are a run of the
  abstract steps, and a further operation panics exactly when it is given a cursor that is not live.
\<close>

theorem vec_list_refines:
  assumes "vl_run ops vl_new = Some l"
  shows "vl_inv l \<and> cl_run [] ops (vl_view l) \<and>
    (\<forall>p. vl_exec p l = None \<longleftrightarrow> \<not> op_live p (vl_view l))"
proof -
  have r: "vl_inv l" "cl_run [] ops (vl_view l)"
    using run_simulates [OF vl.inv_new assms] by (auto simp: vl.view_new)
  then show ?thesis using dead_panics live_steps by (metis option.distinct(1))
qed

theorem vec_list_refines_witness:
  "\<exists>l. vl_run [PushBack (10::nat), PushBack 20, PushFront 30, Remove 1, MoveBack 2, PushBack 40] vl_new
       = Some l \<and> vl_inv l \<and> vl_view l = [(0, 10), (2, 30), (1, 40)] \<and> vl_exec (Remove 5) l = None"
proof -
  let ?ops = "[PushBack (10::nat), PushBack 20, PushFront 30, Remove 1, MoveBack 2, PushBack 40]"
  let ?l = "\<lparr>nodes = [\<lparr>nvalue = Some 10, nprev = 1, nnext = 2\<rparr>, \<lparr>nvalue = Some 40, nprev = 2, nnext = 0\<rparr>,
     \<lparr>nvalue = Some (30::nat), nprev = 0, nnext = 1\<rparr>], vlen = 3, used = Some 0, free = None\<rparr>"
  have run: "vl_run ?ops vl_new = Some ?l" by (simp add: vl_evals)
  have v: "vl_view ?l = [(0, 10), (2, 30), (1, 40)]" by (simp add: vl_evals numeral_3_eq_3)
  have "vl_inv ?l" "vl_exec (Remove 5) ?l = None \<longleftrightarrow> \<not> op_live (Remove 5) (vl_view ?l)"
    using vec_list_refines [OF run] by blast+
  with run v show ?thesis by (intro exI [of _ ?l]) (simp add: op_live_def del: vl_exec.simps)
qed

text \<open>
  The iterators are two-ended and exact: on every well-formed list, any interleaving of \<open>next\<close>
  and \<open>next_back\<close> hands out the values in list order from the two ends, each once, and keeps
  returning nothing after that; running \<open>next\<close> alone collects the whole list.
\<close>

theorem vec_list_iterates:
  assumes "vl_inv l"
  shows "\<exists>it. iter_new l = Some it \<and> iter_collect l it = Some (map snd (vl_view l)) \<and>
    (\<forall>ds. iter_run l it ds = Some (deque_run (map snd (vl_view l)) ds))"
  using it_at_new [OF assms] iter_collect_at [OF assms] iter_run_at [OF assms] by blast

theorem vec_list_iterates_witness:
  "\<exists>l it. vl_run [PushBack (1::nat), PushBack 2, PushBack 3] vl_new = Some l \<and> iter_new l = Some it \<and>
     iter_run l it [False, True, True, True] = Some [Some 3, Some 1, Some 2, None]"
proof -
  let ?l = "\<lparr>nodes = [\<lparr>nvalue = Some 1, nprev = 2, nnext = 1\<rparr>, \<lparr>nvalue = Some 2, nprev = 0, nnext = 2\<rparr>,
     \<lparr>nvalue = Some (3::nat), nprev = 1, nnext = 0\<rparr>], vlen = 3, used = Some 0, free = None\<rparr>"
  have run: "vl_run [PushBack (1::nat), PushBack 2, PushBack 3] vl_new = Some ?l" by (simp add: vl_evals)
  then have "vl_inv ?l" using run_simulates [OF vl.inv_new] by blast
  from vec_list_iterates [OF this] obtain it where "iter_new ?l = Some it"
    "iter_run ?l it [False, True, True, True] = Some (deque_run (map snd (vl_view ?l)) [False, True, True, True])"
    by blast
  moreover have "map snd (vl_view ?l) = [1, 2, 3]" by (simp add: vl_evals numeral_3_eq_3)
  ultimately show ?thesis using run by auto
qed

end
