(* ===== verification/Ordered_Map.thy ===== *)
theory Ordered_Map
  imports Vec_List_Spec
begin

text \<open>
  The insertion-ordered hash map \<open>HashOrderedMap\<close> (\<open>src/rust/g1/base/src/collections/ordered.rs\<close>):
  a hash index of cursors (\<open>HashIndexMap\<close> in \<open>index_map.rs\<close>) beside a \<open>VecList\<close> of entries.

  The hash table itself is the crate \<open>hashbrown\<close>. Its contents are the list of stored cursors in
  bucket order; where an insertion puts a cursor, and how it reorders the others when the table
  grows, is the parameter \<open>place\<close>, of which only \<open>placement\<close> is used: the table holds what it held
  and the new cursor. Lookup compares keys through the entry list as \<open>make_eq\<close> does.
\<close>

section \<open>State\<close>

record ('k, 'v) ordered_map =
  hm_indexes :: "cursor list"
  hm_entries :: "('k \<times> 'v) vec_list"

datatype 'k hm_entry_kind = Occupied cursor | Vacant 'k

type_synonym place = "cursor \<Rightarrow> cursor list \<Rightarrow> cursor list"

definition placement :: "place \<Rightarrow> bool" where
  "placement place \<longleftrightarrow> (\<forall>p t. mset (place p t) = add_mset p (mset t))"

section \<open>The index\<close>

fun im_find :: "cursor list \<Rightarrow> ('k \<times> 'v) vec_list \<Rightarrow> 'k \<Rightarrow> cursor option option" where
  "im_find [] es k = Some None"
| "im_find (p # ps) es k = do {
     e \<leftarrow> get_impl es p;
     if fst e = k then Some (Some p) else im_find ps es k
   }"

section \<open>Operations\<close>

definition hm_new :: "('k, 'v) ordered_map" where
  "hm_new = \<lparr>hm_indexes = [], hm_entries = vl_new\<rparr>"

definition hm_is_empty :: "('k, 'v) ordered_map \<Rightarrow> bool" where
  "hm_is_empty m \<longleftrightarrow> hm_indexes m = []"

definition hm_len :: "('k, 'v) ordered_map \<Rightarrow> nat" where
  "hm_len m = length (hm_indexes m)"

definition hm_clear :: "('k, 'v) ordered_map \<Rightarrow> ('k, 'v) ordered_map" where
  "hm_clear m = m\<lparr>hm_indexes := [], hm_entries := vl_clear (hm_entries m)\<rparr>"

definition hm_front :: "('k, 'v) ordered_map \<Rightarrow> ('k \<times> 'v) option option" where
  "hm_front m = vl_front (hm_entries m)"

definition hm_back :: "('k, 'v) ordered_map \<Rightarrow> ('k \<times> 'v) option option" where
  "hm_back m = vl_back (hm_entries m)"

definition hm_iter :: "('k, 'v) ordered_map \<Rightarrow> ('k \<times> 'v) list option" where
  "hm_iter m = do { it \<leftarrow> iter_new (hm_entries m); iter_collect (hm_entries m) it }"

definition hm_keys :: "('k, 'v) ordered_map \<Rightarrow> 'k list option" where
  "hm_keys m = map_option (map fst) (hm_iter m)"

definition hm_values :: "('k, 'v) ordered_map \<Rightarrow> 'v list option" where
  "hm_values m = map_option (map snd) (hm_iter m)"

definition hm_contains_key :: "('k, 'v) ordered_map \<Rightarrow> 'k \<Rightarrow> bool option" where
  "hm_contains_key m k = map_option (\<lambda>r. r \<noteq> None) (im_find (hm_indexes m) (hm_entries m) k)"

definition hm_entry :: "('k, 'v) ordered_map \<Rightarrow> 'k \<Rightarrow> 'k hm_entry_kind option" where
  "hm_entry m k = do {
     r \<leftarrow> im_find (hm_indexes m) (hm_entries m) k;
     Some (case r of Some p \<Rightarrow> Occupied p | None \<Rightarrow> Vacant k)
   }"

definition hm_find_entry :: "('k, 'v) ordered_map \<Rightarrow> 'k \<Rightarrow> cursor option option" where
  "hm_find_entry m k = im_find (hm_indexes m) (hm_entries m) k"

definition hm_occupied_entry ::
  "('k, 'v) ordered_map \<Rightarrow> (('k \<times> 'v) vec_list \<Rightarrow> ('k \<times> 'v) option option) \<Rightarrow> cursor option option" where
  "hm_occupied_entry m f = do {
     e \<leftarrow> f (hm_entries m);
     (case e of
        None \<Rightarrow> Some None
      | Some (k, v) \<Rightarrow> do {
          r \<leftarrow> im_find (hm_indexes m) (hm_entries m) k;
          p \<leftarrow> r;
          Some (Some p)
        })
   }"

definition hm_front_entry :: "('k, 'v) ordered_map \<Rightarrow> cursor option option" where
  "hm_front_entry m = hm_occupied_entry m vl_front"

definition hm_back_entry :: "('k, 'v) ordered_map \<Rightarrow> cursor option option" where
  "hm_back_entry m = hm_occupied_entry m vl_back"

text \<open>Occupied and vacant entries.\<close>

definition occ_get :: "('k, 'v) ordered_map \<Rightarrow> cursor \<Rightarrow> 'v option" where
  "occ_get m p = map_option snd (get_impl (hm_entries m) p)"

definition occ_key :: "('k, 'v) ordered_map \<Rightarrow> cursor \<Rightarrow> 'k option" where
  "occ_key m p = map_option fst (get_impl (hm_entries m) p)"

definition occ_insert :: "('k, 'v) ordered_map \<Rightarrow> cursor \<Rightarrow> 'v \<Rightarrow> ('v \<times> ('k, 'v) ordered_map) option" where
  "occ_insert m p v = do {
     (k, old) \<leftarrow> get_impl (hm_entries m) p;
     es \<leftarrow> set_impl (hm_entries m) p (k, v);
     Some (old, m\<lparr>hm_entries := es\<rparr>)
   }"

definition occ_move_front :: "('k, 'v) ordered_map \<Rightarrow> cursor \<Rightarrow> ('k, 'v) ordered_map option" where
  "occ_move_front m p = do {
     es \<leftarrow> move_front (hm_entries m) p;
     Some (m\<lparr>hm_entries := es\<rparr>)
   }"

definition occ_move_back :: "('k, 'v) ordered_map \<Rightarrow> cursor \<Rightarrow> ('k, 'v) ordered_map option" where
  "occ_move_back m p = do {
     es \<leftarrow> move_back (hm_entries m) p;
     Some (m\<lparr>hm_entries := es\<rparr>)
   }"

definition occ_remove_entry ::
  "('k, 'v) ordered_map \<Rightarrow> cursor \<Rightarrow> (('k \<times> 'v) \<times> ('k, 'v) ordered_map) option" where
  "occ_remove_entry m p = do {
     (e, es) \<leftarrow> vl_remove (hm_entries m) p;
     Some (e, m\<lparr>hm_indexes := remove1 p (hm_indexes m), hm_entries := es\<rparr>)
   }"

definition vac_insert ::
  "place \<Rightarrow> ('k, 'v) ordered_map \<Rightarrow> 'k \<Rightarrow> 'v \<Rightarrow> (cursor \<times> ('k, 'v) ordered_map) option" where
  "vac_insert place m k v = do {
     (p, es) \<leftarrow> push_back (hm_entries m) (k, v);
     Some (p, m\<lparr>hm_indexes := place p (hm_indexes m), hm_entries := es\<rparr>)
   }"

definition hm_get :: "('k, 'v) ordered_map \<Rightarrow> 'k \<Rightarrow> 'v option option" where
  "hm_get m k = do {
     r \<leftarrow> im_find (hm_indexes m) (hm_entries m) k;
     (case r of None \<Rightarrow> Some None | Some p \<Rightarrow> map_option Some (occ_get m p))
   }"

text \<open>A \<open>&mut V\<close> handed out is modelled by the function \<open>f\<close> that its holder applies to the value.\<close>

definition hm_get_mut :: "('k, 'v) ordered_map \<Rightarrow> 'k \<Rightarrow> ('v \<Rightarrow> 'v) \<Rightarrow> (bool \<times> ('k, 'v) ordered_map) option" where
  "hm_get_mut m k f = do {
     r \<leftarrow> im_find (hm_indexes m) (hm_entries m) k;
     (case r of
        None \<Rightarrow> Some (False, m)
      | Some p \<Rightarrow> do {
          v \<leftarrow> occ_get m p;
          (_, m) \<leftarrow> occ_insert m p (f v);
          Some (True, m)
        })
   }"

definition hm_get_mut_back ::
  "('k, 'v) ordered_map \<Rightarrow> 'k \<Rightarrow> ('v \<Rightarrow> 'v) \<Rightarrow> (bool \<times> ('k, 'v) ordered_map) option" where
  "hm_get_mut_back m k f = do {
     r \<leftarrow> im_find (hm_indexes m) (hm_entries m) k;
     (case r of
        None \<Rightarrow> Some (False, m)
      | Some p \<Rightarrow> do {
          m \<leftarrow> occ_move_back m p;
          v \<leftarrow> occ_get m p;
          (_, m) \<leftarrow> occ_insert m p (f v);
          Some (True, m)
        })
   }"

definition hm_insert ::
  "place \<Rightarrow> ('k, 'v) ordered_map \<Rightarrow> 'k \<Rightarrow> 'v \<Rightarrow> ('v option \<times> ('k, 'v) ordered_map) option" where
  "hm_insert place m k v = do {
     e \<leftarrow> hm_entry m k;
     (case e of
        Occupied p \<Rightarrow> do { (old, m) \<leftarrow> occ_insert m p v; Some (Some old, m) }
      | Vacant k \<Rightarrow> do { (_, m) \<leftarrow> vac_insert place m k v; Some (None, m) })
   }"

definition hm_insert_back ::
  "place \<Rightarrow> ('k, 'v) ordered_map \<Rightarrow> 'k \<Rightarrow> 'v \<Rightarrow> ('v option \<times> ('k, 'v) ordered_map) option" where
  "hm_insert_back place m k v = do {
     e \<leftarrow> hm_entry m k;
     (case e of
        Occupied p \<Rightarrow> do {
          m \<leftarrow> occ_move_back m p;
          (old, m) \<leftarrow> occ_insert m p v;
          Some (Some old, m)
        }
      | Vacant k \<Rightarrow> do { (_, m) \<leftarrow> vac_insert place m k v; Some (None, m) })
   }"

definition hm_or_insert ::
  "place \<Rightarrow> ('k, 'v) ordered_map \<Rightarrow> 'k \<Rightarrow> 'v \<Rightarrow> ('v \<times> ('k, 'v) ordered_map) option" where
  "hm_or_insert place m k d = do {
     e \<leftarrow> hm_entry m k;
     (case e of
        Occupied p \<Rightarrow> do { v \<leftarrow> occ_get m p; Some (v, m) }
      | Vacant k \<Rightarrow> do { (p, m) \<leftarrow> vac_insert place m k d; v \<leftarrow> occ_get m p; Some (v, m) })
   }"

definition hm_remove :: "('k, 'v) ordered_map \<Rightarrow> 'k \<Rightarrow> ('v option \<times> ('k, 'v) ordered_map) option" where
  "hm_remove m k = do {
     r \<leftarrow> hm_find_entry m k;
     (case r of
        None \<Rightarrow> Some (None, m)
      | Some p \<Rightarrow> do { (e, m) \<leftarrow> occ_remove_entry m p; Some (Some (snd e), m) })
   }"

definition hm_move_front :: "('k, 'v) ordered_map \<Rightarrow> 'k \<Rightarrow> (bool \<times> ('k, 'v) ordered_map) option" where
  "hm_move_front m k = do {
     r \<leftarrow> im_find (hm_indexes m) (hm_entries m) k;
     (case r of
        None \<Rightarrow> Some (False, m)
      | Some p \<Rightarrow> do { m \<leftarrow> occ_move_front m p; Some (True, m) })
   }"

definition hm_move_back :: "('k, 'v) ordered_map \<Rightarrow> 'k \<Rightarrow> (bool \<times> ('k, 'v) ordered_map) option" where
  "hm_move_back m k = do {
     r \<leftarrow> im_find (hm_indexes m) (hm_entries m) k;
     (case r of
        None \<Rightarrow> Some (False, m)
      | Some p \<Rightarrow> do { m \<leftarrow> occ_move_back m p; Some (True, m) })
   }"

definition hm_pop :: "('k, 'v) ordered_map \<Rightarrow> cursor option \<Rightarrow> (('k \<times> 'v) option \<times> ('k, 'v) ordered_map) option" where
  "hm_pop m r =
     (case r of
        None \<Rightarrow> Some (None, m)
      | Some p \<Rightarrow> do { (e, m) \<leftarrow> occ_remove_entry m p; Some (Some e, m) })"

definition hm_pop_front :: "('k, 'v) ordered_map \<Rightarrow> (('k \<times> 'v) option \<times> ('k, 'v) ordered_map) option" where
  "hm_pop_front m = do { r \<leftarrow> hm_front_entry m; hm_pop m r }"

definition hm_pop_back :: "('k, 'v) ordered_map \<Rightarrow> (('k \<times> 'v) option \<times> ('k, 'v) ordered_map) option" where
  "hm_pop_back m = do { r \<leftarrow> hm_back_entry m; hm_pop m r }"

text \<open>
  \<open>extend\<close>, and the loops of \<open>retain\<close> and \<open>extract_if\<close> over the table in bucket order. The closure
  returns its verdict and the value it leaves behind; \<open>extract_if\<close> is run to its end.
\<close>

fun hm_extend :: "place \<Rightarrow> ('k, 'v) ordered_map \<Rightarrow> ('k \<times> 'v) list \<Rightarrow> ('k, 'v) ordered_map option" where
  "hm_extend place m [] = Some m"
| "hm_extend place m ((k, v) # kvs) = do {
     (_, m) \<leftarrow> hm_insert place m k v;
     hm_extend place m kvs
   }"

fun retain_loop ::
  "('k \<Rightarrow> 'v \<Rightarrow> bool \<times> 'v) \<Rightarrow> cursor list \<Rightarrow> ('k \<times> 'v) vec_list \<Rightarrow>
   (cursor list \<times> ('k \<times> 'v) list \<times> ('k \<times> 'v) vec_list) option" where
  "retain_loop f [] es = Some ([], [], es)"
| "retain_loop f (p # ps) es = do {
     (k, v) \<leftarrow> get_impl es p;
     let (keep, v') = f k v;
     es \<leftarrow> set_impl es p (k, v');
     if keep
     then do { (qs, out, es) \<leftarrow> retain_loop f ps es; Some (p # qs, out, es) }
     else do {
       (e, es) \<leftarrow> vl_remove es p;
       (qs, out, es) \<leftarrow> retain_loop f ps es;
       Some (qs, e # out, es)
     }
   }"

definition hm_retain :: "('k, 'v) ordered_map \<Rightarrow> ('k \<Rightarrow> 'v \<Rightarrow> bool \<times> 'v) \<Rightarrow> ('k, 'v) ordered_map option" where
  "hm_retain m f = do {
     (qs, _, es) \<leftarrow> retain_loop f (hm_indexes m) (hm_entries m);
     Some (m\<lparr>hm_indexes := qs, hm_entries := es\<rparr>)
   }"

definition hm_extract_if ::
  "('k, 'v) ordered_map \<Rightarrow> ('k \<Rightarrow> 'v \<Rightarrow> bool \<times> 'v) \<Rightarrow> (('k \<times> 'v) list \<times> ('k, 'v) ordered_map) option" where
  "hm_extract_if m f = do {
     (qs, out, es) \<leftarrow> retain_loop (\<lambda>k v. case f k v of (b, v') \<Rightarrow> (\<not> b, v')) (hm_indexes m) (hm_entries m);
     Some (out, m\<lparr>hm_indexes := qs, hm_entries := es\<rparr>)
   }"

definition vl_eq :: "'a vec_list \<Rightarrow> 'a vec_list \<Rightarrow> bool option" where
  "vl_eq l l' =
     (if vlen l = vlen l'
      then do {
        it \<leftarrow> iter_new l;
        xs \<leftarrow> iter_collect l it;
        it' \<leftarrow> iter_new l';
        ys \<leftarrow> iter_collect l' it';
        Some (xs = ys)
      }
      else Some False)"

definition hm_eq :: "('k, 'v) ordered_map \<Rightarrow> ('k, 'v) ordered_map \<Rightarrow> bool option" where
  "hm_eq m n = vl_eq (hm_entries m) (hm_entries n)"

fun eq_all :: "('k, 'v) ordered_map \<Rightarrow> ('k \<times> 'v) list \<Rightarrow> bool option" where
  "eq_all n [] = Some True"
| "eq_all n ((k, v) # kvs) = do {
     r \<leftarrow> hm_get n k;
     if r = Some v then eq_all n kvs else Some False
   }"

definition hm_eq_ignore_order :: "('k, 'v) ordered_map \<Rightarrow> ('k, 'v) ordered_map \<Rightarrow> bool option" where
  "hm_eq_ignore_order m n =
     (if hm_len m = hm_len n then do { xs \<leftarrow> hm_iter m; eq_all n xs } else Some False)"

section \<open>Invariant and view\<close>

declare fst_vl_view [simp del]

definition hm_view :: "('k, 'v) ordered_map \<Rightarrow> ('k \<times> 'v) list" where
  "hm_view m = map snd (vl_view (hm_entries m))"

definition hm_inv :: "('k, 'v) ordered_map \<Rightarrow> bool" where
  "hm_inv m \<longleftrightarrow> vl_inv (hm_entries m) \<and> distinct (map fst (hm_view m)) \<and>
     mset (hm_indexes m) = mset (map fst (vl_view (hm_entries m)))"

lemma hm_invD:
  assumes "hm_inv m"
  shows "vl_inv (hm_entries m)" and "distinct (map fst (hm_view m))"
    and "set (hm_indexes m) = fst ` set (vl_view (hm_entries m))" and "distinct (hm_indexes m)"
    and "length (hm_indexes m) = length (hm_view m)"
proof -
  show "vl_inv (hm_entries m)" "distinct (map fst (hm_view m))" using assms by (auto simp: hm_inv_def)
  have ms: "mset (hm_indexes m) = mset (map fst (vl_view (hm_entries m)))"
    using assms by (simp add: hm_inv_def)
  show "set (hm_indexes m) = fst ` set (vl_view (hm_entries m))" using mset_eq_setD [OF ms] by simp
  show "distinct (hm_indexes m)"
    using mset_eq_imp_distinct_iff [OF ms] vl.distinct_view [of "hm_entries m"] assms
    by (simp add: hm_inv_def)
  show "length (hm_indexes m) = length (hm_view m)"
    using mset_eq_length [OF ms] by (simp add: hm_view_def)
qed

text \<open>The two ways a key can stand in the map.\<close>

lemma hm_view_cases:
  assumes "hm_inv m"
  obtains (absent) "k \<notin> fst ` set (hm_view m)" "map_of (hm_view m) k = None"
  | (present) xs c v ys where "vl_view (hm_entries m) = xs @ (c, (k, v)) # ys"
      "map_of (hm_view m) k = Some v" "k \<notin> fst ` snd ` set (xs @ ys)"
proof (cases "map_of (hm_view m) k")
  case None
  then show thesis using absent by (simp add: map_of_eq_None_iff)
next
  case (Some v)
  then have "(k, v) \<in> set (hm_view m)" by (rule map_of_SomeD)
  then obtain c where "(c, (k, v)) \<in> set (vl_view (hm_entries m))" by (auto simp: hm_view_def)
  then obtain xs ys where s: "vl_view (hm_entries m) = xs @ (c, (k, v)) # ys"
    by (meson split_list)
  moreover have "k \<notin> fst ` snd ` set (xs @ ys)"
    using hm_invD(2) [OF assms] by (auto simp: hm_view_def s image_image)
  ultimately show thesis using Some present by blast
qed

lemma im_find_absent:
  assumes "vl_inv es" and "set ps \<subseteq> fst ` set (vl_view es)" and "k \<notin> fst ` snd ` set (vl_view es)"
  shows "im_find ps es k = Some None"
  using assms(2)
proof (induction ps)
  case (Cons p ps)
  then obtain e where e: "(p, e) \<in> set (vl_view es)" by auto
  then have "get_impl es p = Some e" by (rule vl.get_mem [OF assms(1)])
  moreover have "fst e \<noteq> k" using e assms(3) by force
  ultimately show ?case using Cons by simp
qed simp

lemma im_find_present:
  assumes "vl_inv es" and "set ps \<subseteq> fst ` set (vl_view es)" and "c \<in> set ps"
    and "vl_view es = xs @ (c, (k, v)) # ys" and "k \<notin> fst ` snd ` set (xs @ ys)"
  shows "im_find ps es k = Some (Some c)"
  using assms(2,3)
proof (induction ps)
  case (Cons p ps)
  then obtain e where e: "(p, e) \<in> set (vl_view es)" by auto
  then have g: "get_impl es p = Some e" by (rule vl.get_mem [OF assms(1)])
  show ?case
  proof (cases "fst e = k")
    case True
    then have "(p, e) \<notin> set (xs @ ys)" using assms(5) by force
    with e assms(4) have "p = c" by auto
    with True g show ?thesis by simp
  next
    case False
    then have "p \<noteq> c" using g vl.get_mem [OF assms(1), of c "(k, v)"] assms(4) by auto
    with False g Cons show ?thesis by simp
  qed
qed simp

lemma hm_find_absent:
  "hm_inv m \<Longrightarrow> k \<notin> fst ` set (hm_view m) \<Longrightarrow> im_find (hm_indexes m) (hm_entries m) k = Some None"
  by (rule im_find_absent) (auto simp: hm_invD hm_view_def image_image)

lemma hm_find_present:
  assumes "hm_inv m" and "vl_view (hm_entries m) = xs @ (c, (k, v)) # ys"
  shows "im_find (hm_indexes m) (hm_entries m) k = Some (Some c)"
proof -
  have "k \<notin> fst ` snd ` set (xs @ ys)"
    using hm_invD(2) [OF assms(1)] by (auto simp: hm_view_def assms(2) image_image)
  with assms show ?thesis
    by (intro im_find_present [where xs = xs and ys = ys and v = v]) (auto simp: hm_invD)
qed

text \<open>Re-establishing the invariant from the entry list and the table.\<close>

lemma hm_invI:
  assumes "vl_inv es" and "vl_view es = ps" and "distinct (map (fst \<circ> snd) ps)"
    and "mset is = mset (map fst ps)"
  shows "hm_inv (m\<lparr>hm_indexes := is, hm_entries := es\<rparr>)"
    and "hm_view (m\<lparr>hm_indexes := is, hm_entries := es\<rparr>) = map snd ps"
  using assms by (auto simp: hm_inv_def hm_view_def o_def)

lemma hm_mset_indexes: "hm_inv m \<Longrightarrow> mset (hm_indexes m) = mset (map fst (vl_view (hm_entries m)))"
  by (simp add: hm_inv_def)

lemma hm_distinct_keys: "hm_inv m \<Longrightarrow> distinct (map (fst \<circ> snd) (vl_view (hm_entries m)))"
  by (simp add: hm_inv_def hm_view_def)

section \<open>Entries\<close>

lemma occ_get_ok:
  "hm_inv m \<Longrightarrow> vl_view (hm_entries m) = xs @ (c, (k, v)) # ys \<Longrightarrow> occ_get m c = Some v"
  using vl.get [of "hm_entries m" xs c "(k, v)" ys] by (simp add: occ_get_def hm_invD)

lemma occ_insert_ok:
  assumes "hm_inv m" and "vl_view (hm_entries m) = xs @ (c, (k, v)) # ys"
  obtains m' where "occ_insert m c w = Some (v, m')" "hm_inv m'"
    "vl_view (hm_entries m') = xs @ (c, (k, w)) # ys"
proof -
  note i = hm_invD(1) [OF assms(1)]
  obtain es where es: "set_impl (hm_entries m) c (k, w) = Some es" "vl_inv es"
    "vl_view es = xs @ (c, (k, w)) # ys" using vl.set_val [OF i assms(2)] by blast
  have "occ_insert m c w = Some (v, m\<lparr>hm_entries := es\<rparr>)"
    using vl.get [OF i assms(2)] es by (simp add: occ_insert_def)
  moreover have "hm_inv (m\<lparr>hm_indexes := hm_indexes m, hm_entries := es\<rparr>)"
    using hm_distinct_keys [OF assms(1)] hm_mset_indexes [OF assms(1)] assms(2)
    by (intro hm_invI(1) [OF es(2,3)]) simp_all
  ultimately show thesis using es that by simp
qed

lemma occ_move_back_ok:
  assumes "hm_inv m" and "vl_view (hm_entries m) = xs @ (c, (k, v)) # ys"
  obtains m' where "occ_move_back m c = Some m'" "hm_inv m'"
    "vl_view (hm_entries m') = xs @ ys @ [(c, (k, v))]"
proof -
  obtain es where es: "move_back (hm_entries m) c = Some es" "vl_inv es"
    "vl_view es = xs @ ys @ [(c, (k, v))]" using vl.move_back [OF hm_invD(1) [OF assms(1)] assms(2)] by blast
  have "hm_inv (m\<lparr>hm_indexes := hm_indexes m, hm_entries := es\<rparr>)"
    using hm_distinct_keys [OF assms(1)] hm_mset_indexes [OF assms(1)] assms(2)
    by (intro hm_invI(1) [OF es(2,3)]) auto
  then show thesis using es that by (simp add: occ_move_back_def)
qed

lemma occ_move_front_ok:
  assumes "hm_inv m" and "vl_view (hm_entries m) = xs @ (c, (k, v)) # ys"
  obtains m' where "occ_move_front m c = Some m'" "hm_inv m'"
    "vl_view (hm_entries m') = (c, (k, v)) # xs @ ys"
proof -
  obtain es where es: "move_front (hm_entries m) c = Some es" "vl_inv es"
    "vl_view es = (c, (k, v)) # xs @ ys" using vl.move_front [OF hm_invD(1) [OF assms(1)] assms(2)] by blast
  have "hm_inv (m\<lparr>hm_indexes := hm_indexes m, hm_entries := es\<rparr>)"
    using hm_distinct_keys [OF assms(1)] hm_mset_indexes [OF assms(1)] assms(2)
    by (intro hm_invI(1) [OF es(2,3)]) auto
  then show thesis using es that by (simp add: occ_move_front_def)
qed

lemma occ_remove_ok:
  assumes "hm_inv m" and "vl_view (hm_entries m) = xs @ (c, (k, v)) # ys"
  obtains m' where "occ_remove_entry m c = Some ((k, v), m')" "hm_inv m'"
    "vl_view (hm_entries m') = xs @ ys"
proof -
  obtain es where es: "vl_remove (hm_entries m) c = Some ((k, v), es)" "vl_inv es"
    "vl_view es = xs @ ys" using vl.remove [OF hm_invD(1) [OF assms(1)] assms(2)] by blast
  have "hm_inv (m\<lparr>hm_indexes := remove1 c (hm_indexes m), hm_entries := es\<rparr>)"
    using hm_distinct_keys [OF assms(1)] hm_mset_indexes [OF assms(1)] assms(2)
    by (intro hm_invI(1) [OF es(2,3)]) auto
  then show thesis using es that by (simp add: occ_remove_entry_def)
qed

lemma vac_insert_ok:
  assumes "hm_inv m" and "placement place" and "k \<notin> fst ` set (hm_view m)"
  obtains c m' where "vac_insert place m k v = Some (c, m')" "hm_inv m'"
    "vl_view (hm_entries m') = vl_view (hm_entries m) @ [(c, (k, v))]"
proof -
  obtain c es where es: "push_back (hm_entries m) (k, v) = Some (c, es)" "vl_inv es"
    "vl_view es = vl_view (hm_entries m) @ [(c, (k, v))]"
    using vl.push_back [OF hm_invD(1) [OF assms(1)]] by blast
  have "mset (place c (hm_indexes m)) = add_mset c (mset (hm_indexes m))"
    using assms(2) by (simp add: placement_def)
  then have "hm_inv (m\<lparr>hm_indexes := place c (hm_indexes m), hm_entries := es\<rparr>)"
    using hm_distinct_keys [OF assms(1)] hm_mset_indexes [OF assms(1)] assms(3)
    by (intro hm_invI(1) [OF es(2,3)]) (auto simp: hm_view_def)
  then show thesis using es that by (simp add: vac_insert_def)
qed

section \<open>Operations on the view\<close>

lemma hm_split:
  assumes "hm_inv m" and "vl_view (hm_entries m) = xs @ (c, (k, v)) # ys"
  shows "hm_view m = map snd xs @ (k, v) # map snd ys"
    and "k \<notin> fst ` set (map snd xs)" and "k \<notin> fst ` set (map snd ys)"
  using hm_invD(2) [OF assms(1)] by (simp_all add: hm_view_def assms(2) image_image)

lemma hm_view_eq: "vl_view (hm_entries m') = ps \<Longrightarrow> hm_view m' = map snd ps"
  by (simp add: hm_view_def)

lemma hm_get_ok: "hm_inv m \<Longrightarrow> hm_get m k = Some (map_of (hm_view m) k)"
proof -
  assume i: "hm_inv m"
  then show ?thesis
  proof (cases rule: hm_view_cases [where k = k])
    case absent
    with hm_find_absent [OF i] show ?thesis by (simp add: hm_get_def)
  next
    case (present xs c v ys)
    with hm_find_present [OF i present(1)] occ_get_ok [OF i present(1)] show ?thesis
      by (simp add: hm_get_def)
  qed
qed

lemma hm_contains_ok: "hm_inv m \<Longrightarrow> hm_contains_key m k = Some (k \<in> fst ` set (hm_view m))"
proof -
  assume i: "hm_inv m"
  then show ?thesis
  proof (cases rule: hm_view_cases [where k = k])
    case absent
    with hm_find_absent [OF i] show ?thesis by (simp add: hm_contains_key_def)
  next
    case (present xs c v ys)
    with hm_find_present [OF i present(1)] hm_split(1) [OF i present(1)] show ?thesis
      by (simp add: hm_contains_key_def)
  qed
qed

lemma hm_insert_ok:
  assumes i: "hm_inv m" and p: "placement place"
  shows "\<exists>m'. hm_insert place m k v = Some (map_of (hm_view m) k, m') \<and> hm_inv m' \<and>
    hm_view m' = AList.update k v (hm_view m)"
  using i
proof (cases rule: hm_view_cases [where k = k])
  case absent
  obtain c m' where "vac_insert place m k v = Some (c, m')" "hm_inv m'"
    "vl_view (hm_entries m') = vl_view (hm_entries m) @ [(c, (k, v))]"
    by (rule vac_insert_ok [OF i p absent(1)])
  with absent hm_find_absent [OF i] show ?thesis
    by (simp add: hm_insert_def hm_entry_def hm_view_def alist_update_new)
next
  case (present xs c w ys)
  obtain m' where "occ_insert m c v = Some (w, m')" "hm_inv m'"
    "vl_view (hm_entries m') = xs @ (c, (k, v)) # ys" by (rule occ_insert_ok [OF i present(1)])
  with present(2) hm_find_present [OF i present(1)] hm_split [OF i present(1)] show ?thesis
    by (simp add: hm_insert_def hm_entry_def hm_view_eq alist_update_split)
qed

lemma hm_insert_back_ok:
  assumes i: "hm_inv m" and p: "placement place"
  shows "\<exists>m'. hm_insert_back place m k v = Some (map_of (hm_view m) k, m') \<and> hm_inv m' \<and>
    hm_view m' = AList.delete k (hm_view m) @ [(k, v)]"
  using i
proof (cases rule: hm_view_cases [where k = k])
  case absent
  obtain c m' where "vac_insert place m k v = Some (c, m')" "hm_inv m'"
    "vl_view (hm_entries m') = vl_view (hm_entries m) @ [(c, (k, v))]"
    by (rule vac_insert_ok [OF i p absent(1)])
  with absent hm_find_absent [OF i] show ?thesis
    by (simp add: hm_insert_back_def hm_entry_def hm_view_def)
next
  case (present xs c w ys)
  obtain m1 where m1: "occ_move_back m c = Some m1" "hm_inv m1"
    "vl_view (hm_entries m1) = (xs @ ys) @ (c, (k, w)) # []"
    using occ_move_back_ok [OF i present(1)] by (metis append.assoc)
  obtain m' where "occ_insert m1 c v = Some (w, m')" "hm_inv m'"
    "vl_view (hm_entries m') = (xs @ ys) @ [(c, (k, v))]" by (rule occ_insert_ok [OF m1(2,3)])
  with m1(1) present(2) hm_find_present [OF i present(1)] hm_split [OF i present(1)] show ?thesis
    by (simp add: hm_insert_back_def hm_entry_def hm_view_eq alist_delete_split)
qed

lemma hm_or_insert_ok:
  assumes i: "hm_inv m" and p: "placement place"
  shows "\<exists>m'. hm_or_insert place m k d = Some ((case map_of (hm_view m) k of Some v \<Rightarrow> v | None \<Rightarrow> d), m') \<and> hm_inv m' \<and>
    hm_view m' = (if k \<in> fst ` set (hm_view m) then hm_view m else hm_view m @ [(k, d)])"
  using i
proof (cases rule: hm_view_cases [where k = k])
  case absent
  obtain c m' where m': "vac_insert place m k d = Some (c, m')" "hm_inv m'"
    "vl_view (hm_entries m') = vl_view (hm_entries m) @ [(c, (k, d))]"
    by (rule vac_insert_ok [OF i p absent(1)])
  with absent hm_find_absent [OF i] occ_get_ok [OF m'(2,3)] show ?thesis
    by (simp add: hm_or_insert_def hm_entry_def hm_view_def)
next
  case (present xs c w ys)
  with hm_find_present [OF i present(1)] hm_split [OF i present(1)] occ_get_ok [OF i present(1)] i
  show ?thesis by (simp add: hm_or_insert_def hm_entry_def)
qed

lemma hm_remove_ok:
  assumes i: "hm_inv m"
  shows "\<exists>m'. hm_remove m k = Some (map_of (hm_view m) k, m') \<and> hm_inv m' \<and>
    hm_view m' = AList.delete k (hm_view m)"
  using i
proof (cases rule: hm_view_cases [where k = k])
  case absent
  with i hm_find_absent [OF i] show ?thesis
    by (simp add: hm_remove_def hm_find_entry_def)
next
  case (present xs c w ys)
  obtain m' where "occ_remove_entry m c = Some ((k, w), m')" "hm_inv m'"
    "vl_view (hm_entries m') = xs @ ys" by (rule occ_remove_ok [OF i present(1)])
  with present(2) hm_find_present [OF i present(1)] hm_split [OF i present(1)] show ?thesis
    by (simp add: hm_remove_def hm_find_entry_def hm_view_eq alist_delete_split)
qed

lemma hm_get_mut_ok:
  assumes i: "hm_inv m"
  shows "\<exists>m'. hm_get_mut m k f = Some (map_of (hm_view m) k \<noteq> None, m') \<and> hm_inv m' \<and>
    hm_view m' = (case map_of (hm_view m) k of None \<Rightarrow> hm_view m | Some v \<Rightarrow> AList.update k (f v) (hm_view m))"
  using i
proof (cases rule: hm_view_cases [where k = k])
  case absent
  with i hm_find_absent [OF i] show ?thesis by (simp add: hm_get_mut_def)
next
  case (present xs c w ys)
  obtain m' where "occ_insert m c (f w) = Some (w, m')" "hm_inv m'"
    "vl_view (hm_entries m') = xs @ (c, (k, f w)) # ys" by (rule occ_insert_ok [OF i present(1)])
  with present(2) hm_find_present [OF i present(1)] hm_split [OF i present(1)]
    occ_get_ok [OF i present(1)] show ?thesis
    by (simp add: hm_get_mut_def hm_view_eq alist_update_split)
qed

lemma hm_get_mut_back_ok:
  assumes i: "hm_inv m"
  shows "\<exists>m'. hm_get_mut_back m k f = Some (map_of (hm_view m) k \<noteq> None, m') \<and> hm_inv m' \<and>
    hm_view m' = (case map_of (hm_view m) k of None \<Rightarrow> hm_view m
                  | Some v \<Rightarrow> AList.delete k (hm_view m) @ [(k, f v)])"
  using i
proof (cases rule: hm_view_cases [where k = k])
  case absent
  with i hm_find_absent [OF i] show ?thesis by (simp add: hm_get_mut_back_def)
next
  case (present xs c w ys)
  obtain m1 where m1: "occ_move_back m c = Some m1" "hm_inv m1"
    "vl_view (hm_entries m1) = (xs @ ys) @ (c, (k, w)) # []"
    using occ_move_back_ok [OF i present(1)] by (metis append.assoc)
  obtain m' where "occ_insert m1 c (f w) = Some (w, m')" "hm_inv m'"
    "vl_view (hm_entries m') = (xs @ ys) @ [(c, (k, f w))]" by (rule occ_insert_ok [OF m1(2,3)])
  with m1(1) present(2) hm_find_present [OF i present(1)] hm_split [OF i present(1)]
    occ_get_ok [OF m1(2,3)] show ?thesis
    by (simp add: hm_get_mut_back_def hm_view_eq alist_delete_split)
qed

lemma hm_move_front_ok:
  assumes i: "hm_inv m"
  shows "\<exists>m'. hm_move_front m k = Some (map_of (hm_view m) k \<noteq> None, m') \<and> hm_inv m' \<and>
    hm_view m' = (case map_of (hm_view m) k of None \<Rightarrow> hm_view m
                  | Some v \<Rightarrow> (k, v) # AList.delete k (hm_view m))"
  using i
proof (cases rule: hm_view_cases [where k = k])
  case absent
  with i hm_find_absent [OF i] show ?thesis by (simp add: hm_move_front_def)
next
  case (present xs c w ys)
  obtain m' where "occ_move_front m c = Some m'" "hm_inv m'"
    "vl_view (hm_entries m') = (c, (k, w)) # xs @ ys" by (rule occ_move_front_ok [OF i present(1)])
  with present(2) hm_find_present [OF i present(1)] hm_split [OF i present(1)] show ?thesis
    by (simp add: hm_move_front_def hm_view_eq alist_delete_split)
qed

lemma hm_move_back_ok:
  assumes i: "hm_inv m"
  shows "\<exists>m'. hm_move_back m k = Some (map_of (hm_view m) k \<noteq> None, m') \<and> hm_inv m' \<and>
    hm_view m' = (case map_of (hm_view m) k of None \<Rightarrow> hm_view m
                  | Some v \<Rightarrow> AList.delete k (hm_view m) @ [(k, v)])"
  using i
proof (cases rule: hm_view_cases [where k = k])
  case absent
  with i hm_find_absent [OF i] show ?thesis by (simp add: hm_move_back_def)
next
  case (present xs c w ys)
  obtain m' where "occ_move_back m c = Some m'" "hm_inv m'"
    "vl_view (hm_entries m') = xs @ ys @ [(c, (k, w))]" by (rule occ_move_back_ok [OF i present(1)])
  with present(2) hm_find_present [OF i present(1)] hm_split [OF i present(1)] show ?thesis
    by (simp add: hm_move_back_def hm_view_eq alist_delete_split)
qed

text \<open>The ends, and the entries found through them.\<close>

lemma vl_ends_ok:
  assumes "vl_inv l"
  shows "vl_front l = Some (map_option snd (hd_opt (vl_view l)))"
    and "vl_back l = Some (map_option snd (hd_opt (rev (vl_view l))))"
proof -
  show "vl_front l = Some (map_option snd (hd_opt (vl_view l)))"
    using view_ends(1) [OF assms] vl.get [OF assms, of "[]"]
    by (cases "vl_view l") (auto simp: vl_front_def)
  show "vl_back l = Some (map_option snd (hd_opt (rev (vl_view l))))"
    using view_ends(2) [OF assms] vl.get [OF assms, of _ _ _ "[]"]
    by (cases "vl_view l" rule: rev_cases) (auto simp: vl_back_def)
qed

lemma hm_front_ok: "hm_inv m \<Longrightarrow> hm_front m = Some (hd_opt (hm_view m))"
  using vl_ends_ok(1) [of "hm_entries m"] by (simp add: hm_front_def hm_view_def hm_invD hd_opt_map)

lemma hm_back_ok: "hm_inv m \<Longrightarrow> hm_back m = Some (hd_opt (rev (hm_view m)))"
  using vl_ends_ok(2) [of "hm_entries m"]
  by (simp add: hm_back_def hm_view_def hm_invD hd_opt_map rev_map)

lemma hm_iter_ok: "hm_inv m \<Longrightarrow> hm_iter m = Some (hm_view m)"
  using it_at_new [of "hm_entries m"] iter_collect_at [of "hm_entries m"]
  by (auto simp: hm_iter_def hm_view_def hm_invD)

lemma hm_front_entry_ok:
  assumes i: "hm_inv m"
  shows "hm_front_entry m = Some (map_option fst (hd_opt (vl_view (hm_entries m))))"
proof (cases "vl_view (hm_entries m)")
  case Nil
  with vl_ends_ok(1) [OF hm_invD(1) [OF i]] show ?thesis
    by (simp add: hm_front_entry_def hm_occupied_entry_def)
next
  case (Cons q qs)
  obtain c k v where q: "q = (c, (k, v))" by (cases q) auto
  with Cons hm_find_present [OF i, of "[]" c k v qs] vl_ends_ok(1) [OF hm_invD(1) [OF i]]
  show ?thesis by (simp add: hm_front_entry_def hm_occupied_entry_def)
qed

lemma hm_back_entry_ok:
  assumes i: "hm_inv m"
  shows "hm_back_entry m = Some (map_option fst (hd_opt (rev (vl_view (hm_entries m)))))"
proof (cases "vl_view (hm_entries m)" rule: rev_cases)
  case Nil
  with vl_ends_ok(2) [OF hm_invD(1) [OF i]] show ?thesis
    by (simp add: hm_back_entry_def hm_occupied_entry_def)
next
  case (snoc qs q)
  obtain c k v where q: "q = (c, (k, v))" by (cases q) auto
  with snoc hm_find_present [OF i, of qs c k v "[]"] vl_ends_ok(2) [OF hm_invD(1) [OF i]]
  show ?thesis by (simp add: hm_back_entry_def hm_occupied_entry_def)
qed

lemma hm_pop_front_ok:
  assumes i: "hm_inv m"
  shows "\<exists>m'. hm_pop_front m = Some (hd_opt (hm_view m), m') \<and> hm_inv m' \<and> hm_view m' = tl (hm_view m)"
proof (cases "vl_view (hm_entries m)")
  case Nil
  with i hm_front_entry_ok [OF i] show ?thesis by (simp add: hm_pop_front_def hm_pop_def hm_view_def)
next
  case (Cons q qs)
  obtain c k v where q: "q = (c, (k, v))" by (cases q) auto
  with Cons have s: "vl_view (hm_entries m) = [] @ (c, (k, v)) # qs" by simp
  obtain m' where "occ_remove_entry m c = Some ((k, v), m')" "hm_inv m'"
    "vl_view (hm_entries m') = [] @ qs" by (rule occ_remove_ok [OF i s])
  with s hm_front_entry_ok [OF i] show ?thesis by (simp add: hm_pop_front_def hm_pop_def hm_view_def)
qed

lemma hm_pop_back_ok:
  assumes i: "hm_inv m"
  shows "\<exists>m'. hm_pop_back m = Some (hd_opt (rev (hm_view m)), m') \<and> hm_inv m' \<and>
    hm_view m' = butlast (hm_view m)"
proof (cases "vl_view (hm_entries m)" rule: rev_cases)
  case Nil
  with i hm_back_entry_ok [OF i] show ?thesis by (simp add: hm_pop_back_def hm_pop_def hm_view_def)
next
  case (snoc qs q)
  obtain c k v where q: "q = (c, (k, v))" by (cases q) auto
  with snoc have s: "vl_view (hm_entries m) = qs @ (c, (k, v)) # []" by simp
  obtain m' where "occ_remove_entry m c = Some ((k, v), m')" "hm_inv m'"
    "vl_view (hm_entries m') = qs @ []" by (rule occ_remove_ok [OF i s])
  with s hm_back_entry_ok [OF i] show ?thesis by (simp add: hm_pop_back_def hm_pop_def hm_view_def)
qed

lemma hm_new_ok: "hm_inv hm_new" "hm_view hm_new = []"
  by (simp_all add: hm_inv_def hm_view_def hm_new_def vl.inv_new vl.view_new)

lemma hm_clear_ok: "hm_inv (hm_clear m)" "hm_view (hm_clear m) = []"
  using view_clear [of "hm_entries m"] by (simp_all add: hm_inv_def hm_view_def hm_clear_def)

section \<open>Retain and extract\<close>

definition keep_step :: "('k \<Rightarrow> 'v \<Rightarrow> bool \<times> 'v) \<Rightarrow> 'c \<times> ('k \<times> 'v) \<Rightarrow> ('c \<times> ('k \<times> 'v)) list" where
  "keep_step f e = (case e of (c, (k, v)) \<Rightarrow> if fst (f k v) then [(c, (k, snd (f k v)))] else [])"

definition keeps :: "('k \<Rightarrow> 'v \<Rightarrow> bool \<times> 'v) \<Rightarrow> ('c \<times> ('k \<times> 'v)) list \<Rightarrow> 'c \<Rightarrow> bool" where
  "keeps f es p = (case map_of es p of None \<Rightarrow> False | Some (k, v) \<Rightarrow> fst (f k v))"

definition kept_step :: "('k \<Rightarrow> 'v \<Rightarrow> bool \<times> 'v) \<Rightarrow> 'k \<times> 'v \<Rightarrow> ('k \<times> 'v) list" where
  "kept_step f e = (case e of (k, v) \<Rightarrow> if fst (f k v) then [(k, snd (f k v))] else [])"

definition dropped_step :: "('k \<Rightarrow> 'v \<Rightarrow> bool \<times> 'v) \<Rightarrow> 'k \<times> 'v \<Rightarrow> ('k \<times> 'v) list" where
  "dropped_step f e = (case e of (k, v) \<Rightarrow> if fst (f k v) then [] else [(k, snd (f k v))])"

definition part_step :: "('k \<Rightarrow> 'v \<Rightarrow> bool \<times> 'v) \<Rightarrow> 'c set \<Rightarrow> 'c \<times> ('k \<times> 'v) \<Rightarrow> ('c \<times> ('k \<times> 'v)) list" where
  "part_step f P e = (if fst e \<in> P then keep_step f e else [e])"

lemma part_step_insert:
  assumes "p \<notin> fst ` set xs"
  shows "concat (map (part_step f (insert p P)) xs) = concat (map (part_step f P) xs)"
  using assms by (induction xs) (auto simp: part_step_def)

lemma part_step_empty: "concat (map (part_step f {}) xs) = xs"
  by (induction xs) (auto simp: part_step_def)

lemma map_of_middle: "c \<notin> fst ` set xs \<Longrightarrow> map_of (xs @ (c, e) # ys) c = Some e"
  by (induction xs) auto

lemma retain_step_ok:
  assumes "vl_inv es" and "vl_view es = xs @ (p, (k, v)) # ys"
  obtains es1 where "vl_inv es1" "vl_view es1 = xs @ keep_step f (p, (k, v)) @ ys"
    "retain_loop f (p # ps) es = map_option (\<lambda>(qs, out, es').
       (if fst (f k v) then (p # qs, out, es') else (qs, (k, snd (f k v)) # out, es')))
       (retain_loop f ps es1)"
proof -
  have g: "get_impl es p = Some (k, v)" by (rule vl.get [OF assms])
  obtain es0 where es0: "set_impl es p (k, snd (f k v)) = Some es0" "vl_inv es0"
    "vl_view es0 = xs @ (p, (k, snd (f k v))) # ys" using vl.set_val [OF assms] by blast
  show thesis
  proof (cases "fst (f k v)")
    case True
    have "retain_loop f (p # ps) es = map_option (\<lambda>(qs, out, es'). (p # qs, out, es')) (retain_loop f ps es0)"
      using g es0(1) True by (cases "retain_loop f ps es0") (auto simp: split_beta)
    with True es0 show ?thesis by (intro that [of es0]) (auto simp: keep_step_def)
  next
    case False
    obtain es1 where es1: "vl_remove es0 p = Some ((k, snd (f k v)), es1)" "vl_inv es1"
      "vl_view es1 = xs @ ys" using vl.remove [OF es0(2,3)] by blast
    have "retain_loop f (p # ps) es =
        map_option (\<lambda>(qs, out, es'). (qs, (k, snd (f k v)) # out, es')) (retain_loop f ps es1)"
      using g es0(1) es1(1) False by (cases "retain_loop f ps es1") (auto simp: split_beta)
    with False es1 show ?thesis by (intro that [of es1]) (auto simp: keep_step_def)
  qed
qed

lemma retain_loop_ok:
  assumes "vl_inv es" and "distinct ps" and "set ps \<subseteq> fst ` set (vl_view es)"
  shows "\<exists>qs out es'. retain_loop f ps es = Some (qs, out, es') \<and> vl_inv es' \<and>
    vl_view es' = concat (map (part_step f (set ps)) (vl_view es)) \<and>
    qs = filter (keeps f (vl_view es)) ps \<and>
    out = concat (map (\<lambda>p. dropped_step f (the (map_of (vl_view es) p))) ps)"
  using assms
proof (induction ps arbitrary: es)
  case Nil
  then show ?case by (simp add: part_step_empty)
next
  case (Cons p ps)
  then obtain k v where "(p, (k, v)) \<in> set (vl_view es)" by auto
  then obtain xs ys where s: "vl_view es = xs @ (p, (k, v)) # ys" by (meson split_list)
  have d: "p \<notin> fst ` set xs" "p \<notin> fst ` set ys"
    using vl.distinct_view [OF Cons.prems(1)] by (auto simp: s)
  obtain es1 where es1: "vl_inv es1" "vl_view es1 = xs @ keep_step f (p, (k, v)) @ ys"
    "retain_loop f (p # ps) es = map_option (\<lambda>(qs, out, es').
       (if fst (f k v) then (p # qs, out, es') else (qs, (k, snd (f k v)) # out, es')))
       (retain_loop f ps es1)" by (rule retain_step_ok [OF Cons.prems(1) s])
  have sub: "set ps \<subseteq> fst ` set (vl_view es1)" using Cons.prems(2,3) by (auto simp: s es1(2))
  have m: "map_of (vl_view es1) q = map_of (vl_view es) q" if "q \<in> set ps" for q
  proof -
    have "q \<noteq> p" using that Cons.prems(2) by auto
    then show ?thesis by (simp add: s es1(2) keep_step_def map_add_def split: option.splits)
  qed
  obtain qs out es' where l: "retain_loop f ps es1 = Some (qs, out, es')" "vl_inv es'"
    "vl_view es' = concat (map (part_step f (set ps)) (vl_view es1))"
    "qs = filter (keeps f (vl_view es1)) ps"
    "out = concat (map (\<lambda>p. dropped_step f (the (map_of (vl_view es1) p))) ps)"
    using Cons.IH [OF es1(1) _ sub] Cons.prems(2) by auto
  have q: "qs = filter (keeps f (vl_view es)) ps" unfolding l(4) by (rule filter_cong) (simp_all add: keeps_def m)
  have o: "out = concat (map (\<lambda>p. dropped_step f (the (map_of (vl_view es) p))) ps)"
    unfolding l(5) by (rule arg_cong [where f = concat], rule map_cong) (simp_all add: m)
  have "p \<notin> set ps" using Cons.prems(2) by simp
  then have "concat (map (part_step f (set ps)) (keep_step f (p, (k, v)))) = keep_step f (p, (k, v))"
    by (simp add: part_step_def keep_step_def)
  then have view: "vl_view es' = concat (map (part_step f (set (p # ps))) (vl_view es))"
    using l(3) d by (simp add: es1(2) s part_step_insert) (simp add: part_step_def)
  have mp: "map_of (vl_view es) p = Some (k, v)" unfolding s by (rule map_of_middle [OF d(1)])
  have kp: "keeps f (vl_view es) p = fst (f k v)" by (simp add: keeps_def mp)
  have dp: "dropped_step f (the (map_of (vl_view es) p)) = (if fst (f k v) then [] else [(k, snd (f k v))])"
    by (simp add: mp dropped_step_def)
  have "retain_loop f (p # ps) es =
      Some (if fst (f k v) then (p # qs, out, es') else (qs, (k, snd (f k v)) # out, es'))"
    unfolding es1(3) l(1) by simp
  with l(2) q o view kp dp show ?case by (cases "fst (f k v)") (simp_all del: retain_loop.simps)
qed

lemma filter_keeps_view:
  assumes "distinct (map fst es)"
  shows "filter (keeps f es) (map fst es) = map fst (concat (map (keep_step f) es))"
proof -
  have "filter (keeps f es) (map fst xs) = map fst (concat (map (keep_step f) xs))"
    if "set xs \<subseteq> set es" for xs
    using that
  proof (induction xs)
    case (Cons x xs)
    then have "map_of es (fst x) = Some (snd x)" using assms by (cases x) auto
    with Cons show ?case by (cases x) (auto simp: keeps_def keep_step_def)
  qed simp
  then show ?thesis by simp
qed

lemma map_snd_keep: "map snd (concat (map (keep_step f) es)) = concat (map (kept_step f) (map snd es))"
  by (induction es) (auto simp: keep_step_def kept_step_def)

lemma distinct_kept:
  "distinct (map fst es) \<Longrightarrow> distinct (map fst (concat (map (kept_step f) es)))"
proof (induction es)
  case (Cons e es)
  have "set (map fst (concat (map (kept_step f) es))) \<subseteq> set (map fst es)"
    by (force simp: kept_step_def split: if_splits)
  then have "fst e \<notin> set (map fst (concat (map (kept_step f) es)))" using Cons.prems by auto
  moreover have "map fst (kept_step f e) = [] \<or> map fst (kept_step f e) = [fst e]"
    by (cases e) (simp add: kept_step_def)
  moreover have "map fst (concat (map (kept_step f) (e # es))) =
      map fst (kept_step f e) @ map fst (concat (map (kept_step f) es))" by simp
  ultimately show ?case using Cons by (metis append_Cons append_Nil distinct.simps(2) list.simps(9))
qed simp

lemma mset_concat_map: "mset (concat (map g xs)) = (\<Sum>x \<in># mset xs. mset (g x))"
  by (induction xs) simp_all

lemma retain_loop_all:
  assumes i: "hm_inv m"
  obtains qs out es where "retain_loop f (hm_indexes m) (hm_entries m) = Some (qs, out, es)"
    "hm_inv (m\<lparr>hm_indexes := qs, hm_entries := es\<rparr>)"
    "hm_view (m\<lparr>hm_indexes := qs, hm_entries := es\<rparr>) = concat (map (kept_step f) (hm_view m))"
    "mset out = mset (concat (map (dropped_step f) (hm_view m)))"
proof -
  let ?v = "vl_view (hm_entries m)"
  note d = hm_invD [OF i] vl.distinct_view [OF hm_invD(1) [OF i]]
  obtain qs out es where r: "retain_loop f (hm_indexes m) (hm_entries m) = Some (qs, out, es)"
    "vl_inv es" "vl_view es = concat (map (part_step f (set (hm_indexes m))) ?v)"
    "qs = filter (keeps f ?v) (hm_indexes m)"
    "out = concat (map (\<lambda>p. dropped_step f (the (map_of ?v p))) (hm_indexes m))"
    using retain_loop_ok [OF d(1,4), of f] d(3) by auto
  have "map (part_step f (set (hm_indexes m))) ?v = map (keep_step f) ?v"
    by (rule map_cong) (auto simp: part_step_def d(3))
  with r(3) have view: "vl_view es = concat (map (keep_step f) ?v)" by simp
  have "mset qs = mset (filter (keeps f ?v) (map fst ?v))"
    using hm_mset_indexes [OF i] by (simp add: r(4))
  also have "\<dots> = mset (map fst (vl_view es))" by (simp only: filter_keeps_view [OF d(6)] view)
  finally have q: "mset qs = mset (map fst (concat (map (keep_step f) ?v)))" by (simp add: view)
  have k: "distinct (map (fst \<circ> snd) (concat (map (keep_step f) ?v)))"
    using distinct_kept [OF d(2), of f] map_snd_keep [of f ?v]
    by (simp add: hm_view_def flip: map_map)
  have "mset out = (\<Sum>p \<in># mset (hm_indexes m). mset (dropped_step f (the (map_of ?v p))))"
    unfolding r(5) by (rule mset_concat_map)
  also have "\<dots> = (\<Sum>e \<in># mset ?v. mset (dropped_step f (the (map_of ?v (fst e)))))"
    using hm_mset_indexes [OF i] by (simp add: image_mset.compositionality o_def)
  also have "\<dots> = (\<Sum>e \<in># mset ?v. mset (dropped_step f (snd e)))"
    using d(6) by (intro arg_cong [where f = sum_mset] image_mset_cong) auto
  also have "\<dots> = mset (concat (map (dropped_step f) (hm_view m)))"
    unfolding mset_concat_map by (simp add: hm_view_def image_mset.compositionality o_def)
  finally have o: "mset out = mset (concat (map (dropped_step f) (hm_view m)))" .
  show thesis
    using that [OF r(1) hm_invI(1) [OF r(2) view k q]] hm_invI(2) [OF r(2) view k q] o map_snd_keep [of f ?v]
    by (simp add: hm_view_def)
qed

lemma hm_retain_ok:
  assumes "hm_inv m"
  shows "\<exists>m'. hm_retain m f = Some m' \<and> hm_inv m' \<and> hm_view m' = concat (map (kept_step f) (hm_view m))"
  by (rule retain_loop_all [OF assms, of f]) (simp add: hm_retain_def)

lemma hm_extract_if_ok:
  assumes "hm_inv m"
  shows "\<exists>out m'. hm_extract_if m f = Some (out, m') \<and> hm_inv m' \<and>
    hm_view m' = concat (map (dropped_step f) (hm_view m)) \<and>
    mset out = mset (concat (map (kept_step f) (hm_view m)))"
proof -
  let ?g = "\<lambda>k v. case f k v of (b, v') \<Rightarrow> (\<not> b, v')"
  have "kept_step ?g = dropped_step f" "dropped_step ?g = kept_step f"
    by (auto simp: kept_step_def dropped_step_def fun_eq_iff split: prod.splits)
  note steps = this
  show ?thesis
    by (rule retain_loop_all [OF assms, of ?g]) (simp add: hm_extract_if_def steps)
qed

section \<open>The contract\<close>

text \<open>
  An insertion-ordered dictionary: what a client may rely on. The parameter \<open>ok\<close> says which hash
  tables are acceptable.
\<close>

locale ordered_dict =
  fixes ok :: "'p \<Rightarrow> bool"
    and inv :: "'m \<Rightarrow> bool"
    and view :: "'m \<Rightarrow> ('k \<times> 'v) list"
    and new :: "'m"
    and insert :: "'p \<Rightarrow> 'm \<Rightarrow> 'k \<Rightarrow> 'v \<Rightarrow> ('v option \<times> 'm) option"
    and insert_back :: "'p \<Rightarrow> 'm \<Rightarrow> 'k \<Rightarrow> 'v \<Rightarrow> ('v option \<times> 'm) option"
    and get :: "'m \<Rightarrow> 'k \<Rightarrow> 'v option option"
    and get_mut_back :: "'m \<Rightarrow> 'k \<Rightarrow> ('v \<Rightarrow> 'v) \<Rightarrow> (bool \<times> 'm) option"
    and remove :: "'m \<Rightarrow> 'k \<Rightarrow> ('v option \<times> 'm) option"
    and pop_front :: "'m \<Rightarrow> (('k \<times> 'v) option \<times> 'm) option"
  assumes inv_new: "inv new" and view_new: "view new = []"
    and distinct_keys: "inv m \<Longrightarrow> distinct (map fst (view m))"
    and insert: "inv m \<Longrightarrow> ok p \<Longrightarrow>
      \<exists>m'. insert p m k v = Some (map_of (view m) k, m') \<and> inv m' \<and> view m' = AList.update k v (view m)"
    and insert_back: "inv m \<Longrightarrow> ok p \<Longrightarrow>
      \<exists>m'. insert_back p m k v = Some (map_of (view m) k, m') \<and> inv m' \<and>
        view m' = AList.delete k (view m) @ [(k, v)]"
    and get: "inv m \<Longrightarrow> get m k = Some (map_of (view m) k)"
    and get_mut_back: "inv m \<Longrightarrow>
      \<exists>m'. get_mut_back m k f = Some (map_of (view m) k \<noteq> None, m') \<and> inv m' \<and>
        view m' = (case map_of (view m) k of None \<Rightarrow> view m
                   | Some v \<Rightarrow> AList.delete k (view m) @ [(k, f v)])"
    and remove: "inv m \<Longrightarrow>
      \<exists>m'. remove m k = Some (map_of (view m) k, m') \<and> inv m' \<and> view m' = AList.delete k (view m)"
    and pop_front: "inv m \<Longrightarrow>
      \<exists>m'. pop_front m = Some (hd_opt (view m), m') \<and> inv m' \<and> view m' = tl (view m)"
begin

lemma get_insert:
  assumes "inv m" and "ok p" and "insert p m k v = Some (r, m')"
  shows "get m' j = Some (if j = k then Some v else map_of (view m) j)"
proof -
  have "inv m'" "view m' = AList.update k v (view m)" using insert [OF assms(1,2), of k v] assms(3) by auto
  then show ?thesis by (simp add: get AList.update_conv)
qed

lemma get_insert_back:
  assumes "inv m" and "ok p" and "insert_back p m k v = Some (r, m')"
  shows "get m' j = Some (if j = k then Some v else map_of (view m) j)"
proof -
  have "inv m'" "view m' = AList.delete k (view m) @ [(k, v)]"
    using insert_back [OF assms(1,2), of k v] assms(3) by auto
  moreover from this have "map_of (view m') j = (if j = k then Some v else map_of (view m) j)"
    by (auto simp: AList.delete_conv map_add_def AList.delete_conv' split: option.splits)
  ultimately show ?thesis by (simp add: get)
qed

end

interpretation hm: ordered_dict placement hm_inv hm_view hm_new hm_insert hm_insert_back hm_get
  hm_get_mut_back hm_remove hm_pop_front
proof (unfold_locales, goal_cases)
  case (3 m)
  then show ?case by (rule hm_invD(2))
next
  case (7 m k f)
  then show ?case by (rule hm_get_mut_back_ok)
qed (simp_all add: hm_new_ok hm_insert_ok hm_insert_back_ok hm_get_ok hm_remove_ok hm_pop_front_ok)

section \<open>Properties\<close>

datatype ('k, 'v) hm_op =
    HInsert 'k 'v
  | HInsertBack 'k 'v
  | HRemove 'k
  | HMoveFront 'k
  | HMoveBack 'k
  | HPopFront
  | HPopBack
  | HRetain "'k \<Rightarrow> 'v \<Rightarrow> bool"
  | HClear

fun hm_exec :: "place \<Rightarrow> ('k, 'v) hm_op \<Rightarrow> ('k, 'v) ordered_map \<Rightarrow> ('k, 'v) ordered_map option" where
  "hm_exec place (HInsert k v) m = map_option snd (hm_insert place m k v)"
| "hm_exec place (HInsertBack k v) m = map_option snd (hm_insert_back place m k v)"
| "hm_exec place (HRemove k) m = map_option snd (hm_remove m k)"
| "hm_exec place (HMoveFront k) m = map_option snd (hm_move_front m k)"
| "hm_exec place (HMoveBack k) m = map_option snd (hm_move_back m k)"
| "hm_exec place HPopFront m = map_option snd (hm_pop_front m)"
| "hm_exec place HPopBack m = map_option snd (hm_pop_back m)"
| "hm_exec place (HRetain f) m = hm_retain m (\<lambda>k v. (f k v, v))"
| "hm_exec place HClear m = Some (hm_clear m)"

fun hm_run :: "place \<Rightarrow> ('k, 'v) hm_op list \<Rightarrow> ('k, 'v) ordered_map \<Rightarrow> ('k, 'v) ordered_map option" where
  "hm_run place [] m = Some m"
| "hm_run place (p # ps) m = do { m \<leftarrow> hm_exec place p m; hm_run place ps m }"

text \<open>The dictionary as a list of entries with distinct keys, in order.\<close>

fun od_exec :: "('k, 'v) hm_op \<Rightarrow> ('k \<times> 'v) list \<Rightarrow> ('k \<times> 'v) list" where
  "od_exec (HInsert k v) d = AList.update k v d"
| "od_exec (HInsertBack k v) d = AList.delete k d @ [(k, v)]"
| "od_exec (HRemove k) d = AList.delete k d"
| "od_exec (HMoveFront k) d = (case map_of d k of None \<Rightarrow> d | Some v \<Rightarrow> (k, v) # AList.delete k d)"
| "od_exec (HMoveBack k) d = (case map_of d k of None \<Rightarrow> d | Some v \<Rightarrow> AList.delete k d @ [(k, v)])"
| "od_exec HPopFront d = tl d"
| "od_exec HPopBack d = butlast d"
| "od_exec (HRetain f) d = filter (\<lambda>(k, v). f k v) d"
| "od_exec HClear d = []"

lemma kept_filter: "concat (map (kept_step (\<lambda>k v. (f k v, v))) d) = filter (\<lambda>(k, v). f k v) d"
  by (induction d) (auto simp: kept_step_def)

lemma hm_exec_ok:
  assumes "hm_inv m" and "placement place"
  shows "\<exists>m'. hm_exec place p m = Some m' \<and> hm_inv m' \<and> hm_view m' = od_exec p (hm_view m)"
proof (cases p)
  case (HInsert k v)
  with hm_insert_ok [OF assms, of k v] show ?thesis by auto
next
  case (HInsertBack k v)
  with hm_insert_back_ok [OF assms, of k v] show ?thesis by auto
next
  case (HRemove k)
  with hm_remove_ok [OF assms(1), of k] show ?thesis by auto
next
  case (HMoveFront k)
  with hm_move_front_ok [OF assms(1), of k] show ?thesis by auto
next
  case (HMoveBack k)
  with hm_move_back_ok [OF assms(1), of k] show ?thesis by auto
next
  case HPopFront
  with hm_pop_front_ok [OF assms(1)] show ?thesis by auto
next
  case HPopBack
  with hm_pop_back_ok [OF assms(1)] show ?thesis by auto
next
  case (HRetain f)
  with hm_retain_ok [OF assms(1), of "\<lambda>k v. (f k v, v)"] show ?thesis by (auto simp: kept_filter)
next
  case HClear
  with hm_clear_ok [of m] show ?thesis by simp
qed

lemma hm_run_ok:
  assumes "hm_inv m" and "placement place"
  shows "\<exists>m'. hm_run place ops m = Some m' \<and> hm_inv m' \<and> hm_view m' = fold od_exec ops (hm_view m)"
  using assms(1)
proof (induction ops arbitrary: m)
  case (Cons p ops)
  obtain m1 where "hm_exec place p m = Some m1" "hm_inv m1" "hm_view m1 = od_exec p (hm_view m)"
    using hm_exec_ok [OF Cons.prems assms(2)] by blast
  with Cons.IH [of m1] show ?case by simp
qed simp

lemma length_hm_view: "hm_inv m \<Longrightarrow> hm_len m = length (hm_view m)"
  by (simp add: hm_len_def hm_invD)

lemma hm_is_empty_ok: "hm_inv m \<Longrightarrow> hm_is_empty m \<longleftrightarrow> hm_view m = []"
  using hm_invD(5) [of m] by (auto simp: hm_is_empty_def)

lemma vl_eq_ok:
  assumes "vl_inv l" and "vl_inv l'"
  shows "vl_eq l l' = Some (map snd (vl_view l) = map snd (vl_view l'))"
proof -
  have n: "vlen l = length (vl_view l)" if "vl_inv l" for l :: "'a vec_list"
    using that by (auto simp: vl_inv_def vl_ok_def vl_view_def)
  obtain it where it: "iter_new l = Some it" "it_at l it (vl_view l)"
    using it_at_new [OF assms(1)] by blast
  obtain it' where it': "iter_new l' = Some it'" "it_at l' it' (vl_view l')"
    using it_at_new [OF assms(2)] by blast
  show ?thesis
    using it it' iter_collect_at [OF assms(1) it(2)] iter_collect_at [OF assms(2) it'(2)]
      n [OF assms(1)] n [OF assms(2)] map_eq_imp_length_eq [of snd "vl_view l" snd "vl_view l'"]
    by (auto simp: vl_eq_def)
qed

lemma eq_all_ok:
  "hm_inv n \<Longrightarrow> eq_all n kvs = Some (\<forall>(k, v) \<in> set kvs. map_of (hm_view n) k = Some v)"
  by (induction n kvs rule: eq_all.induct) (auto simp: hm_get_ok)

lemma alist_same_map:
  assumes "distinct (map fst xs)" and "distinct (map fst ys)" and "length xs = length ys"
    and "\<forall>(k, v) \<in> set xs. map_of ys k = Some v"
  shows "map_of xs = map_of ys"
proof -
  have sub: "map_of xs \<subseteq>\<^sub>m map_of ys"
    using assms(4) by (fastforce simp: map_le_def dom_def dest: map_of_SomeD)
  have "card (dom (map_of xs)) = card (dom (map_of ys))"
    using distinct_card [OF assms(1)] distinct_card [OF assms(2)] assms(3) by (simp add: dom_map_of_conv_image_fst)
  then have "dom (map_of xs) = dom (map_of ys)"
    using map_le_implies_dom_le [OF sub] by (simp add: card_subset_eq finite_dom_map_of)
  then show ?thesis using sub by (metis map_le_antisym map_le_def)
qed

lemma hm_eq_ignore_order_ok:
  assumes m: "hm_inv m" and n: "hm_inv n"
  shows "hm_eq_ignore_order m n = Some (map_of (hm_view m) = map_of (hm_view n))"
proof -
  note d = hm_invD(2) [OF m] hm_invD(2) [OF n]
  have l: "length (hm_view m) = length (hm_view n)" if "map_of (hm_view m) = map_of (hm_view n)"
    using distinct_card [OF d(1)] distinct_card [OF d(2)] arg_cong [OF that, of dom]
    by (simp add: dom_map_of_conv_image_fst)
  have all: "(\<forall>(k, v) \<in> set (hm_view m). map_of (hm_view n) k = Some v)"
    if "map_of (hm_view m) = map_of (hm_view n)"
    using map_of_eq_Some_iff [OF d(1)] that by auto
  show ?thesis
    using l all alist_same_map [OF d]
    by (auto simp: hm_eq_ignore_order_def length_hm_view m n hm_iter_ok eq_all_ok)
qed

text \<open>
  C10. \<open>HashOrderedMap\<close> refines an insertion-ordered dictionary. Whatever the hash table's bucket
  order, any sequence of operations from \<open>new\<close> runs without a panic (in particular the
  \<open>expect("HashOrderedMap index_map invariant")\<close> never fails), and the map it leaves iterates,
  looks up and counts exactly as the ordered list of entries that the same operations build.
\<close>

theorem ordered_map_refines:
  assumes "placement place"
  shows "\<exists>m. hm_run place ops hm_new = Some m \<and> hm_inv m \<and>
    hm_iter m = Some (fold od_exec ops []) \<and>
    (\<forall>k. hm_get m k = Some (map_of (fold od_exec ops []) k)) \<and>
    hm_len m = length (fold od_exec ops [])"
  using hm_run_ok [OF hm_new_ok(1) assms, of ops]
  by (auto simp: hm_new_ok(2) hm_iter_ok hm_get_ok length_hm_view)

theorem ordered_map_refines_witness:
  "\<exists>m. hm_run (#) [HInsert (1::nat) ''a'', HInsert 2 ''b'', HInsertBack 1 ''c'', HInsert 2 ''d'', HMoveFront 1]
       hm_new = Some m \<and> hm_iter m = Some [(1, ''c''), (2, ''d'')] \<and> hm_get m 2 = Some (Some ''d'')"
proof -
  have "placement (#)" by (simp add: placement_def)
  from ordered_map_refines [OF this, of "[HInsert (1::nat) ''a'', HInsert 2 ''b'', HInsertBack 1 ''c'',
      HInsert 2 ''d'', HMoveFront 1]"]
  show ?thesis by (auto simp del: hm_run.simps)
qed

text \<open>
  The two equalities of \<open>HashOrderedMap\<close>: \<open>==\<close> is sensitive to the order of the entries,
  \<open>eq_ignore_order\<close> is equality of the maps; neither panics.
\<close>

theorem ordered_map_equalities:
  assumes "hm_inv m" and "hm_inv n"
  shows "hm_eq m n = Some (hm_view m = hm_view n) \<and>
    hm_eq_ignore_order m n = Some (map_of (hm_view m) = map_of (hm_view n))"
  using vl_eq_ok [OF hm_invD(1) [OF assms(1)] hm_invD(1) [OF assms(2)]] hm_eq_ignore_order_ok [OF assms]
  by (simp add: hm_eq_def hm_view_def)

theorem ordered_map_equalities_witness:
  "\<exists>m n. hm_run (#) [HInsert (1::nat) (5::nat), HInsert 2 6] hm_new = Some m \<and>
     hm_run (#) [HInsert 2 6, HInsert 1 5] hm_new = Some n \<and>
     hm_eq m n = Some False \<and> hm_eq_ignore_order m n = Some True"
proof -
  have p: "placement (#)" by (simp add: placement_def)
  obtain m where m: "hm_run (#) [HInsert (1::nat) (5::nat), HInsert 2 6] hm_new = Some m" "hm_inv m"
    "hm_view m = [(1, 5), (2, 6)]"
    using hm_run_ok [OF hm_new_ok(1) p, of "[HInsert (1::nat) (5::nat), HInsert 2 6]"]
    by (auto simp: hm_new_ok(2) simp del: hm_run.simps)
  obtain n where n: "hm_run (#) [HInsert (2::nat) (6::nat), HInsert 1 5] hm_new = Some n" "hm_inv n"
    "hm_view n = [(2, 6), (1, 5)]"
    using hm_run_ok [OF hm_new_ok(1) p, of "[HInsert (2::nat) (6::nat), HInsert 1 5]"]
    by (auto simp: hm_new_ok(2) simp del: hm_run.simps)
  show ?thesis using m n ordered_map_equalities [OF m(2) n(2)]
    by (auto simp: fun_eq_iff simp del: hm_run.simps)
qed

end
