(* ===== verification/Delay_Set.thy ===== *)
theory Delay_Set
  imports Ordered_Map
begin

text \<open>
  The set of values with a fixed delay \<open>FixedDelaySet\<close>
  (\<open>src/rust/g1/tokio/src/time/set/naive.rs\<close>), a client of \<open>HashOrderedMap\<close>: since every insertion
  and update moves the value to the back with the deadline \<open>now + delay\<close>, the entries stay ordered by
  deadline as long as the clock does not go back, and only the front has to be looked at.

  An \<open>Instant\<close> is an integer number of nanoseconds, the reading of the clock is an argument. The
  asynchronous \<open>expired\<close> is given by the instant it sleeps until.
\<close>

section \<open>State and operations\<close>

record 'a delay_set =
  ds_set :: "('a, int) ordered_map"
  ds_delay :: nat

definition ds_new :: "nat \<Rightarrow> 'a delay_set" where
  "ds_new delay = \<lparr>ds_set = hm_new, ds_delay = delay\<rparr>"

definition ds_iter :: "'a delay_set \<Rightarrow> 'a list option" where
  "ds_iter s = hm_keys (ds_set s)"

definition ds_extract_if :: "'a delay_set \<Rightarrow> ('a \<Rightarrow> bool) \<Rightarrow> ('a list \<times> 'a delay_set) option" where
  "ds_extract_if s f = do {
     (out, m) \<leftarrow> hm_extract_if (ds_set s) (\<lambda>v d. (f v, d));
     Some (map fst out, s\<lparr>ds_set := m\<rparr>)
   }"

definition ds_retain :: "'a delay_set \<Rightarrow> ('a \<Rightarrow> bool) \<Rightarrow> 'a delay_set option" where
  "ds_retain s f = do {
     m \<leftarrow> hm_retain (ds_set s) (\<lambda>v d. (f v, d));
     Some (s\<lparr>ds_set := m\<rparr>)
   }"

definition ds_clear :: "'a delay_set \<Rightarrow> 'a delay_set" where
  "ds_clear s = s\<lparr>ds_set := hm_clear (ds_set s)\<rparr>"

definition ds_expired :: "'a delay_set \<Rightarrow> int option option" where
  "ds_expired s = do {
     e \<leftarrow> hm_front (ds_set s);
     Some (map_option snd e)
   }"

definition ds_contains :: "'a delay_set \<Rightarrow> 'a \<Rightarrow> bool option" where
  "ds_contains s v = hm_contains_key (ds_set s) v"

definition ds_insert_now :: "place \<Rightarrow> 'a delay_set \<Rightarrow> 'a \<Rightarrow> int \<Rightarrow> (bool \<times> 'a delay_set) option" where
  "ds_insert_now place s v now = do {
     (old, m) \<leftarrow> hm_insert_back place (ds_set s) v (now + int (ds_delay s));
     Some (old = None, s\<lparr>ds_set := m\<rparr>)
   }"

fun ds_extend :: "place \<Rightarrow> 'a delay_set \<Rightarrow> 'a list \<Rightarrow> int \<Rightarrow> 'a delay_set option" where
  "ds_extend place s [] now = Some s"
| "ds_extend place s (v # vs) now = do {
     (_, s) \<leftarrow> ds_insert_now place s v now;
     ds_extend place s vs now
   }"

definition ds_insert_new :: "place \<Rightarrow> 'a delay_set \<Rightarrow> 'a \<Rightarrow> int \<Rightarrow> (bool \<times> 'a delay_set) option" where
  "ds_insert_new place s v now = do {
     e \<leftarrow> hm_entry (ds_set s) v;
     (case e of
        Occupied _ \<Rightarrow> Some (False, s)
      | Vacant v \<Rightarrow> do {
          (_, m) \<leftarrow> vac_insert place (ds_set s) v (now + int (ds_delay s));
          Some (True, s\<lparr>ds_set := m\<rparr>)
        })
   }"

definition ds_update :: "'a delay_set \<Rightarrow> 'a \<Rightarrow> int \<Rightarrow> (bool \<times> 'a delay_set) option" where
  "ds_update s v now = do {
     (found, m) \<leftarrow> hm_get_mut_back (ds_set s) v (\<lambda>_. now + int (ds_delay s));
     Some (found, s\<lparr>ds_set := m\<rparr>)
   }"

definition ds_remove :: "'a delay_set \<Rightarrow> 'a \<Rightarrow> (bool \<times> 'a delay_set) option" where
  "ds_remove s v = do {
     (old, m) \<leftarrow> hm_remove (ds_set s) v;
     Some (old \<noteq> None, s\<lparr>ds_set := m\<rparr>)
   }"

definition pop_expired_now :: "'a delay_set \<Rightarrow> int \<Rightarrow> ('a option \<times> 'a delay_set) option" where
  "pop_expired_now s now = do {
     entry \<leftarrow> hm_front_entry (ds_set s);
     (case entry of
        None \<Rightarrow> Some (None, s)
      | Some p \<Rightarrow> do {
          d \<leftarrow> occ_get (ds_set s) p;
          if d \<le> now
          then do {
            (e, m) \<leftarrow> occ_remove_entry (ds_set s) p;
            Some (Some (fst e), s\<lparr>ds_set := m\<rparr>)
          }
          else Some (None, s)
        })
   }"

text \<open>\<open>drain_expired\<close> run to its end, and the loop of \<open>clear_expired\<close>.\<close>

lemma im_find_mem: "im_find ps es k = Some (Some p) \<Longrightarrow> p \<in> set ps"
  by (induction ps es k rule: im_find.induct) (auto elim!: bind_eq_SomeE split: if_splits)

lemma remove1_shorter: "p \<in> set xs \<Longrightarrow> length (remove1 p xs) < length xs"
  by (induction xs) auto

lemma occ_remove_shrinks:
  assumes "hm_front_entry m = Some (Some p)" and "occ_remove_entry m p = Some (e, m')"
  shows "length (hm_indexes m') < length (hm_indexes m)"
proof -
  have "p \<in> set (hm_indexes m)"
    using assms(1) by (auto simp: hm_front_entry_def hm_occupied_entry_def
        elim!: bind_eq_SomeE split: option.splits dest!: im_find_mem)
  moreover have "hm_indexes m' = remove1 p (hm_indexes m)"
    using assms(2) by (auto simp: occ_remove_entry_def elim!: bind_eq_SomeE split: prod.splits)
  ultimately show ?thesis by (simp only: remove1_shorter)
qed

lemma pop_expired_shrinks:
  assumes "pop_expired_now s now = Some (Some v, s')"
  shows "length (hm_indexes (ds_set s')) < length (hm_indexes (ds_set s))"
proof -
  obtain p e m where "hm_front_entry (ds_set s) = Some (Some p)"
    "occ_remove_entry (ds_set s) p = Some (e, m)" "ds_set s' = m"
    using assms by (auto simp: pop_expired_now_def elim!: bind_eq_SomeE split: option.splits if_splits)
  then show ?thesis using occ_remove_shrinks by blast
qed

function drain_expired :: "'a delay_set \<Rightarrow> int \<Rightarrow> ('a list \<times> 'a delay_set) option" where
  "drain_expired s now = do {
     (r, s') \<leftarrow> pop_expired_now s now;
     (case r of
        None \<Rightarrow> Some ([], s')
      | Some v \<Rightarrow> do { (vs, s'') \<leftarrow> drain_expired s' now; Some (v # vs, s'') })
   }"
  by pat_completeness auto
termination
  by (relation "measure (\<lambda>(s, now). length (hm_indexes (ds_set s)))") (auto dest: pop_expired_shrinks)

function clear_expired :: "'a delay_set \<Rightarrow> int \<Rightarrow> 'a delay_set option" where
  "clear_expired s now = do {
     entry \<leftarrow> hm_front_entry (ds_set s);
     (case entry of
        None \<Rightarrow> Some s
      | Some p \<Rightarrow> do {
          d \<leftarrow> occ_get (ds_set s) p;
          if d \<le> now
          then do {
            (_, m) \<leftarrow> occ_remove_entry (ds_set s) p;
            clear_expired (s\<lparr>ds_set := m\<rparr>) now
          }
          else Some s
        })
   }"
  by pat_completeness auto
termination
  by (relation "measure (\<lambda>(s, now). length (hm_indexes (ds_set s)))") (auto dest: occ_remove_shrinks)

declare drain_expired.simps [simp del] clear_expired.simps [simp del]

section \<open>Invariant\<close>

abbreviation ds_view :: "'a delay_set \<Rightarrow> ('a \<times> int) list" where
  "ds_view s \<equiv> hm_view (ds_set s)"

definition ds_inv :: "int \<Rightarrow> 'a delay_set \<Rightarrow> bool" where
  "ds_inv t s \<longleftrightarrow> hm_inv (ds_set s) \<and> sorted (map snd (ds_view s)) \<and>
     (\<forall>d \<in> snd ` set (ds_view s). d \<le> t + int (ds_delay s))"

lemma ds_inv_mono: "ds_inv t s \<Longrightarrow> t \<le> t' \<Longrightarrow> ds_inv t' s"
  by (force simp: ds_inv_def)

lemma ds_inv_new: "ds_inv t (ds_new d)"
  by (simp add: ds_inv_def ds_new_def hm_new_ok)

lemma ds_inv_same: "ds_inv t (s\<lparr>ds_set := m\<rparr>) \<longleftrightarrow> hm_inv m \<and> sorted (map snd (hm_view m)) \<and>
    (\<forall>d \<in> snd ` set (hm_view m). d \<le> t + int (ds_delay s))"
  by (simp add: ds_inv_def)

lemma sorted_delete: "sorted (map snd xs) \<Longrightarrow> sorted (map snd (AList.delete k xs))"
  by (simp add: AList.delete_eq sorted_filter)

lemma set_delete: "set (AList.delete k xs) \<subseteq> set xs"
  by (auto simp: AList.delete_eq)

lemma sorted_push:
  assumes "sorted (map snd xs)" and "\<forall>d \<in> snd ` set xs. d \<le> (t::int)"
  shows "sorted (map snd (xs @ [(v, t)]))" and "\<forall>d \<in> snd ` set (xs @ [(v, t)]). d \<le> t"
  using assms by (auto simp: sorted_append)

lemma ds_push:
  assumes "ds_inv t s" and "hm_inv m" and "hm_view m = xs @ [(v, t + int (ds_delay s))]"
    and "set xs \<subseteq> set (ds_view s)" and "sorted (map snd xs)"
  shows "ds_inv t (s\<lparr>ds_set := m\<rparr>)"
proof -
  have "\<forall>d \<in> snd ` set xs. d \<le> t + int (ds_delay s)"
    using assms(1,4) unfolding ds_inv_def by blast
  from sorted_push [OF assms(5) this, of v] show ?thesis
    unfolding ds_inv_same assms(3) using assms(2) by blast
qed

text \<open>One lemma per operation: no panic, the invariant, and the entries.\<close>

lemma ds_insert_now_ok:
  assumes "ds_inv t s" and "placement place"
  shows "\<exists>s'. ds_insert_now place s v t = Some (v \<notin> fst ` set (ds_view s), s') \<and> ds_inv t s' \<and>
    ds_delay s' = ds_delay s \<and> ds_view s' = AList.delete v (ds_view s) @ [(v, t + int (ds_delay s))]"
proof -
  obtain m where m: "hm_insert_back place (ds_set s) v (t + int (ds_delay s)) =
      Some (map_of (ds_view s) v, m)" "hm_inv m"
    "hm_view m = AList.delete v (ds_view s) @ [(v, t + int (ds_delay s))]"
    using hm.insert_back [of "ds_set s" place v "t + int (ds_delay s)"] assms by (auto simp: ds_inv_def)
  moreover have "ds_inv t (s\<lparr>ds_set := m\<rparr>)"
    using assms(1) by (intro ds_push [OF assms(1) m(2,3)]) (simp_all add: sorted_delete ds_inv_def set_delete)
  ultimately show ?thesis by (simp add: ds_insert_now_def map_of_eq_None_iff)
qed

lemma ds_insert_new_ok:
  assumes "ds_inv t s" and "placement place"
  shows "\<exists>s'. ds_insert_new place s v t = Some (v \<notin> fst ` set (ds_view s), s') \<and> ds_inv t s' \<and>
    ds_delay s' = ds_delay s \<and>
    ds_view s' = (if v \<in> fst ` set (ds_view s) then ds_view s else ds_view s @ [(v, t + int (ds_delay s))])"
proof -
  have i: "hm_inv (ds_set s)" using assms(1) by (simp add: ds_inv_def)
  show ?thesis
    using i
  proof (cases rule: hm_view_cases [where k = v])
    case absent
    obtain c m where m: "vac_insert place (ds_set s) v (t + int (ds_delay s)) = Some (c, m)" "hm_inv m"
      "vl_view (hm_entries m) = vl_view (hm_entries (ds_set s)) @ [(c, (v, t + int (ds_delay s)))]"
      by (rule vac_insert_ok [OF i assms(2) absent(1)])
    have view: "hm_view m = ds_view s @ [(v, t + int (ds_delay s))]" using m(3) by (simp add: hm_view_def)
    have "ds_inv t (s\<lparr>ds_set := m\<rparr>)"
      using assms(1) by (intro ds_push [OF assms(1) m(2) view]) (simp_all add: ds_inv_def)
    with absent m(1) view hm_find_absent [OF i absent(1)] show ?thesis
      by (simp add: ds_insert_new_def hm_entry_def)
  next
    case (present xs c d ys)
    with hm_find_present [OF i present(1)] hm_split(1) [OF i present(1)] assms(1) show ?thesis
      by (simp add: ds_insert_new_def hm_entry_def)
  qed
qed

lemma ds_update_ok:
  assumes "ds_inv t s"
  shows "\<exists>s'. ds_update s v t = Some (v \<in> fst ` set (ds_view s), s') \<and> ds_inv t s' \<and>
    ds_delay s' = ds_delay s \<and>
    ds_view s' = (if v \<in> fst ` set (ds_view s)
      then AList.delete v (ds_view s) @ [(v, t + int (ds_delay s))] else ds_view s)"
proof -
  obtain m where m: "hm_get_mut_back (ds_set s) v (\<lambda>_. t + int (ds_delay s)) =
      Some (map_of (ds_view s) v \<noteq> None, m)" "hm_inv m"
    "hm_view m = (case map_of (ds_view s) v of None \<Rightarrow> ds_view s
       | Some _ \<Rightarrow> AList.delete v (ds_view s) @ [(v, t + int (ds_delay s))])"
    using hm.get_mut_back [of "ds_set s" v "\<lambda>_. t + int (ds_delay s)"] assms by (auto simp: ds_inv_def)
  show ?thesis
  proof (cases "map_of (ds_view s) v")
    case None
    with m assms show ?thesis by (simp add: ds_update_def map_of_eq_None_iff ds_inv_same ds_inv_def)
  next
    case (Some d)
    then have "v \<in> fst ` set (ds_view s)" by (metis map_of_eq_None_iff option.distinct(1))
    moreover have "ds_inv t (s\<lparr>ds_set := m\<rparr>)"
      using Some m(3) assms
      by (intro ds_push [OF assms m(2), of "AList.delete v (ds_view s)" v])
        (simp_all add: sorted_delete ds_inv_def set_delete)
    ultimately show ?thesis using m Some by (simp add: ds_update_def)
  qed
qed

lemma ds_remove_ok:
  assumes "ds_inv t s"
  shows "\<exists>s'. ds_remove s v = Some (v \<in> fst ` set (ds_view s), s') \<and> ds_inv t s' \<and>
    ds_delay s' = ds_delay s \<and> ds_view s' = AList.delete v (ds_view s)"
proof -
  obtain m where m: "hm_remove (ds_set s) v = Some (map_of (ds_view s) v, m)" "hm_inv m"
    "hm_view m = AList.delete v (ds_view s)"
    using hm.remove [of "ds_set s" v] assms by (auto simp: ds_inv_def)
  moreover have "map_of (ds_view s) v \<noteq> None \<longleftrightarrow> v \<in> fst ` set (ds_view s)"
    by (simp only: map_of_eq_None_iff) simp
  ultimately show ?thesis
    using assms set_delete [of v "ds_view s"] by (auto simp: ds_remove_def ds_inv_same ds_inv_def sorted_delete)
qed

text \<open>Expiry: the front entries whose deadline has passed.\<close>

lemma ds_tail:
  assumes "ds_inv t s" and "ds_view s = e # es" and "hm_inv m" and "hm_view m = es"
  shows "ds_inv t (s\<lparr>ds_set := m\<rparr>)"
  using assms by (simp add: ds_inv_same ds_inv_def)

lemma front_removed:
  assumes "ds_inv t s" and "ds_view s = (v, d) # es"
  obtains p m where "hm_front_entry (ds_set s) = Some (Some p)" "occ_get (ds_set s) p = Some d"
    "occ_remove_entry (ds_set s) p = Some ((v, d), m)" "ds_inv t (s\<lparr>ds_set := m\<rparr>)" "hm_view m = es"
proof -
  have i: "hm_inv (ds_set s)" using assms(1) by (simp add: ds_inv_def)
  obtain p ps where s: "vl_view (hm_entries (ds_set s)) = [] @ (p, (v, d)) # ps" "map snd ps = es"
    using assms(2) by (auto simp: hm_view_def)
  obtain m where m: "occ_remove_entry (ds_set s) p = Some ((v, d), m)" "hm_inv m"
    "vl_view (hm_entries m) = [] @ ps" by (rule occ_remove_ok [OF i s(1)])
  have "hm_front_entry (ds_set s) = Some (Some p)" using hm_front_entry_ok [OF i] s(1) by simp
  moreover have "hm_view m = es" using m(3) s(2) by (simp add: hm_view_def)
  ultimately show thesis
    using that occ_get_ok [OF i s(1)] m ds_tail [OF assms m(2)] by blast
qed

lemma front_none: "ds_inv t s \<Longrightarrow> ds_view s = [] \<Longrightarrow> hm_front_entry (ds_set s) = Some None"
  using hm_front_entry_ok [of "ds_set s"] by (simp add: ds_inv_def hm_view_def)

lemma drain_expired_ok:
  assumes "ds_inv t s"
  shows "\<exists>s'. drain_expired s now = Some (map fst (takeWhile (\<lambda>e. snd e \<le> now) (ds_view s)), s') \<and>
    ds_inv t s' \<and> ds_delay s' = ds_delay s \<and> ds_view s' = dropWhile (\<lambda>e. snd e \<le> now) (ds_view s)"
  using assms
proof (induction "ds_view s" arbitrary: s)
  case Nil
  then show ?case
    by (subst drain_expired.simps) (simp add: pop_expired_now_def front_none [OF Nil.prems])
next
  case (Cons e es)
  obtain v d where e: "e = (v, d)" by (cases e)
  with Cons.hyps(2) have view: "ds_view s = (v, d) # es" by simp
  obtain p m where m: "hm_front_entry (ds_set s) = Some (Some p)" "occ_get (ds_set s) p = Some d"
    "occ_remove_entry (ds_set s) p = Some ((v, d), m)" "ds_inv t (s\<lparr>ds_set := m\<rparr>)" "hm_view m = es"
    by (rule front_removed [OF Cons.prems view])
  show ?case
  proof (cases "d \<le> now")
    case True
    with m Cons.hyps(1) [of "s\<lparr>ds_set := m\<rparr>"] view show ?thesis
      by (subst drain_expired.simps) (auto simp: pop_expired_now_def)
  next
    case False
    with m(1,2) view Cons.prems show ?thesis
      by (subst drain_expired.simps) (simp add: pop_expired_now_def)
  qed
qed

lemma clear_expired_ok:
  assumes "ds_inv t s"
  shows "\<exists>s'. clear_expired s now = Some s' \<and>
    ds_inv t s' \<and> ds_delay s' = ds_delay s \<and> ds_view s' = dropWhile (\<lambda>e. snd e \<le> now) (ds_view s)"
  using assms
proof (induction "ds_view s" arbitrary: s)
  case Nil
  then show ?case by (subst clear_expired.simps) (simp add: front_none [OF Nil.prems])
next
  case (Cons e es)
  obtain v d where e: "e = (v, d)" by (cases e)
  with Cons.hyps(2) have view: "ds_view s = (v, d) # es" by simp
  obtain p m where m: "hm_front_entry (ds_set s) = Some (Some p)" "occ_get (ds_set s) p = Some d"
    "occ_remove_entry (ds_set s) p = Some ((v, d), m)" "ds_inv t (s\<lparr>ds_set := m\<rparr>)" "hm_view m = es"
    by (rule front_removed [OF Cons.prems view])
  show ?case
  proof (cases "d \<le> now")
    case True
    with m Cons.hyps(1) [of "s\<lparr>ds_set := m\<rparr>"] view show ?thesis
      by (subst clear_expired.simps) auto
  next
    case False
    with m(1,2) view Cons.prems show ?thesis by (subst clear_expired.simps) simp
  qed
qed

lemma sorted_expiry:
  assumes "sorted (map snd es)"
  shows "takeWhile (\<lambda>e. snd e \<le> (now::int)) es = filter (\<lambda>e. snd e \<le> now) es"
    and "dropWhile (\<lambda>e. snd e \<le> now) es = filter (\<lambda>e. \<not> snd e \<le> now) es"
  using assms
proof (induction es)
  case (Cons e es)
  {
    case 1
    then have "filter (\<lambda>e. snd e \<le> now) es = []" if "\<not> snd e \<le> now"
      using that by (force simp: filter_empty_conv)
    with Cons 1 show ?case by auto
  next
    case 2
    then have "filter (\<lambda>e. \<not> snd e \<le> now) es = es" if "\<not> snd e \<le> now"
      using that by (intro filter_True) force
    with Cons 2 show ?case by auto
  }
qed simp_all

section \<open>Traces\<close>

datatype 'a ds_op = DInsert 'a | DInsertNew 'a | DUpdate 'a | DRemove 'a | DDrain | DClearExpired

fun ds_exec :: "place \<Rightarrow> int \<times> 'a ds_op \<Rightarrow> 'a delay_set \<Rightarrow> ('a list \<times> 'a delay_set) option" where
  "ds_exec place (t, DInsert v) s = map_option (\<lambda>(_, s). ([], s)) (ds_insert_now place s v t)"
| "ds_exec place (t, DInsertNew v) s = map_option (\<lambda>(_, s). ([], s)) (ds_insert_new place s v t)"
| "ds_exec place (t, DUpdate v) s = map_option (\<lambda>(_, s). ([], s)) (ds_update s v t)"
| "ds_exec place (t, DRemove v) s = map_option (\<lambda>(_, s). ([], s)) (ds_remove s v)"
| "ds_exec place (t, DDrain) s = drain_expired s t"
| "ds_exec place (t, DClearExpired) s = map_option (\<lambda>s. ([], s)) (clear_expired s t)"

fun ds_run :: "place \<Rightarrow> (int \<times> 'a ds_op) list \<Rightarrow> 'a delay_set \<Rightarrow> ('a list list \<times> 'a delay_set) option" where
  "ds_run place [] s = Some ([], s)"
| "ds_run place (p # ps) s = do {
     (out, s) \<leftarrow> ds_exec place p s;
     (outs, s) \<leftarrow> ds_run place ps s;
     Some (out # outs, s)
   }"

text \<open>The unordered specification: a map from values to deadlines, expiry looks at all of it.\<close>

definition dm_expired :: "('a \<rightharpoonup> int) \<Rightarrow> int \<Rightarrow> 'a set" where
  "dm_expired m t = {v. \<exists>d. m v = Some d \<and> d \<le> t}"

fun dm_exec :: "nat \<Rightarrow> int \<times> 'a ds_op \<Rightarrow> ('a \<rightharpoonup> int) \<Rightarrow> 'a set \<times> ('a \<rightharpoonup> int)" where
  "dm_exec delay (t, DInsert v) m = ({}, m(v \<mapsto> t + int delay))"
| "dm_exec delay (t, DInsertNew v) m = ({}, if m v = None then m(v \<mapsto> t + int delay) else m)"
| "dm_exec delay (t, DUpdate v) m = ({}, if m v = None then m else m(v \<mapsto> t + int delay))"
| "dm_exec delay (t, DRemove v) m = ({}, m(v := None))"
| "dm_exec delay (t, DDrain) m = (dm_expired m t, m |` (- dm_expired m t))"
| "dm_exec delay (t, DClearExpired) m = ({}, m |` (- dm_expired m t))"

fun dm_run :: "nat \<Rightarrow> (int \<times> 'a ds_op) list \<Rightarrow> ('a \<rightharpoonup> int) \<Rightarrow> 'a set list \<times> ('a \<rightharpoonup> int)" where
  "dm_run delay [] m = ([], m)"
| "dm_run delay (p # ps) m =
     (let (out, m) = dm_exec delay p m; (outs, m) = dm_run delay ps m in (out # outs, m))"

lemma map_of_push: "map_of (AList.delete v es @ [(v, d)]) = (map_of es)(v \<mapsto> d)"
  by (auto simp: fun_eq_iff AList.delete_conv' map_add_def split: option.splits)

lemma map_of_append_new: "v \<notin> fst ` set es \<Longrightarrow> map_of (es @ [(v, d)]) = (map_of es)(v \<mapsto> d)"
  using map_of_push [of v es d] by simp

lemma option_eqI: "(\<And>y. a = Some y \<longleftrightarrow> b = Some y) \<Longrightarrow> a = b"
  by (metis not_Some_eq)

lemma expired_keys:
  assumes "distinct (map fst es)"
  shows "fst ` set (filter (\<lambda>e. snd e \<le> t) es) = dm_expired (map_of es) t"
    and "map_of (filter (\<lambda>e. \<not> snd e \<le> t) es) = map_of es |` (- dm_expired (map_of es) t)"
proof -
  note s = map_of_eq_Some_iff [OF assms]
  show "fst ` set (filter (\<lambda>e. snd e \<le> t) es) = dm_expired (map_of es) t"
    by (force simp: dm_expired_def s)
  have d: "distinct (map fst (filter (\<lambda>e. \<not> snd e \<le> t) es))" using assms by (rule distinct_map_filter)
  show "map_of (filter (\<lambda>e. \<not> snd e \<le> t) es) = map_of es |` (- dm_expired (map_of es) t)"
  proof (rule ext, rule option_eqI)
    fix v y
    have "(map_of es |` (- dm_expired (map_of es) t)) v = Some y \<longleftrightarrow> map_of es v = Some y \<and> \<not> y \<le> t"
      by (auto simp: restrict_map_def dm_expired_def)
    then show "map_of (filter (\<lambda>e. \<not> snd e \<le> t) es) v = Some y \<longleftrightarrow>
        (map_of es |` (- dm_expired (map_of es) t)) v = Some y"
      using map_of_eq_Some_iff [OF d, of v y] s [of v y] by auto
  qed
qed

lemma ds_exec_ok:
  assumes i: "ds_inv t0 s" and le: "t0 \<le> t" and p: "placement place"
  shows "\<exists>out s'. ds_exec place (t, op) s = Some (out, s') \<and> ds_inv t s' \<and> ds_delay s' = ds_delay s \<and>
    distinct out \<and> (set out, map_of (ds_view s')) = dm_exec (ds_delay s) (t, op) (map_of (ds_view s))"
proof -
  have it: "ds_inv t s" by (rule ds_inv_mono [OF i le])
  have d: "distinct (map fst (ds_view s))" and srt: "sorted (map snd (ds_view s))"
    using it hm.distinct_keys [of "ds_set s"] by (auto simp: ds_inv_def)
  note x = sorted_expiry [OF srt, of t] expired_keys [OF d, of t]
  have dm: "map_of (ds_view s) v = None \<longleftrightarrow> v \<notin> fst ` set (ds_view s)" for v
    by (simp add: map_of_eq_None_iff)
  show ?thesis
  proof (cases op)
    case (DInsert v)
    with ds_insert_now_ok [OF it p, of v] show ?thesis by (auto simp: map_of_push simp del: map_of_append)
  next
    case (DInsertNew v)
    with ds_insert_new_ok [OF it p, of v] dm [of v] show ?thesis
      by (cases "v \<in> fst ` set (ds_view s)") (auto simp: map_of_append_new simp del: map_of_append)
  next
    case (DUpdate v)
    with ds_update_ok [OF it, of v] dm [of v] show ?thesis
      by (cases "v \<in> fst ` set (ds_view s)") (auto simp: map_of_push simp del: map_of_append)
  next
    case (DRemove v)
    with ds_remove_ok [OF it, of v] show ?thesis by (auto simp: AList.delete_conv')
  next
    case DDrain
    have "distinct (map fst (filter (\<lambda>e. snd e \<le> t) (ds_view s)))" by (rule distinct_map_filter [OF d])
    with DDrain drain_expired_ok [OF it, of t] x show ?thesis by auto
  next
    case DClearExpired
    with clear_expired_ok [OF it, of t] x show ?thesis by auto
  qed
qed

lemma ds_run_ok:
  assumes "placement place" and "ds_inv t0 s" and "sorted (t0 # map fst tr)"
  shows "\<exists>outs s' t. ds_run place tr s = Some (outs, s') \<and> ds_inv t s' \<and> ds_delay s' = ds_delay s \<and>
    list_all distinct outs \<and>
    (map set outs, map_of (ds_view s')) = dm_run (ds_delay s) tr (map_of (ds_view s))"
  using assms(2,3)
proof (induction tr arbitrary: s t0)
  case (Cons p tr)
  obtain t op where pt: "p = (t, op)" by (cases p)
  with Cons.prems have le: "t0 \<le> t" "sorted (t # map fst tr)" by auto
  obtain out s1 where s1: "ds_exec place p s = Some (out, s1)" "ds_inv t s1" "ds_delay s1 = ds_delay s"
    "distinct out" "(set out, map_of (ds_view s1)) = dm_exec (ds_delay s) p (map_of (ds_view s))"
    using ds_exec_ok [OF Cons.prems(1) le(1) assms(1), of op] pt by blast
  obtain outs s2 t' where s2: "ds_run place tr s1 = Some (outs, s2)" "ds_inv t' s2"
    "ds_delay s2 = ds_delay s1" "list_all distinct outs"
    "(map set outs, map_of (ds_view s2)) = dm_run (ds_delay s1) tr (map_of (ds_view s1))"
    using Cons.IH [OF s1(2) le(2)] by blast
  show ?case
    using s1(1-4) s2(1-4) s1(5) [symmetric] s2(5) [symmetric] by auto
qed auto

section \<open>Properties\<close>

text \<open>
  C14. \<open>FixedDelaySet\<close> is right to look only at its front. For every sequence of operations with
  non-decreasing clock readings, whatever the hash table's bucket order, nothing panics, the entries
  stay sorted by deadline, each \<open>drain_expired\<close> returns without repetition exactly the values whose
  deadline has passed, and the set always holds exactly the values and deadlines of an unordered map
  from values to their last insertion or update plus the delay.
\<close>

theorem delay_set_refines:
  assumes "placement place" and "sorted (map fst tr)"
  shows "\<exists>outs s. ds_run place tr (ds_new delay) = Some (outs, s) \<and> sorted (map snd (ds_view s)) \<and>
    list_all distinct outs \<and> (map set outs, map_of (ds_view s)) = dm_run delay tr Map.empty"
proof -
  obtain t0 where "sorted (t0 # map fst tr)"
    using assms(2) by (cases tr) (auto intro: that [of 0] that)
  from ds_run_ok [OF assms(1) ds_inv_new this, of delay] show ?thesis
    by (auto simp: ds_new_def hm_new_ok ds_inv_def)
qed

theorem delay_set_refines_witness:
  "\<exists>outs s. ds_run (#) [(0, DInsert (1::nat)), (1, DInsert 2), (3, DUpdate 1), (6, DDrain), (9, DDrain)]
      (ds_new 5) = Some (outs, s) \<and> sorted (map snd (ds_view s)) \<and> map set outs = [{}, {}, {}, {2}, {1}]"
proof -
  let ?tr = "[(0::int, DInsert (1::nat)), (1, DInsert 2), (3, DUpdate 1), (6, DDrain), (9, DDrain)]"
  have "placement (#)" "sorted (map fst ?tr)" by (simp_all add: placement_def)
  from delay_set_refines [OF this, of 5] obtain outs s where r: "ds_run (#) ?tr (ds_new 5) = Some (outs, s)"
    "sorted (map snd (ds_view s))" "map set outs = fst (dm_run 5 ?tr Map.empty)" by (metis fst_conv)
  have "fst (dm_run 5 ?tr Map.empty) = [{}, {}, {}, {2}, {1}]"
    by (auto simp: dm_expired_def restrict_map_def split: if_splits)
  with r show ?thesis by metis
qed

end
