(* ===== verification/Timers.thy ===== *)
theory Timers
  imports Delay_Set
begin

text \<open>
  The contract of a set of values with deadlines, as its clients in the download actor use it, and that
  \<open>FixedDelaySet\<close> keeps it. What is due when is a map from values to instants.
\<close>

locale deadline_set =
  fixes ok :: "'p \<Rightarrow> bool" and inv :: "int \<Rightarrow> 's \<Rightarrow> bool" and due :: "'s \<Rightarrow> 'a \<Rightarrow> int option" and delay :: "'s \<Rightarrow> nat"
    and contains :: "'s \<Rightarrow> 'a \<Rightarrow> bool option"
    and put :: "'p \<Rightarrow> 's \<Rightarrow> 'a \<Rightarrow> int \<Rightarrow> (bool \<times> 's) option"
    and put_new :: "'p \<Rightarrow> 's \<Rightarrow> 'a \<Rightarrow> int \<Rightarrow> (bool \<times> 's) option"
    and touch :: "'s \<Rightarrow> 'a \<Rightarrow> int \<Rightarrow> (bool \<times> 's) option"
    and drop_one :: "'s \<Rightarrow> 'a \<Rightarrow> (bool \<times> 's) option"
    and keep_if :: "'s \<Rightarrow> ('a \<Rightarrow> bool) \<Rightarrow> 's option"
    and drain :: "'s \<Rightarrow> int \<Rightarrow> ('a list \<times> 's) option"
    and forget :: "'s \<Rightarrow> int \<Rightarrow> 's option"
  assumes mono: "inv t s \<Longrightarrow> t \<le> t' \<Longrightarrow> inv t' s"
    and due_bound: "inv t s \<Longrightarrow> due s v = Some d \<Longrightarrow> d \<le> t + int (delay s)"
    and contains_iff: "inv t s \<Longrightarrow> contains s v = Some (due s v \<noteq> None)"
    and put_due: "ok p \<Longrightarrow> inv t s \<Longrightarrow>
      \<exists>b s'. put p s v t = Some (b, s') \<and> inv t s' \<and> delay s' = delay s \<and> due s' = (due s)(v \<mapsto> t + int (delay s))"
    and put_new_due: "ok p \<Longrightarrow> inv t s \<Longrightarrow>
      \<exists>s'. put_new p s v t = Some (due s v = None, s') \<and> inv t s' \<and> delay s' = delay s \<and>
        due s' = (if due s v = None then (due s)(v \<mapsto> t + int (delay s)) else due s)"
    and touch_due: "inv t s \<Longrightarrow> \<exists>b s'. touch s v t = Some (b, s') \<and> inv t s' \<and> delay s' = delay s \<and>
        due s' = (if due s v = None then due s else (due s)(v \<mapsto> t + int (delay s)))"
    and drop_due: "inv t s \<Longrightarrow> \<exists>b s'. drop_one s v = Some (b, s') \<and> inv t s' \<and> delay s' = delay s \<and> due s' = (due s)(v := None)"
    and keep_due: "inv t s \<Longrightarrow> \<exists>s'. keep_if s f = Some s' \<and> inv t s' \<and> delay s' = delay s \<and> due s' = due s |` {v. f v}"
    and drain_due: "inv t s \<Longrightarrow> \<exists>vs s'. drain s t = Some (vs, s') \<and> inv t s' \<and> delay s' = delay s \<and> distinct vs \<and>
        set vs = {v. \<exists>d. due s v = Some d \<and> d \<le> t} \<and> due s' = due s |` (- set vs)"
    and forget_due: "inv t s \<Longrightarrow> \<exists>s'. forget s t = Some s' \<and> inv t s' \<and> delay s' = delay s \<and>
        due s' = due s |` (- {v. \<exists>d. due s v = Some d \<and> d \<le> t})"
begin

text \<open>Clients mostly need the values only.\<close>

lemma put_new_fresh:
  assumes "ok p" "inv t s" "v \<notin> dom (due s)"
  obtains s' where "put_new p s v t = Some (True, s')" "inv t s'" "delay s' = delay s" "due s' = (due s)(v \<mapsto> t + int (delay s))"
  using put_new_due [OF assms(1,2), of v] assms(3) by (auto simp: domIff)

lemma put_new_dom:
  assumes "ok p" "inv t s"
  obtains b s' where "put_new p s v t = Some (b, s')" "inv t s'" "delay s' = delay s"
  using put_new_due [OF assms, of v] by auto

lemma drop_dom:
  assumes "inv t s"
  obtains b s' where "drop_one s v = Some (b, s')" "inv t s'" "delay s' = delay s" "dom (due s') = dom (due s) - {v}"
  using drop_due [OF assms, of v] by auto

lemma keep_dom:
  assumes "inv t s"
  obtains s' where "keep_if s f = Some s'" "inv t s'" "delay s' = delay s" "dom (due s') = {v \<in> dom (due s). f v}"
  using keep_due [OF assms, of f] by (auto simp: Int_def)

text \<open>After a drain, everything left is due later, and the drained values are gone.\<close>

lemma drain_dom:
  assumes "inv t s"
  obtains vs s' where "drain s t = Some (vs, s')" "inv t s'" "delay s' = delay s" "distinct vs"
    "set vs \<subseteq> dom (due s)" "dom (due s') = dom (due s) - set vs" "\<forall>v d. due s' v = Some d \<longrightarrow> t < d"
proof -
  obtain vs s' where d: "drain s t = Some (vs, s')" "inv t s'" "delay s' = delay s" "distinct vs"
    "set vs = {v. \<exists>d. due s v = Some d \<and> d \<le> t}" "due s' = due s |` (- set vs)"
    using drain_due [OF assms] by blast
  then have "\<forall>v d. due s' v = Some d \<longrightarrow> t < d" by (auto simp: restrict_map_def not_le split: if_splits)
  moreover have "set vs \<subseteq> dom (due s)" "dom (due s') = dom (due s) - set vs" using d(5,6) by auto
  ultimately show thesis using that d(1-4) by blast
qed

end

abbreviation ds_due :: "'a delay_set \<Rightarrow> 'a \<Rightarrow> int option" where
  "ds_due s \<equiv> map_of (ds_view s)"

lemma ds_retain_ok:
  assumes "ds_inv t s"
  shows "\<exists>s'. ds_retain s f = Some s' \<and> ds_inv t s' \<and> ds_delay s' = ds_delay s \<and> ds_due s' = ds_due s |` {v. f v}"
proof -
  obtain m where m: "hm_retain (ds_set s) (\<lambda>v d. (f v, d)) = Some m" "hm_inv m" "hm_view m = filter (\<lambda>(v, d). f v) (ds_view s)"
    using hm_retain_ok [of "ds_set s" "\<lambda>v d. (f v, d)"] assms
    by (auto simp: ds_inv_def kept_filter [of "\<lambda>v d. f v"])
  moreover have "ds_inv t (s\<lparr>ds_set := m\<rparr>)" using assms m by (auto simp: ds_inv_same ds_inv_def sorted_filter)
  moreover have "map_of (filter (\<lambda>(v, d). f v) xs) = map_of xs |` {v. f v}" for xs
    by (induction xs) (auto simp: restrict_map_def fun_eq_iff)
  ultimately show ?thesis by (simp add: ds_retain_def)
qed

interpretation tm: deadline_set placement ds_inv ds_due ds_delay ds_contains ds_insert_now ds_insert_new ds_update
    ds_remove ds_retain drain_expired clear_expired
proof
  fix place :: place and t t' d :: int and s :: "'a delay_set" and v :: 'a and f :: "'a \<Rightarrow> bool"
  assume i: "ds_inv t s"
  show "t \<le> t' \<Longrightarrow> ds_inv t' s" by (rule ds_inv_mono [OF i])
  show "ds_due s v = Some d \<Longrightarrow> d \<le> t + int (ds_delay s)" using i by (force simp: ds_inv_def dest: map_of_SomeD)
  have "map_of (ds_view s) v = None \<longleftrightarrow> v \<notin> fst ` set (ds_view s)" by (simp add: map_of_eq_None_iff)
  then have none: "(v \<notin> fst ` set (ds_view s)) = (ds_due s v = None)" by simp
  then show "ds_contains s v = Some (ds_due s v \<noteq> None)"
    using i hm_contains_ok [of "ds_set s" v] by (auto simp: ds_contains_def ds_inv_def)
  {
    assume p: "placement place"
    note ex = ds_exec_ok [OF i order_refl p]
    show "\<exists>b s'. ds_insert_now place s v t = Some (b, s') \<and> ds_inv t s' \<and> ds_delay s' = ds_delay s \<and>
        ds_due s' = (ds_due s)(v \<mapsto> t + int (ds_delay s))"
      using ex [of "DInsert v"] by auto
    obtain s' where "ds_insert_new place s v t = Some (v \<notin> fst ` set (ds_view s), s')"
      using ds_insert_new_ok [OF i p, of v] by blast
    then show "\<exists>s'. ds_insert_new place s v t = Some (ds_due s v = None, s') \<and> ds_inv t s' \<and> ds_delay s' = ds_delay s \<and>
        ds_due s' = (if ds_due s v = None then (ds_due s)(v \<mapsto> t + int (ds_delay s)) else ds_due s)"
      using ex [of "DInsertNew v"] none by auto
  }
  have pl: "placement (#)" by (simp add: placement_def)
  note ex = ds_exec_ok [OF i order_refl pl]
  show "\<exists>b s'. ds_update s v t = Some (b, s') \<and> ds_inv t s' \<and> ds_delay s' = ds_delay s \<and>
      ds_due s' = (if ds_due s v = None then ds_due s else (ds_due s)(v \<mapsto> t + int (ds_delay s)))"
    using ex [of "DUpdate v"] by auto
  show "\<exists>b s'. ds_remove s v = Some (b, s') \<and> ds_inv t s' \<and> ds_delay s' = ds_delay s \<and> ds_due s' = (ds_due s)(v := None)"
    using ex [of "DRemove v"] by auto
  show "\<exists>vs s'. drain_expired s t = Some (vs, s') \<and> ds_inv t s' \<and> ds_delay s' = ds_delay s \<and> distinct vs \<and>
      set vs = {v. \<exists>d. ds_due s v = Some d \<and> d \<le> t} \<and> ds_due s' = ds_due s |` (- set vs)"
    using ex [of DDrain] by (auto simp: dm_expired_def)
  show "\<exists>s'. clear_expired s t = Some s' \<and> ds_inv t s' \<and> ds_delay s' = ds_delay s \<and>
      ds_due s' = ds_due s |` (- {v. \<exists>d. ds_due s v = Some d \<and> d \<le> t})"
    using ex [of DClearExpired] by (auto simp: dm_expired_def)
  show "\<exists>s'. ds_retain s f = Some s' \<and> ds_inv t s' \<and> ds_delay s' = ds_delay s \<and> ds_due s' = ds_due s |` {v. f v}"
    by (rule ds_retain_ok [OF i])
qed

end
