(* ===== verification/Download_State.thy ===== *)
theory Download_State
  imports Torrent_Model_Spec Timers
begin

text \<open>
  The download window (\<open>src/rust/bt/txrx/src/download/state.rs\<close>): which peer is asked for which piece,
  which blocks are in flight, and which requests were rejected recently. A \<open>HashSet\<close> of blocks is a finite
  set; subtraction of a counter is checked.
\<close>

section \<open>State\<close>

record 'e peer_state =
  ps_conn_id :: "'e conn_id"
  ps_index :: piece_index
  ps_inflights :: "block_range set"

record 'e download_state =
  dw_window :: "('e \<times> 'e peer_state) list"
  dw_requests :: "((info_hash \<times> piece_index) \<times> (block_range \<times> nat) list) list"
  dw_paused :: "info_hash set"
  dw_cooldowns :: "('e conn_id \<times> block_range) delay_set"

type_synonym 'e schedule = "(info_hash \<times> piece_index \<times> 'e conn_pair list) list"

definition WINDOW_SIZE :: nat where
  "WINDOW_SIZE = 16"

definition FANOUT :: nat where
  "FANOUT = 1"

definition INFLIGHT_QUEUE_SIZE :: nat where
  "INFLIGHT_QUEUE_SIZE = 4"

definition REDUNDANCY :: nat where
  "REDUNDANCY = 1"

definition BLOCK_SIZE :: nat where
  "BLOCK_SIZE = 16384"

definition secs :: "nat \<Rightarrow> nat" where
  "secs n = n * 1000000000"

definition REJECT_COOLDOWN :: nat where
  "REJECT_COOLDOWN = secs 32"

definition dw_new :: "'e download_state" where
  "dw_new = \<lparr>dw_window = [], dw_requests = [], dw_paused = {}, dw_cooldowns = ds_new REJECT_COOLDOWN\<rparr>"

definition dw_pause :: "'e download_state \<Rightarrow> info_hash \<Rightarrow> bool \<times> 'e download_state" where
  "dw_pause s h = (h \<notin> dw_paused s, s\<lparr>dw_paused := insert h (dw_paused s)\<rparr>)"

definition dw_resume :: "'e download_state \<Rightarrow> info_hash \<Rightarrow> bool \<times> 'e download_state" where
  "dw_resume s h = (h \<in> dw_paused s, s\<lparr>dw_paused := dw_paused s - {h}\<rparr>)"

section \<open>Timers\<close>

text \<open>The extension trait of \<open>time.rs\<close>, for sets of requests and sets of connections.\<close>

definition timers_remove_peer :: "('e conn_id \<times> block_range) delay_set \<Rightarrow> 'e conn_id \<Rightarrow> ('e conn_id \<times> block_range) delay_set option" where
  "timers_remove_peer s c = ds_retain s (\<lambda>(d, _). \<not> d = c)"

definition timers_remove_torrent :: "('e conn_id \<times> block_range) delay_set \<Rightarrow> info_hash \<Rightarrow> ('e conn_id \<times> block_range) delay_set option" where
  "timers_remove_torrent s h = ds_retain s (\<lambda>(c, _). \<not> ci_info_hash c = h)"

definition conns_remove_peer :: "'e conn_id delay_set \<Rightarrow> 'e conn_id \<Rightarrow> 'e conn_id delay_set option" where
  "conns_remove_peer s c = map_option snd (ds_remove s c)"

definition conns_remove_torrent :: "'e conn_id delay_set \<Rightarrow> info_hash \<Rightarrow> 'e conn_id delay_set option" where
  "conns_remove_torrent s h = ds_retain s (\<lambda>c. \<not> ci_info_hash c = h)"

section \<open>Assignment\<close>

definition piece_key :: "'e peer_state \<Rightarrow> info_hash \<times> piece_index" where
  "piece_key p = (ci_info_hash (ps_conn_id p), ps_index p)"

text \<open>\<open>num_assigned_map\<close>.\<close>

fun num_assigned_of :: "('e \<times> 'e peer_state) list \<Rightarrow> ((info_hash \<times> piece_index) \<times> nat) list" where
  "num_assigned_of [] = []"
| "num_assigned_of ((_, p) # window) =
     (let counts = num_assigned_of window in
      AList.update (piece_key p) (Suc (case map_of counts (piece_key p) of None \<Rightarrow> 0 | Some n \<Rightarrow> n)) counts)"

text \<open>\<open>requests.entry(..).or_insert_with(..)\<close>: the blocks of the piece, collected into a \<open>BTreeMap\<close>.\<close>

definition requests_entry ::
    "layout \<Rightarrow> info_hash \<times> piece_index \<Rightarrow> ((info_hash \<times> piece_index) \<times> (block_range \<times> nat) list) list \<Rightarrow>
     ((info_hash \<times> piece_index) \<times> (block_range \<times> nat) list) list option" where
  "requests_entry l k reqs =
     (case map_of reqs k of
        Some _ \<Rightarrow> Some reqs
      | None \<Rightarrow> do {
          blocks \<leftarrow> layout_blocks l (snd k) BLOCK_SIZE;
          Some (AList.update k (foldl (\<lambda>m r. bt_insert r 0 m) [] blocks) reqs)
        })"

text \<open>The inner loop over the candidates of one scheduled piece.\<close>

fun assign_candidates ::
    "'e model \<Rightarrow> 'e torrent \<Rightarrow> info_hash \<Rightarrow> piece_index \<Rightarrow> 'e conn_pair list \<Rightarrow> nat \<Rightarrow> 'e download_state \<Rightarrow>
     (nat \<times> 'e conn_id list \<times> 'e download_state) option" where
  "assign_candidates m t h i [] num s = Some (num, [], s)"
| "assign_candidates m t h i (candidate # cs) num s =
     (if map_of (dw_window s) (snd candidate) \<noteq> None then assign_candidates m t h i cs num s
      else do {
        has \<leftarrow> (case map_of (tr_peer_pieces t) candidate of None \<Rightarrow> Some False | Some pieces \<Rightarrow> rs_index pieces i);
        let c = conn_id_of h candidate;
        if \<not> has \<or> (case conn_get m c of None \<Rightarrow> True | Some st \<Rightarrow> peer_choking (cs_flags st) \<or> snubbing (cs_flags st))
        then assign_candidates m t h i cs num s
        else do {
          let window = AList.update (snd candidate) \<lparr>ps_conn_id = c, ps_index = i, ps_inflights = {}\<rparr> (dw_window s);
          rs_assert (map_of (dw_window s) (snd candidate) = None);
          reqs \<leftarrow> requests_entry (tr_layout t) (h, i) (dw_requests s);
          let s = s\<lparr>dw_window := window, dw_requests := reqs\<rparr>;
          if Suc num \<ge> FANOUT then Some (Suc num, [c], s)
          else do {
            (num, assigned, s) \<leftarrow> assign_candidates m t h i cs (Suc num) s;
            Some (num, c # assigned, s)
          }
        }
      })"

fun assign_loop ::
    "'e model \<Rightarrow> 'e schedule \<Rightarrow> ((info_hash \<times> piece_index) \<times> nat) list \<Rightarrow> 'e download_state \<Rightarrow>
     ('e conn_id list \<times> 'e download_state) option" where
  "assign_loop m [] counts s = Some ([], s)"
| "assign_loop m ((h, i, conn_pairs) # schedule) counts s =
     (if \<not> length (dw_window s) < WINDOW_SIZE then Some ([], s)
      else
        (case map_of (md_torrents m) h of
           None \<Rightarrow> assign_loop m schedule counts s
         | Some t \<Rightarrow> do {
             have_piece \<leftarrow> rs_index (tr_self_pieces t) i;
             if have_piece \<or> h \<in> dw_paused s then assign_loop m schedule counts s
             else do {
               let num = (case map_of counts (h, i) of None \<Rightarrow> 0 | Some n \<Rightarrow> n);
               if num \<ge> FANOUT then assign_loop m schedule (AList.update (h, i) num counts) s
               else do {
                 (num, new, s) \<leftarrow> assign_candidates m t h i conn_pairs num s;
                 (assigned, s) \<leftarrow> assign_loop m schedule (AList.update (h, i) num counts) s;
                 Some (new @ assigned, s)
               }
             }
           }))"

definition dw_assign :: "'e download_state \<Rightarrow> 'e model \<Rightarrow> 'e schedule \<Rightarrow> ('e conn_id list \<times> 'e download_state) option" where
  "dw_assign s m schedule = assign_loop m (take (WINDOW_SIZE * 2) schedule) (num_assigned_of (dw_window s)) s"

definition is_assigned :: "'e download_state \<Rightarrow> 'e conn_id \<Rightarrow> bool" where
  "is_assigned s c \<longleftrightarrow> (case map_of (dw_window s) (peer_endpoint c) of None \<Rightarrow> False | Some p \<Rightarrow> ps_conn_id p = c)"

section \<open>Requests\<close>

text \<open>The loop over the piece's blocks: what it queues, the blocks then in flight, and the counters.\<close>

fun queue_loop ::
    "('e conn_id \<times> block_range) delay_set \<Rightarrow> 'e conn_id \<Rightarrow> (block_range \<times> nat) list \<Rightarrow> block_range set \<Rightarrow>
     (block_range list \<times> block_range set \<times> (block_range \<times> nat) list) option" where
  "queue_loop cooldowns c [] inflights = Some ([], inflights, [])"
| "queue_loop cooldowns c ((b, n) # reqs) inflights =
     (if \<not> card inflights < INFLIGHT_QUEUE_SIZE then Some ([], inflights, (b, n) # reqs)
      else do {
        cooling \<leftarrow> ds_contains cooldowns (c, b);
        if n \<ge> REDUNDANCY \<or> cooling \<or> b \<in> inflights
        then do {
          (pending, inflights, reqs) \<leftarrow> queue_loop cooldowns c reqs inflights;
          Some (pending, inflights, (b, n) # reqs)
        }
        else do {
          (pending, inflights, reqs) \<leftarrow> queue_loop cooldowns c reqs (insert b inflights);
          Some (b # pending, inflights, (b, Suc n) # reqs)
        }
      })"

text \<open>Pushing to \<open>pending\<close>, an \<open>Array\<close> of four, would panic on a fifth block.\<close>

definition queue_requests ::
    "'e download_state \<Rightarrow> 'e conn_id \<Rightarrow> int \<Rightarrow> (block_range list option \<times> 'e download_state) option" where
  "queue_requests s c now =
     (case map_of (dw_window s) (peer_endpoint c) of
        None \<Rightarrow> Some (None, s)
      | Some p \<Rightarrow>
          if ps_conn_id p \<noteq> c then Some (None, s)
          else do {
            reqs \<leftarrow> map_of (dw_requests s) (piece_key p);
            cooldowns \<leftarrow> clear_expired (dw_cooldowns s) now;
            (pending, inflights, reqs) \<leftarrow> queue_loop cooldowns c reqs (ps_inflights p);
            rs_assert (length pending \<le> INFLIGHT_QUEUE_SIZE);
            Some (Some pending, s\<lparr>
              dw_window := AList.update (peer_endpoint c) (p\<lparr>ps_inflights := inflights\<rparr>) (dw_window s),
              dw_requests := AList.update (piece_key p) reqs (dw_requests s),
              dw_cooldowns := cooldowns\<rparr>)
          })"

definition cancel_others ::
    "info_hash \<Rightarrow> block_range \<Rightarrow> ('e \<times> 'e peer_state) list \<Rightarrow> 'e conn_id list \<times> ('e \<times> 'e peer_state) list" where
  "cancel_others h blk window =
     (let hit = (\<lambda>p. ci_info_hash (ps_conn_id p) = h \<and> blk \<in> ps_inflights p) in
      (map (\<lambda>(_, p). ps_conn_id p) (filter (\<lambda>(_, p). hit p) window),
       map (\<lambda>(e, p). (e, if hit p then p\<lparr>ps_inflights := ps_inflights p - {blk}\<rparr> else p)) window))"

definition dw_recv ::
    "'e download_state \<Rightarrow> 'e conn_id \<Rightarrow> block_range \<Rightarrow> ((bool \<times> 'e conn_id list) option \<times> 'e download_state) option" where
  "dw_recv s c blk =
     (case map_of (dw_window s) (peer_endpoint c) of
        None \<Rightarrow> Some (None, s)
      | Some p \<Rightarrow>
          if ps_conn_id p \<noteq> c \<or> blk \<notin> ps_inflights p then Some (None, s)
          else do {
            let window = AList.update (peer_endpoint c) (p\<lparr>ps_inflights := ps_inflights p - {blk}\<rparr>) (dw_window s);
            reqs \<leftarrow> map_of (dw_requests s) (piece_key p);
            num_inflights \<leftarrow> map_of reqs blk;
            let reqs = AList.delete blk reqs;
            let (cancels, window) = cancel_others (ci_info_hash c) blk window;
            rs_assert (length cancels + 1 = num_inflights);
            Some (Some (reqs = [], cancels),
              s\<lparr>dw_window := window, dw_requests := AList.update (piece_key p) reqs (dw_requests s)\<rparr>)
          })"

text \<open>Decrementing the counter of every block of a set; each has to be there and positive.\<close>

definition dequeue :: "block_range set \<Rightarrow> (block_range \<times> nat) list \<Rightarrow> (block_range \<times> nat) list option" where
  "dequeue blocks reqs = do {
     rs_assert (\<forall>b \<in> blocks. case map_of reqs b of None \<Rightarrow> False | Some n \<Rightarrow> 0 < n);
     Some (map (\<lambda>(b, n). (b, if b \<in> blocks then n - 1 else n)) reqs)
   }"

definition dw_reject ::
    "place \<Rightarrow> 'e download_state \<Rightarrow> 'e conn_id \<Rightarrow> block_range \<Rightarrow> int \<Rightarrow> (bool \<times> 'e download_state) option" where
  "dw_reject place s c blk now =
     (case map_of (dw_window s) (peer_endpoint c) of
        None \<Rightarrow> Some (False, s)
      | Some p \<Rightarrow>
          if ps_conn_id p \<noteq> c \<or> blk \<notin> ps_inflights p then Some (False, s)
          else do {
            reqs \<leftarrow> map_of (dw_requests s) (piece_key p);
            reqs \<leftarrow> dequeue {blk} reqs;
            (_, cooldowns) \<leftarrow> ds_insert_now place (dw_cooldowns s) (c, blk) now;
            Some (True, s\<lparr>
              dw_window := AList.update (peer_endpoint c) (p\<lparr>ps_inflights := ps_inflights p - {blk}\<rparr>) (dw_window s),
              dw_requests := AList.update (piece_key p) reqs (dw_requests s),
              dw_cooldowns := cooldowns\<rparr>)
          })"

definition dw_remove_peer :: "'e download_state \<Rightarrow> 'e conn_id \<Rightarrow> (bool \<times> 'e download_state) option" where
  "dw_remove_peer s c =
     (case map_of (dw_window s) (peer_endpoint c) of
        None \<Rightarrow> Some (False, s)
      | Some p \<Rightarrow>
          if ps_conn_id p \<noteq> c then Some (False, s)
          else do {
            reqs \<leftarrow> map_of (dw_requests s) (piece_key p);
            reqs \<leftarrow> dequeue (ps_inflights p) reqs;
            cooldowns \<leftarrow> timers_remove_peer (dw_cooldowns s) c;
            Some (True, s\<lparr>
              dw_window := AList.delete (peer_endpoint c) (dw_window s),
              dw_requests := AList.update (piece_key p) reqs (dw_requests s),
              dw_cooldowns := cooldowns\<rparr>)
          })"

definition dw_remove_piece :: "'e download_state \<Rightarrow> info_hash \<Rightarrow> piece_index \<Rightarrow> 'e download_state option" where
  "dw_remove_piece s h i = do {
     rs_assert (map_of (dw_requests s) (h, i) \<noteq> None);
     Some (s\<lparr>
       dw_window := filter (\<lambda>(_, p). ci_info_hash (ps_conn_id p) \<noteq> h \<or> ps_index p \<noteq> i) (dw_window s),
       dw_requests := AList.delete (h, i) (dw_requests s)\<rparr>)
   }"

definition dw_remove_torrent :: "'e download_state \<Rightarrow> info_hash \<Rightarrow> 'e download_state option" where
  "dw_remove_torrent s h = do {
     cooldowns \<leftarrow> timers_remove_torrent (dw_cooldowns s) h;
     Some (s\<lparr>
       dw_window := filter (\<lambda>(_, p). ci_info_hash (ps_conn_id p) \<noteq> h) (dw_window s),
       dw_requests := filter (\<lambda>((h', _), _). h' \<noteq> h) (dw_requests s),
       dw_paused := dw_paused s - {h},
       dw_cooldowns := cooldowns\<rparr>)
   }"

end
