(* ===== verification/Download_Spec.thy ===== *)
theory Download_Spec
  imports Download_State
begin

text \<open>
  The invariant of the download window and how every operation changes the set of outstanding requests.
  The window and the request queues enter the invariant as maps.
\<close>

declare split_paired_All [simp del] split_paired_Ex [simp del]

section \<open>Invariant\<close>

type_synonym 'e window_map = "'e \<Rightarrow> 'e peer_state option"
type_synonym queues_map = "info_hash \<times> piece_index \<Rightarrow> (block_range \<times> nat) list option"

definition busy :: "'e window_map \<Rightarrow> info_hash \<times> piece_index \<Rightarrow> block_range \<Rightarrow> bool" where
  "busy w k b \<longleftrightarrow> (\<exists>e p. w e = Some p \<and> piece_key p = k \<and> b \<in> ps_inflights p)"

definition entry_ok :: "queues_map \<Rightarrow> 'e \<Rightarrow> 'e peer_state \<Rightarrow> bool" where
  "entry_ok rq e p \<longleftrightarrow> peer_endpoint (ps_conn_id p) = e \<and> finite (ps_inflights p) \<and> card (ps_inflights p) \<le> INFLIGHT_QUEUE_SIZE \<and>
     (\<exists>rs. rq (piece_key p) = Some rs \<and> ps_inflights p \<subseteq> dom (map_of rs))"

definition queue_ok :: "(info_hash \<Rightarrow> layout) \<Rightarrow> 'e window_map \<Rightarrow> info_hash \<times> piece_index \<Rightarrow> (block_range \<times> nat) list \<Rightarrow> bool" where
  "queue_ok lay w k rs \<longleftrightarrow> snd k < lnum_pieces (lay (fst k)) \<and> distinct (map fst rs) \<and>
     (\<forall>b n. map_of rs b = Some n \<longrightarrow> br_index b = snd k \<and> n = of_bool (busy w k b))"

definition window_ok :: "(info_hash \<Rightarrow> layout) \<Rightarrow> 'e window_map \<Rightarrow> queues_map \<Rightarrow> bool" where
  "window_ok lay w rq \<longleftrightarrow>
     (\<forall>e p. w e = Some p \<longrightarrow> entry_ok rq e p) \<and>
     (\<forall>e p e' p'. w e = Some p \<longrightarrow> w e' = Some p' \<longrightarrow> piece_key p = piece_key p' \<longrightarrow> e = e') \<and>
     (\<forall>k rs. rq k = Some rs \<longrightarrow> queue_ok lay w k rs)"

definition dw_ok :: "(info_hash \<Rightarrow> layout) \<Rightarrow> int \<Rightarrow> 'e download_state \<Rightarrow> bool" where
  "dw_ok lay t s \<longleftrightarrow>
     distinct (map fst (dw_window s)) \<and> length (dw_window s) \<le> WINDOW_SIZE \<and> ds_inv t (dw_cooldowns s) \<and>
     window_ok lay (map_of (dw_window s)) (map_of (dw_requests s))"

text \<open>The requests sent to peers and not yet answered, rejected or dropped.\<close>

definition outstanding :: "'e window_map \<Rightarrow> ('e conn_id \<times> block_range) set" where
  "outstanding w = {(c, b). \<exists>p. w (peer_endpoint c) = Some p \<and> ps_conn_id p = c \<and> b \<in> ps_inflights p}"

lemma window_okD:
  assumes "window_ok lay w rq"
  shows "w e = Some p \<Longrightarrow> entry_ok rq e p"
    and "w e = Some p \<Longrightarrow> w e' = Some p' \<Longrightarrow> piece_key p = piece_key p' \<Longrightarrow> e = e'"
    and "rq k = Some rs \<Longrightarrow> queue_ok lay w k rs"
  using assms unfolding window_ok_def by blast+

lemma window_okI:
  assumes "\<And>e p. w e = Some p \<Longrightarrow> entry_ok rq e p"
    and "\<And>e p e' p'. w e = Some p \<Longrightarrow> w e' = Some p' \<Longrightarrow> piece_key p = piece_key p' \<Longrightarrow> e = e'"
    and "\<And>k rs. rq k = Some rs \<Longrightarrow> queue_ok lay w k rs"
  shows "window_ok lay w rq"
  using assms unfolding window_ok_def by blast

lemma busy_holder:
  assumes "window_ok lay w rq" "w e = Some p"
  shows "busy w (piece_key p) b \<longleftrightarrow> b \<in> ps_inflights p"
proof -
  have "p' = p" if "w e' = Some p'" "piece_key p' = piece_key p" for e' p'
    using window_okD(2) [OF assms(1) that(1) assms(2) that(2)] that(1) assms(2) by simp
  with assms(2) show ?thesis unfolding busy_def by blast
qed

lemma queue_of:
  assumes "window_ok lay w rq" "w e = Some p"
  obtains rs where "rq (piece_key p) = Some rs" "ps_inflights p \<subseteq> dom (map_of rs)" "distinct (map fst rs)"
    "snd (piece_key p) < lnum_pieces (lay (fst (piece_key p)))"
    "\<And>b n. map_of rs b = Some n \<Longrightarrow> br_index b = ps_index p \<and> n = of_bool (b \<in> ps_inflights p)"
proof -
  obtain rs where rs: "rq (piece_key p) = Some rs" "ps_inflights p \<subseteq> dom (map_of rs)"
    using window_okD(1) [OF assms] by (auto simp: entry_ok_def)
  note q = window_okD(3) [OF assms(1) rs(1)]
  show thesis
    by (rule that [OF rs]) (use q busy_holder [OF assms] in \<open>auto simp: queue_ok_def piece_key_def [of p]\<close>)
qed

text \<open>
  A peer's blocks in flight change together with the queue of its piece.
\<close>

lemma window_ok_update:
  assumes w: "window_ok lay w rq" "w e = Some p"
    and i: "finite I" "card I \<le> INFLIGHT_QUEUE_SIZE" "I \<subseteq> dom (map_of rs)"
    and rs: "distinct (map fst rs)" "\<And>b n. map_of rs b = Some n \<Longrightarrow> br_index b = ps_index p \<and> n = of_bool (b \<in> I)"
  shows "window_ok lay (w(e \<mapsto> p\<lparr>ps_inflights := I\<rparr>)) (rq(piece_key p \<mapsto> rs))"
proof -
  let ?w = "w(e \<mapsto> p\<lparr>ps_inflights := I\<rparr>)" and ?rq = "rq(piece_key p \<mapsto> rs)"
  have key: "piece_key (p\<lparr>ps_inflights := J\<rparr>) = piece_key p" for J by (simp add: piece_key_def)
  have other: "piece_key p' \<noteq> piece_key p" if "w e' = Some p'" "e' \<noteq> e" for e' p'
    using window_okD(2) [OF w(1) that(1) w(2)] that(2) by blast
  have entry: "entry_ok ?rq e' p'" if "?w e' = Some p'" for e' p'
  proof (cases "e' = e")
    case True
    with that window_okD(1) [OF w] i show ?thesis by (auto simp: entry_ok_def key)
  next
    case False
    with that window_okD(1) [OF w(1), of e' p'] other [of e' p'] show ?thesis by (auto simp: entry_ok_def)
  qed
  have busy: "busy ?w k b \<longleftrightarrow> (if k = piece_key p then b \<in> I else busy w k b)" for k b
  proof (cases "k = piece_key p")
    case True
    with other show ?thesis unfolding busy_def by (auto simp: key split: if_splits)
  next
    case False
    then have "?w e' = Some p' \<and> piece_key p' = k \<longleftrightarrow> w e' = Some p' \<and> piece_key p' = k" for e' p'
      using w(2) by (auto simp: key)
    with False show ?thesis unfolding busy_def by (simp flip: conj_assoc)
  qed
  have queue: "queue_ok lay ?w k qs" if "?rq k = Some qs" for k qs
  proof (cases "k = piece_key p")
    case True
    obtain rs0 where "rq (piece_key p) = Some rs0" "snd (piece_key p) < lnum_pieces (lay (fst (piece_key p)))"
      by (rule queue_of [OF w])
    with True that rs show ?thesis by (auto simp: queue_ok_def busy piece_key_def [of p])
  next
    case False
    with that window_okD(3) [OF w(1), of k qs] show ?thesis by (auto simp: queue_ok_def busy)
  qed
  have "e1 = e2" if "?w e1 = Some p1" "?w e2 = Some p2" "piece_key p1 = piece_key p2" for e1 p1 e2 p2
    using that other [of e1 p1] other [of e2 p2] window_okD(2) [OF w(1), of e1 p1 e2 p2]
    by (auto simp: key split: if_splits)
  from window_okI [OF entry this queue] show ?thesis .
qed

lemma outstanding_update:
  assumes "w e = Some p" "peer_endpoint (ps_conn_id p) = e"
  shows "outstanding (w(e \<mapsto> p\<lparr>ps_inflights := I\<rparr>)) = outstanding w - {ps_conn_id p} \<times> UNIV \<union> {ps_conn_id p} \<times> I"
proof -
  have "(c, b) \<in> outstanding (w(e \<mapsto> p\<lparr>ps_inflights := I\<rparr>)) \<longleftrightarrow>
      (if c = ps_conn_id p then b \<in> I else (c, b) \<in> outstanding w)" for c b
    using assms(1) by (simp add: outstanding_def assms(2) eq_commute [of "ps_conn_id p"])
  then show ?thesis by (simp add: set_eq_iff split_paired_All)
qed

lemma outstanding_of:
  assumes "w e = Some p" "peer_endpoint (ps_conn_id p) = e"
  shows "(ps_conn_id p, b) \<in> outstanding w \<longleftrightarrow> b \<in> ps_inflights p"
  using assms by (auto simp: outstanding_def)

text \<open>Removing a peer frees its blocks.\<close>

lemma window_ok_remove:
  assumes w: "window_ok lay w rq" "w e = Some p"
    and rs: "distinct (map fst rs)" "\<And>b n. map_of rs b = Some n \<Longrightarrow> br_index b = ps_index p \<and> n = 0"
  shows "window_ok lay (w(e := None)) (rq(piece_key p \<mapsto> rs))"
proof -
  let ?w = "w(e := None)" and ?rq = "rq(piece_key p \<mapsto> rs)"
  have other: "piece_key p' \<noteq> piece_key p" if "w e' = Some p'" "e' \<noteq> e" for e' p'
    using window_okD(2) [OF w(1) that(1) w(2)] that(2) by blast
  have entry: "entry_ok ?rq e' p'" if "?w e' = Some p'" for e' p'
    using that other [of e' p'] window_okD(1) [OF w(1), of e' p'] by (auto simp: entry_ok_def split: if_splits)
  have busy: "busy ?w k b \<longleftrightarrow> k \<noteq> piece_key p \<and> busy w k b" for k b
  proof -
    have eq: "?w e' = Some p' \<longleftrightarrow> w e' = Some p' \<and> piece_key p' \<noteq> piece_key p" for e' p'
      using other [of e' p'] w(2) by auto
    show ?thesis unfolding busy_def eq by blast
  qed
  have queue: "queue_ok lay ?w k qs" if "?rq k = Some qs" for k qs
  proof (cases "k = piece_key p")
    case True
    obtain rs0 where "rq (piece_key p) = Some rs0" "snd (piece_key p) < lnum_pieces (lay (fst (piece_key p)))"
      by (rule queue_of [OF w])
    with True that rs show ?thesis by (auto simp: queue_ok_def busy piece_key_def [of p])
  next
    case False
    with that window_okD(3) [OF w(1), of k qs] show ?thesis by (auto simp: queue_ok_def busy)
  qed
  have "e1 = e2" if "?w e1 = Some p1" "?w e2 = Some p2" "piece_key p1 = piece_key p2" for e1 p1 e2 p2
    using that window_okD(2) [OF w(1)] by (auto split: if_splits)
  from window_okI [OF entry this queue] show ?thesis .
qed

text \<open>Dropping whole pieces with everybody who loads them.\<close>

lemma window_ok_filter:
  assumes w: "window_ok lay w rq"
    and w': "\<And>e p. w' e = Some p \<longleftrightarrow> w e = Some p \<and> K (piece_key p)"
    and rq': "\<And>k. rq' k = (if K k then rq k else None)"
  shows "window_ok lay w' rq'"
proof -
  have busy: "busy w' k = busy w k" if "K k" for k using that unfolding busy_def fun_eq_iff w' by blast
  have queue: "queue_ok lay w' k qs" if "rq' k = Some qs" for k qs
  proof -
    have k: "K k" "rq k = Some qs" using that by (simp_all add: rq' split: if_splits)
    from window_okD(3) [OF w k(2)] show ?thesis unfolding queue_ok_def busy [OF k(1)] .
  qed
  have entry: "entry_ok rq' e p" if "w' e = Some p" for e p
    using that window_okD(1) [OF w, of e p] unfolding w' by (auto simp: entry_ok_def rq')
  show ?thesis by (rule window_okI [OF entry _ queue]) (auto simp: w' dest: window_okD(2) [OF w])
qed

section \<open>Operations\<close>

lemma dw_ok_new: "dw_ok lay t dw_new"
  by (simp add: dw_ok_def dw_new_def window_ok_def ds_inv_new)

lemma dw_ok_mono: "dw_ok lay t s \<Longrightarrow> t \<le> t' \<Longrightarrow> dw_ok lay t' s"
  by (auto simp: dw_ok_def tm.mono)

lemma distinct_update [simp]: "distinct (map fst xs) \<Longrightarrow> distinct (map fst (AList.update k v xs))"
  by (rule AList.distinct_update)

lemma length_update: "map_of xs k = Some v \<Longrightarrow> length (AList.update k w xs) = length xs"
  by (induction xs) (auto split: if_splits)

lemma length_update_le: "length (AList.update k v xs) \<le> Suc (length xs)"
  by (induction xs) auto

lemma length_delete: "length (AList.delete k xs) \<le> length xs"
  by (simp add: AList.delete_eq)

text \<open>The window entry that a call on a connection finds.\<close>

lemma dw_okD:
  assumes "dw_ok lay t s"
  shows "distinct (map fst (dw_window s))" "length (dw_window s) \<le> WINDOW_SIZE" "ds_inv t (dw_cooldowns s)"
    and "window_ok lay (map_of (dw_window s)) (map_of (dw_requests s))"
  using assms by (simp_all add: dw_ok_def)

lemma entry_okD:
  assumes "dw_ok lay t s" "map_of (dw_window s) e = Some p"
  shows "peer_endpoint (ps_conn_id p) = e" "finite (ps_inflights p)" "card (ps_inflights p) \<le> INFLIGHT_QUEUE_SIZE"
  using window_okD(1) [OF dw_okD(4) [OF assms(1)] assms(2)] by (auto simp: entry_ok_def)

text \<open>A change of one entry's blocks with the queue of its piece.\<close>

lemma dw_ok_entry:
  assumes s: "dw_ok lay t s" "map_of (dw_window s) e = Some p" and t: "ds_inv t cd"
    and i: "finite I" "card I \<le> INFLIGHT_QUEUE_SIZE" "I \<subseteq> dom (map_of rs)"
    and rs: "distinct (map fst rs)" "\<And>b n. map_of rs b = Some n \<Longrightarrow> br_index b = ps_index p \<and> n = of_bool (b \<in> I)"
  shows "dw_ok lay t (s\<lparr>dw_window := AList.update e (p\<lparr>ps_inflights := I\<rparr>) (dw_window s),
      dw_requests := AList.update (piece_key p) rs (dw_requests s), dw_cooldowns := cd\<rparr>)"
  using dw_okD [OF s(1)] t length_update [OF s(2)] window_ok_update [OF dw_okD(4) [OF s(1)] s(2) i rs]
  by (simp add: dw_ok_def model_simps)

definition counts_are :: "(block_range \<times> nat) list \<Rightarrow> block_range set \<Rightarrow> bool" where
  "counts_are rs I \<longleftrightarrow> list_all (\<lambda>(b, n). n = of_bool (b \<in> I)) rs"

lemma counts_are_map_of: "counts_are rs I \<Longrightarrow> map_of rs b = Some n \<Longrightarrow> n = of_bool (b \<in> I)"
  by (drule map_of_SomeD) (fastforce simp: counts_are_def list_all_iff)

lemma counts_areI:
  assumes "distinct (map fst rs)" "\<And>b n. map_of rs b = Some n \<Longrightarrow> n = of_bool (b \<in> I)"
  shows "counts_are rs I"
  using assms by (auto simp: counts_are_def list_all_iff)

lemma counts_are_insert: "b \<notin> fst ` set rs \<Longrightarrow> counts_are rs (insert b I) = counts_are rs I"
  by (induction rs) (auto simp: counts_are_def)

lemma counts_are_Cons: "counts_are ((b, n) # rs) I \<longleftrightarrow> n = of_bool (b \<in> I) \<and> counts_are rs I"
  by (simp add: counts_are_def)

lemma queue_loop_ok:
  assumes "ds_inv t cd" "distinct (map fst rs)" "finite I" "card I \<le> INFLIGHT_QUEUE_SIZE" "counts_are rs I"
  shows "\<exists>pending rs'. queue_loop cd c rs I = Some (pending, I \<union> set pending, rs') \<and> distinct pending \<and>
    set pending \<inter> I = {} \<and> set pending \<subseteq> fst ` set rs \<and> card I + length pending \<le> INFLIGHT_QUEUE_SIZE \<and>
    map fst rs' = map fst rs \<and> counts_are rs' (I \<union> set pending)"
  using assms(2-)
proof (induction rs arbitrary: I)
  case (Cons r rs)
  obtain b n where r: "r = (b, n)" by (cases r)
  have b: "b \<notin> fst ` set rs" "distinct (map fst rs)" "n = of_bool (b \<in> I)" "counts_are rs I"
    using Cons.prems r by (auto simp: counts_are_Cons)
  show ?case
  proof (cases "card I < INFLIGHT_QUEUE_SIZE")
    case False
    with Cons.prems r show ?thesis by auto
  next
    case full: True
    obtain cool where cool: "ds_contains cd (c, b) = Some cool" using tm.contains_iff [OF assms(1)] by blast
    show ?thesis
    proof (cases "n \<ge> REDUNDANCY \<or> cool \<or> b \<in> I")
      case True
      obtain pending rs' where q: "queue_loop cd c rs I = Some (pending, I \<union> set pending, rs')" "distinct pending"
        "set pending \<inter> I = {}" "set pending \<subseteq> fst ` set rs" "card I + length pending \<le> INFLIGHT_QUEUE_SIZE"
        "map fst rs' = map fst rs" "counts_are rs' (I \<union> set pending)"
        using Cons.IH [OF b(2) Cons.prems(2,3) b(4)] by blast
      moreover have "queue_loop cd c (r # rs) I = Some (pending, I \<union> set pending, r # rs')"
        using True full cool q(1) r by (simp del: One_nat_def)
      moreover have "counts_are (r # rs') (I \<union> set pending)" using q(4,7) b(1,3) r by (auto simp: counts_are_Cons)
      ultimately show ?thesis using r by auto
    next
      case False
      have new: "b \<notin> I" "n = 0" using False b(3) by simp_all
      have c: "card (insert b I) = Suc (card I)" using new(1) Cons.prems(2) by simp
      obtain pending rs' where q: "queue_loop cd c rs (insert b I) = Some (pending, insert b I \<union> set pending, rs')"
        "distinct pending" "set pending \<inter> insert b I = {}" "set pending \<subseteq> fst ` set rs"
        "card (insert b I) + length pending \<le> INFLIGHT_QUEUE_SIZE" "map fst rs' = map fst rs"
        "counts_are rs' (insert b I \<union> set pending)"
        using Cons.IH [OF b(2), of "insert b I"] Cons.prems(2) full c b(4) counts_are_insert [OF b(1)] by auto
      have "queue_loop cd c (r # rs) I = Some (b # pending, I \<union> set (b # pending), (b, Suc n) # rs')"
        using False full cool q(1) r by (simp del: One_nat_def)
      moreover have "counts_are ((b, Suc n) # rs') (I \<union> set (b # pending))" using q(7) new(2) by (simp add: counts_are_Cons)
      ultimately show ?thesis using q(2-6) new(1) c r by auto
    qed
  qed
qed (simp add: counts_are_def)

abbreviation sent :: "'e download_state \<Rightarrow> ('e conn_id \<times> block_range) set" where
  "sent s \<equiv> outstanding (map_of (dw_window s))"

lemma sent_update:
  assumes "dw_ok lay t s" "map_of (dw_window s) e = Some p"
  shows "outstanding (map_of (AList.update e (p\<lparr>ps_inflights := I\<rparr>) (dw_window s))) =
    sent s - {ps_conn_id p} \<times> UNIV \<union> {ps_conn_id p} \<times> I"
  using outstanding_update [where w = "map_of (dw_window s)", OF assms(2) entry_okD(1) [OF assms], of I]
  by (simp add: model_simps)

lemma sent_of:
  assumes "dw_ok lay t s" "map_of (dw_window s) e = Some p"
  shows "(ps_conn_id p, b) \<in> sent s \<longleftrightarrow> b \<in> ps_inflights p"
  by (rule outstanding_of [where w = "map_of (dw_window s)", OF assms(2) entry_okD(1) [OF assms]])

text \<open>The entry of an assigned connection and the queue of its piece.\<close>

lemma assigned_entry:
  assumes "dw_ok lay t s" "is_assigned s c"
  obtains p rs where "map_of (dw_window s) (peer_endpoint c) = Some p" "ps_conn_id p = c"
    "map_of (dw_requests s) (piece_key p) = Some rs" "ps_inflights p \<subseteq> dom (map_of rs)" "distinct (map fst rs)"
    "counts_are rs (ps_inflights p)" "\<And>b n. map_of rs b = Some n \<Longrightarrow> br_index b = ps_index p"
proof -
  obtain p where p: "map_of (dw_window s) (peer_endpoint c) = Some p" "ps_conn_id p = c"
    using assms(2) by (auto simp: is_assigned_def split: option.splits)
  obtain rs where rs: "map_of (dw_requests s) (piece_key p) = Some rs" "ps_inflights p \<subseteq> dom (map_of rs)" "distinct (map fst rs)"
    "\<And>b n. map_of rs b = Some n \<Longrightarrow> br_index b = ps_index p \<and> n = of_bool (b \<in> ps_inflights p)"
    using queue_of [OF dw_okD(4) [OF assms(1)] p(1)] by metis
  show thesis
    by (rule that [OF p rs(1-3)]) (use rs(4) in \<open>auto intro!: counts_areI [OF rs(3)]\<close>)
qed

lemma is_assigned_update:
  assumes "map_of (dw_window s) e = Some p" "dw_window s' = AList.update e (p\<lparr>ps_inflights := I\<rparr>) (dw_window s)"
  shows "is_assigned s' = is_assigned s"
  by (rule ext) (use assms in \<open>auto simp: is_assigned_def model_simps\<close>)

lemma queue_requests_ok:
  assumes s: "dw_ok lay t s" "is_assigned s c"
  shows "\<exists>pending s'. queue_requests s c t = Some (Some pending, s') \<and> dw_ok lay t s' \<and> distinct pending \<and>
    {c} \<times> set pending \<inter> sent s = {} \<and> sent s' = sent s \<union> {c} \<times> set pending \<and> is_assigned s' = is_assigned s"
proof -
  obtain p rs where p: "map_of (dw_window s) (peer_endpoint c) = Some p" "ps_conn_id p = c"
    and rs: "map_of (dw_requests s) (piece_key p) = Some rs" "ps_inflights p \<subseteq> dom (map_of rs)" "distinct (map fst rs)"
    "counts_are rs (ps_inflights p)" "\<And>b n. map_of rs b = Some n \<Longrightarrow> br_index b = ps_index p"
    by (rule assigned_entry [OF s]) blast
  note e = entry_okD [OF s(1) p(1)]
  obtain cd where cd: "clear_expired (dw_cooldowns s) t = Some cd" "ds_inv t cd"
    using tm.forget_due [OF dw_okD(3) [OF s(1)]] by blast
  obtain pending rs' where q: "queue_loop cd c rs (ps_inflights p) = Some (pending, ps_inflights p \<union> set pending, rs')"
    "distinct pending" "set pending \<inter> ps_inflights p = {}" "set pending \<subseteq> fst ` set rs"
    "card (ps_inflights p) + length pending \<le> INFLIGHT_QUEUE_SIZE" "map fst rs' = map fst rs"
    "counts_are rs' (ps_inflights p \<union> set pending)"
    using queue_loop_ok [OF cd(2) rs(3) e(2,3) rs(4)] by blast
  let ?I = "ps_inflights p \<union> set pending"
  let ?s = "s\<lparr>dw_window := AList.update (peer_endpoint c) (p\<lparr>ps_inflights := ?I\<rparr>) (dw_window s),
      dw_requests := AList.update (piece_key p) rs' (dw_requests s), dw_cooldowns := cd\<rparr>"
  have dom: "dom (map_of rs') = dom (map_of rs)" by (metis dom_map_of_conv_image_fst image_set q(6))
  have "dw_ok lay t ?s"
  proof (rule dw_ok_entry [OF s(1) p(1) cd(2)])
    show "finite ?I" using e(2) by simp
    have "card (set pending) \<le> length pending" by (rule card_length)
    with card_Un_le [of "ps_inflights p" "set pending"] q(5) show "card ?I \<le> INFLIGHT_QUEUE_SIZE" by linarith
    show "?I \<subseteq> dom (map_of rs')" unfolding dom using rs(2) q(4) by (auto simp: dom_map_of_conv_image_fst)
    show "distinct (map fst rs')" using rs(3) q(6) by simp
    show "\<And>b n. map_of rs' b = Some n \<Longrightarrow> br_index b = ps_index p \<and> n = of_bool (b \<in> ?I)"
      using counts_are_map_of [OF q(7)] rs(5) dom by (metis domD domI)
  qed
  moreover have "queue_requests s c t = Some (Some pending, ?s)"
    using p rs(1) cd(1) q(1,5) by (simp add: queue_requests_def)
  moreover have "sent ?s = sent s \<union> {c} \<times> set pending"
    using sent_update [OF s(1) p(1), of ?I] sent_of [OF s(1) p(1)] p(2) by auto
  moreover have "{c} \<times> set pending \<inter> sent s = {}" using sent_of [OF s(1) p(1)] p(2) q(3) by auto
  moreover have "is_assigned ?s = is_assigned s" by (rule is_assigned_update [OF p(1)]) simp
  ultimately show ?thesis using q(2) by blast
qed

text \<open>A block in flight is held by an assigned connection.\<close>

lemma sent_iff: "(c, b) \<in> sent s \<longleftrightarrow> (\<exists>p. map_of (dw_window s) (peer_endpoint c) = Some p \<and> ps_conn_id p = c \<and> b \<in> ps_inflights p)"
  by (simp add: outstanding_def)

lemma sent_assigned: "(c, b) \<in> sent s \<Longrightarrow> is_assigned s c"
  by (auto simp: sent_iff is_assigned_def)

lemma dequeue_ok:
  assumes "counts_are rs I" "B \<subseteq> I" "I \<subseteq> dom (map_of rs)"
  shows "\<exists>rs'. dequeue B rs = Some rs' \<and> map fst rs' = map fst rs \<and> counts_are rs' (I - B)"
proof -
  have "\<forall>b \<in> B. case map_of rs b of None \<Rightarrow> False | Some n \<Rightarrow> 0 < n"
    using assms(2,3) counts_are_map_of [OF assms(1)] by (fastforce split: option.splits)
  moreover have "counts_are (map (\<lambda>(b, n). (b, if b \<in> B then n - 1 else n)) rs) (I - B)"
    using assms(1,2) by (induction rs) (auto simp: counts_are_def)
  ultimately show ?thesis by (simp add: dequeue_def rs_assert_bind o_def case_prod_unfold)
qed

lemma dw_reject_ok:
  assumes s: "dw_ok lay t s" and place: "placement place"
  shows "\<exists>s'. dw_reject place s c b t = Some ((c, b) \<in> sent s, s') \<and> dw_ok lay t s' \<and> sent s' = sent s - {(c, b)} \<and>
    is_assigned s' = is_assigned s"
proof (cases "(c, b) \<in> sent s")
  case True
  obtain p rs where p: "map_of (dw_window s) (peer_endpoint c) = Some p" "ps_conn_id p = c"
    and rs: "map_of (dw_requests s) (piece_key p) = Some rs" "ps_inflights p \<subseteq> dom (map_of rs)" "distinct (map fst rs)"
    "counts_are rs (ps_inflights p)" "\<And>b n. map_of rs b = Some n \<Longrightarrow> br_index b = ps_index p"
    by (rule assigned_entry [OF s sent_assigned [OF True]]) blast
  note e = entry_okD [OF s p(1)]
  have b: "b \<in> ps_inflights p" using True p by (auto simp: sent_iff)
  obtain r cd where cd: "ds_insert_now place (dw_cooldowns s) (c, b) t = Some (r, cd)" "ds_inv t cd"
    using tm.put_due [OF place dw_okD(3) [OF s]] by blast
  obtain rs' where q: "dequeue {b} rs = Some rs'" "map fst rs' = map fst rs" "counts_are rs' (ps_inflights p - {b})"
    using dequeue_ok [OF rs(4) _ rs(2), of "{b}"] b by blast
  let ?I = "ps_inflights p - {b}"
  let ?s = "s\<lparr>dw_window := AList.update (peer_endpoint c) (p\<lparr>ps_inflights := ?I\<rparr>) (dw_window s),
      dw_requests := AList.update (piece_key p) rs' (dw_requests s), dw_cooldowns := cd\<rparr>"
  have dom: "dom (map_of rs') = dom (map_of rs)" by (metis dom_map_of_conv_image_fst image_set q(2))
  have "dw_ok lay t ?s"
  proof (rule dw_ok_entry [OF s p(1) cd(2)])
    show "finite ?I" "card ?I \<le> INFLIGHT_QUEUE_SIZE" using e(2,3) by (auto intro: order_trans [OF card_Diff1_le])
    show "?I \<subseteq> dom (map_of rs')" "distinct (map fst rs')" using rs(2,3) q(2) dom by auto
    show "\<And>d n. map_of rs' d = Some n \<Longrightarrow> br_index d = ps_index p \<and> n = of_bool (d \<in> ?I)"
      using counts_are_map_of [OF q(3)] rs(5) dom by (metis domD domI)
  qed
  moreover have "dw_reject place s c b t = Some (True, ?s)"
    using p b rs(1) cd(1) q(1) by (simp add: dw_reject_def)
  moreover have "sent ?s = sent s - {(c, b)}"
    using sent_update [OF s p(1), of ?I] sent_of [OF s p(1)] p(2) by auto
  moreover have "is_assigned ?s = is_assigned s" by (rule is_assigned_update [OF p(1)]) simp
  ultimately show ?thesis using True by auto
next
  case False
  then have "dw_reject place s c b t = Some (False, s)" by (auto simp: dw_reject_def sent_iff split: option.splits)
  with False s show ?thesis by auto
qed

text \<open>Nobody else has the block of a peer in flight.\<close>

lemma sole_holder:
  assumes s: "dw_ok lay t s" and p: "map_of (dw_window s) e = Some p" "b \<in> ps_inflights p"
    and p': "map_of (dw_window s) e' = Some p'" "b \<in> ps_inflights p'" "ci_info_hash (ps_conn_id p') = ci_info_hash (ps_conn_id p)"
  shows "e' = e"
proof -
  have idx: "br_index b = ps_index q" if "map_of (dw_window s) d = Some q" "b \<in> ps_inflights q" for d q
    by (rule queue_of [OF dw_okD(4) [OF s] that(1)]) (use that(2) in blast)
  have "piece_key p' = piece_key p" using idx [OF p] idx [OF p'(1,2)] p'(3) by (simp add: piece_key_def)
  from window_okD(2) [OF dw_okD(4) [OF s] p'(1) p(1) this] show ?thesis .
qed

lemma cancel_others_none:
  assumes "\<And>e p. (e, p) \<in> set w \<Longrightarrow> ci_info_hash (ps_conn_id p) = h \<Longrightarrow> b \<notin> ps_inflights p"
  shows "cancel_others h b w = ([], w)"
proof -
  have "map (\<lambda>(e, p). (e, if ci_info_hash (ps_conn_id p) = h \<and> b \<in> ps_inflights p then p\<lparr>ps_inflights := ps_inflights p - {b}\<rparr> else p)) w = w"
    by (rule map_idI) (use assms in auto)
  then show ?thesis using assms by (auto simp: cancel_others_def Let_def filter_empty_conv)
qed

lemma dw_recv_ok:
  assumes s: "dw_ok lay t s"
  shows "(c, b) \<in> sent s \<Longrightarrow> \<exists>last s'. dw_recv s c b = Some (Some (last, []), s') \<and> dw_ok lay t s' \<and> sent s' = sent s - {(c, b)} \<and>
      is_assigned s' = is_assigned s \<and> (last \<longrightarrow> map_of (dw_requests s') (ci_info_hash c, br_index b) = Some [])"
    and "(c, b) \<notin> sent s \<Longrightarrow> dw_recv s c b = Some (None, s)"
proof -
  assume True: "(c, b) \<in> sent s"
  obtain p rs where p: "map_of (dw_window s) (peer_endpoint c) = Some p" "ps_conn_id p = c"
    and rs: "map_of (dw_requests s) (piece_key p) = Some rs" "ps_inflights p \<subseteq> dom (map_of rs)" "distinct (map fst rs)"
    "counts_are rs (ps_inflights p)" "\<And>b n. map_of rs b = Some n \<Longrightarrow> br_index b = ps_index p"
    by (rule assigned_entry [OF s sent_assigned [OF True]]) blast
  note e = entry_okD [OF s p(1)]
  have b: "b \<in> ps_inflights p" using True p by (auto simp: sent_iff)
  then have one: "map_of rs b = Some 1" using rs(2) counts_are_map_of [OF rs(4), of b] by auto
  have key: "piece_key p = (ci_info_hash c, br_index b)" using rs(5) [OF one] p(2) by (simp add: piece_key_def)
  let ?I = "ps_inflights p - {b}"
  let ?w = "AList.update (peer_endpoint c) (p\<lparr>ps_inflights := ?I\<rparr>) (dw_window s)"
  let ?s = "s\<lparr>dw_window := ?w, dw_requests := AList.update (piece_key p) (AList.delete b rs) (dw_requests s), dw_cooldowns := dw_cooldowns s\<rparr>"
  have "cancel_others (ci_info_hash c) b ?w = ([], ?w)"
  proof (rule cancel_others_none)
    fix e' p' assume "(e', p') \<in> set ?w" and h: "ci_info_hash (ps_conn_id p') = ci_info_hash c"
    then have "map_of ?w e' = Some p'" using dw_okD(1) [OF s] by simp
    then show "b \<notin> ps_inflights p'" using sole_holder [OF s p(1) b, of e' p'] h p(2) by (auto simp: model_simps split: if_splits)
  qed
  then have "dw_recv s c b = Some (Some (AList.delete b rs = [], []), ?s)"
    using p b rs(1) one by (simp add: dw_recv_def Let_def)
  moreover have "dw_ok lay t ?s"
  proof (rule dw_ok_entry [OF s p(1) dw_okD(3) [OF s]])
    show "finite ?I" "card ?I \<le> INFLIGHT_QUEUE_SIZE" using e(2,3) by (auto intro: order_trans [OF card_Diff1_le])
    show "?I \<subseteq> dom (map_of (AList.delete b rs))" using rs(2) by (auto simp: model_simps)
    show "distinct (map fst (AList.delete b rs))" using rs(3) by (simp add: AList.distinct_delete)
    show "\<And>d n. map_of (AList.delete b rs) d = Some n \<Longrightarrow> br_index d = ps_index p \<and> n = of_bool (d \<in> ?I)"
      using rs(5) counts_are_map_of [OF rs(4)] by (fastforce simp: model_simps split: if_splits)
  qed
  moreover have "sent ?s = sent s - {(c, b)}" using sent_update [OF s p(1), of ?I] sent_of [OF s p(1)] p(2) by auto
  moreover have "is_assigned ?s = is_assigned s" by (rule is_assigned_update [OF p(1)]) simp
  moreover have "AList.delete b rs = [] \<Longrightarrow> map_of (dw_requests ?s) (ci_info_hash c, br_index b) = Some []"
    by (simp add: model_simps key)
  ultimately show "\<exists>last s'. dw_recv s c b = Some (Some (last, []), s') \<and> dw_ok lay t s' \<and> sent s' = sent s - {(c, b)} \<and>
      is_assigned s' = is_assigned s \<and> (last \<longrightarrow> map_of (dw_requests s') (ci_info_hash c, br_index b) = Some [])"
    by blast
next
  assume "(c, b) \<notin> sent s"
  then show "dw_recv s c b = Some (None, s)" by (auto simp: dw_recv_def sent_iff split: option.splits)
qed

section \<open>Removals\<close>

lemma map_of_filter_Some:
  "distinct (map fst xs) \<Longrightarrow> map_of (filter P xs) k = Some v \<longleftrightarrow> map_of xs k = Some v \<and> P (k, v)"
  by (simp add: distinct_map_filter)

lemma timers_remove_ok:
  assumes "ds_inv t s"
  shows "\<exists>s'. timers_remove_peer s c = Some s' \<and> ds_inv t s' \<and> ds_delay s' = ds_delay s \<and>
      dom (ds_due s') = dom (ds_due s) - {c} \<times> UNIV"
    and "\<exists>s'. timers_remove_torrent s h = Some s' \<and> ds_inv t s' \<and> ds_delay s' = ds_delay s \<and>
      dom (ds_due s') = {(c, b) \<in> dom (ds_due s). ci_info_hash c \<noteq> h}"
proof -
  show "\<exists>s'. timers_remove_peer s c = Some s' \<and> ds_inv t s' \<and> ds_delay s' = ds_delay s \<and>
      dom (ds_due s') = dom (ds_due s) - {c} \<times> UNIV"
    by (rule tm.keep_dom [OF assms, of "\<lambda>(d, _). \<not> d = c"]) (auto simp: timers_remove_peer_def)
  show "\<exists>s'. timers_remove_torrent s h = Some s' \<and> ds_inv t s' \<and> ds_delay s' = ds_delay s \<and>
      dom (ds_due s') = {(c, b) \<in> dom (ds_due s). ci_info_hash c \<noteq> h}"
    by (rule tm.keep_dom [OF assms, of "\<lambda>(c, _). \<not> ci_info_hash c = h"]) (auto simp: timers_remove_torrent_def)
qed

lemma dw_remove_peer_ok:
  assumes s: "dw_ok lay t s"
  shows "\<exists>r s'. dw_remove_peer s c = Some (r, s') \<and> dw_ok lay t s' \<and> sent s' = sent s - {c} \<times> UNIV"
proof (cases "is_assigned s c")
  case True
  obtain p rs where p: "map_of (dw_window s) (peer_endpoint c) = Some p" "ps_conn_id p = c"
    and rs: "map_of (dw_requests s) (piece_key p) = Some rs" "ps_inflights p \<subseteq> dom (map_of rs)" "distinct (map fst rs)"
    "counts_are rs (ps_inflights p)" "\<And>b n. map_of rs b = Some n \<Longrightarrow> br_index b = ps_index p"
    by (rule assigned_entry [OF s True]) blast
  obtain cd where cd: "timers_remove_peer (dw_cooldowns s) c = Some cd" "ds_inv t cd"
    using timers_remove_ok(1) [OF dw_okD(3) [OF s]] by blast
  obtain rs' where q: "dequeue (ps_inflights p) rs = Some rs'" "map fst rs' = map fst rs" "counts_are rs' {}"
    using dequeue_ok [OF rs(4) order_refl rs(2)] by auto
  let ?s = "s\<lparr>dw_window := AList.delete (peer_endpoint c) (dw_window s),
      dw_requests := AList.update (piece_key p) rs' (dw_requests s), dw_cooldowns := cd\<rparr>"
  have dom: "dom (map_of rs') = dom (map_of rs)" by (metis dom_map_of_conv_image_fst image_set q(2))
  have zero: "br_index b = ps_index p \<and> n = 0" if "map_of rs' b = Some n" for b n
  proof -
    have "b \<in> dom (map_of rs)" unfolding dom [symmetric] using that by (rule domI)
    then obtain k where "map_of rs b = Some k" by blast
    then show ?thesis using rs(5) counts_are_map_of [OF q(3) that] by simp
  qed
  have "distinct (map fst rs')" using rs(3) q(2) by simp
  from window_ok_remove [where w = "map_of (dw_window s)", OF dw_okD(4) [OF s] p(1) this zero]
  have "window_ok lay (map_of (dw_window ?s)) (map_of (dw_requests ?s))" by (simp add: model_simps)
  then have "dw_ok lay t ?s"
    using dw_okD [OF s] cd(2) length_delete [of "peer_endpoint c" "dw_window s"]
    by (simp add: dw_ok_def AList.distinct_delete)
  moreover have "dw_remove_peer s c = Some (True, ?s)" using p rs(1) q(1) cd(1) by (simp add: dw_remove_peer_def)
  moreover have "(d, b) \<in> sent ?s \<longleftrightarrow> (d, b) \<in> sent s \<and> d \<noteq> c" for d b
    by (cases "peer_endpoint d = peer_endpoint c"; cases "d = c") (simp_all add: outstanding_def model_simps p)
  then have "sent ?s = sent s - {c} \<times> UNIV" by auto
  ultimately show ?thesis by blast
next
  case False
  then have "dw_remove_peer s c = Some (False, s)" by (auto simp: dw_remove_peer_def is_assigned_def split: option.splits)
  moreover have "sent s - {c} \<times> UNIV = sent s" using False sent_assigned by fastforce
  ultimately show ?thesis using s by auto
qed

lemma dw_remove_piece_ok:
  assumes s: "dw_ok lay t s" and q: "map_of (dw_requests s) (h, i) = Some []"
  shows "\<exists>s'. dw_remove_piece s h i = Some s' \<and> dw_ok lay t s' \<and> sent s' = sent s"
proof -
  let ?s = "s\<lparr>dw_window := filter (\<lambda>(_, p). ci_info_hash (ps_conn_id p) \<noteq> h \<or> ps_index p \<noteq> i) (dw_window s),
      dw_requests := AList.delete (h, i) (dw_requests s)\<rparr>"
  note d = dw_okD [OF s]
  have w: "map_of (dw_window ?s) e = Some p \<longleftrightarrow> map_of (dw_window s) e = Some p \<and> piece_key p \<noteq> (h, i)" for e p
    using map_of_filter_Some [OF d(1)] by (auto simp: piece_key_def)
  have "window_ok lay (map_of (dw_window ?s)) (map_of (dw_requests ?s))"
    by (rule window_ok_filter [OF d(4), where K = "\<lambda>k. k \<noteq> (h, i)"]) (rule w, simp add: model_simps)
  then have "dw_ok lay t ?s"
    using d order_trans [OF length_filter_le d(2)] by (simp add: dw_ok_def distinct_map_filter)
  moreover have "ps_inflights p = {}" if "map_of (dw_window s) e = Some p" "piece_key p = (h, i)" for e p
    by (rule queue_of [OF d(4) that(1)]) (use that(2) q in auto)
  then have "(c, b) \<in> sent ?s \<longleftrightarrow> (c, b) \<in> sent s" for c b unfolding sent_iff w by blast
  then have "sent ?s = sent s" by auto
  ultimately show ?thesis using q by (simp add: dw_remove_piece_def)
qed

lemma dw_remove_torrent_ok:
  assumes s: "dw_ok lay t s"
  shows "\<exists>s'. dw_remove_torrent s h = Some s' \<and> dw_ok lay t s' \<and> sent s' = {(c, b) \<in> sent s. ci_info_hash c \<noteq> h}"
proof -
  note d = dw_okD [OF s]
  obtain cd where cd: "timers_remove_torrent (dw_cooldowns s) h = Some cd" "ds_inv t cd"
    using timers_remove_ok(2) [OF d(3)] by blast
  let ?s = "s\<lparr>dw_window := filter (\<lambda>(_, p). ci_info_hash (ps_conn_id p) \<noteq> h) (dw_window s),
       dw_requests := filter (\<lambda>((h', _), _). h' \<noteq> h) (dw_requests s), dw_paused := dw_paused s - {h}, dw_cooldowns := cd\<rparr>"
  have w: "map_of (dw_window ?s) e = Some p \<longleftrightarrow> map_of (dw_window s) e = Some p \<and> fst (piece_key p) \<noteq> h" for e p
    using map_of_filter_Some [OF d(1)] by (auto simp: piece_key_def)
  have rq: "map_of (filter (\<lambda>((h', _), _). h' \<noteq> h) xs) k = (if fst k \<noteq> h then map_of xs k else None)"
    for xs :: "((info_hash \<times> piece_index) \<times> (block_range \<times> nat) list) list" and k
    by (induction xs) auto
  have "window_ok lay (map_of (dw_window ?s)) (map_of (dw_requests ?s))"
    by (rule window_ok_filter [OF d(4), where K = "\<lambda>k. fst k \<noteq> h"]) (rule w, simp add: rq)
  then have "dw_ok lay t ?s"
    using d cd(2) order_trans [OF length_filter_le d(2)] by (simp add: dw_ok_def distinct_map_filter)
  moreover have "(c, b) \<in> sent ?s \<longleftrightarrow> (c, b) \<in> sent s \<and> ci_info_hash c \<noteq> h" for c b
    unfolding sent_iff w by (auto simp: piece_key_def)
  then have "sent ?s = {(c, b) \<in> sent s. ci_info_hash c \<noteq> h}" by auto
  moreover have "dw_remove_torrent s h = Some ?s" using cd(1) by (simp add: dw_remove_torrent_def)
  ultimately show ?thesis by blast
qed

lemma dw_pause_ok:
  assumes "dw_ok lay t s"
  shows "dw_ok lay t (snd (dw_pause s h))" "sent (snd (dw_pause s h)) = sent s"
    and "dw_ok lay t (snd (dw_resume s h))" "sent (snd (dw_resume s h)) = sent s"
  using assms by (simp_all add: dw_pause_def dw_resume_def dw_ok_def)

section \<open>Assignment\<close>

text \<open>The layouts of the torrents: well-formed, and small enough that the end of a block after the last is a number.\<close>

definition lay_ok :: "(info_hash \<Rightarrow> layout) \<Rightarrow> bool" where
  "lay_ok lay \<longleftrightarrow> (\<forall>h. layout_ok (lay h) \<and> lpiece_size (lay h) + BLOCK_SIZE \<le> u64_max)"

text \<open>A piece that nobody loads.\<close>

definition unloaded :: "'e window_map \<Rightarrow> info_hash \<times> piece_index \<Rightarrow> bool" where
  "unloaded w k \<longleftrightarrow> (\<forall>e p. w e = Some p \<longrightarrow> piece_key p \<noteq> k)"

lemma collect_blocks:
  assumes "sorted_wrt (<) (map fst acc)" "counts_are acc {}" "\<forall>(b, n) \<in> set acc. br_index b = i" "\<forall>b \<in> set bs. br_index b = i"
  shows "sorted_wrt (<) (map fst (foldl (\<lambda>m r. bt_insert r 0 m) acc bs)) \<and> counts_are (foldl (\<lambda>m r. bt_insert r 0 m) acc bs) {} \<and>
    (\<forall>(b, n) \<in> set (foldl (\<lambda>m r. bt_insert r 0 m) acc bs). br_index b = i)"
  using assms
proof (induction bs arbitrary: acc)
  case (Cons b bs)
  note i = bt_insert_sorted [OF Cons.prems(1), of b 0]
  then have "counts_are (bt_insert b 0 acc) {}" "\<forall>(d, n) \<in> set (bt_insert b 0 acc). br_index d = i"
    using Cons.prems(2-4) by (fastforce simp: counts_are_def list_all_iff)+
  with Cons.IH [of "bt_insert b 0 acc"] i Cons.prems(4) show ?case by simp
qed simp

text \<open>Every block of the piece enters the queue.\<close>

lemma requests_entry_ok:
  assumes "lay_ok lay" "snd k < lnum_pieces (lay (fst k))" "window_ok lay w (map_of reqs)" "unloaded w k"
  shows "\<exists>reqs' rs. requests_entry (lay (fst k)) k reqs = Some reqs' \<and> map_of reqs' = (map_of reqs)(k \<mapsto> rs) \<and>
    distinct (map fst rs) \<and> (\<forall>b n. map_of rs b = Some n \<longrightarrow> br_index b = snd k \<and> n = 0)"
proof (cases "map_of reqs k")
  case None
  have "0 < BLOCK_SIZE" by (simp add: BLOCK_SIZE_def)
  then obtain bs where bs: "layout_blocks (lay (fst k)) (snd k) BLOCK_SIZE = Some bs" "\<forall>b \<in> set bs. br_index b = snd k"
    using layout_blocks_ok [of "lay (fst k)" "snd k" BLOCK_SIZE] assms(1,2) unfolding lay_ok_def by blast
  let ?rs = "foldl (\<lambda>m r. bt_insert r (0 :: nat) m) [] bs"
  have rs: "sorted_wrt (<) (map fst ?rs)" "counts_are ?rs {}" "\<forall>(b, n) \<in> set ?rs. br_index b = snd k"
    using collect_blocks [of "[]" "snd k" bs] bs(2) by (simp_all add: counts_are_def)
  have "distinct (map fst ?rs)" using rs(1) by (simp add: strict_sorted_iff)
  moreover have "br_index b = snd k \<and> n = 0" if "map_of ?rs b = Some n" for b n
    using rs(3) map_of_SomeD [OF that] counts_are_map_of [OF rs(2) that] by auto
  moreover have "requests_entry (lay (fst k)) k reqs = Some (AList.update k ?rs reqs)"
    using None bs(1) by (simp add: requests_entry_def)
  ultimately show ?thesis by (auto simp: model_simps)
next
  case (Some rs)
  have "\<not> busy w k b" for b using assms(4) by (auto simp: busy_def unloaded_def)
  then have "distinct (map fst rs)" "\<forall>b n. map_of rs b = Some n \<longrightarrow> br_index b = snd k \<and> n = 0"
    using window_okD(3) [OF assms(3) Some] by (auto simp: queue_ok_def)
  moreover have "map_of reqs = (map_of reqs)(k \<mapsto> rs)" using Some by auto
  moreover have "requests_entry (lay (fst k)) k reqs = Some reqs" using Some by (simp add: requests_entry_def)
  ultimately show ?thesis by blast
qed

text \<open>A free peer starts on a piece that nobody loads.\<close>

lemma window_ok_assign:
  assumes w: "window_ok lay w rq" "w e = None" "unloaded w k"
    and k: "snd k < lnum_pieces (lay (fst k))" "piece_key p = k" "peer_endpoint (ps_conn_id p) = e" "ps_inflights p = {}"
    and rs: "distinct (map fst rs)" "\<forall>b n. map_of rs b = Some n \<longrightarrow> br_index b = snd k \<and> n = 0"
  shows "window_ok lay (w(e \<mapsto> p)) (rq(k \<mapsto> rs))"
proof (rule window_okI)
  have un: "w e' = Some p' \<Longrightarrow> piece_key p' \<noteq> k" for e' p' using w(3) by (simp add: unloaded_def)
  show "entry_ok (rq(k \<mapsto> rs)) e' p'" if "(w(e \<mapsto> p)) e' = Some p'" for e' p'
    using that window_okD(1) [OF w(1), of e' p'] un [of e' p'] k by (auto simp: entry_ok_def split: if_splits)
  show "e1 = e2" if "(w(e \<mapsto> p)) e1 = Some p1" "(w(e \<mapsto> p)) e2 = Some p2" "piece_key p1 = piece_key p2" for e1 p1 e2 p2
    using that window_okD(2) [OF w(1), of e1 p1 e2 p2] un [of e1 p1] un [of e2 p2] k(2) by (auto split: if_splits)
  have busy: "busy (w(e \<mapsto> p)) k' b \<longleftrightarrow> k' \<noteq> k \<and> busy w k' b" for k' b
  proof -
    have "(w(e \<mapsto> p)) e' = Some p' \<and> b \<in> ps_inflights p' \<longleftrightarrow> w e' = Some p' \<and> b \<in> ps_inflights p'" for e' p'
      using w(2) k(4) by auto
    then show ?thesis using un unfolding busy_def by blast
  qed
  show "queue_ok lay (w(e \<mapsto> p)) k' qs" if "(rq(k \<mapsto> rs)) k' = Some qs" for k' qs
    using that window_okD(3) [OF w(1), of k' qs] k(1) rs by (cases "k' = k") (simp_all add: queue_ok_def busy)
qed

lemma outstanding_new:
  assumes "w e = None" "ps_inflights p = {}"
  shows "outstanding (w(e \<mapsto> p)) = outstanding w"
proof -
  have "(w(e \<mapsto> p)) d = Some q \<and> ps_conn_id q = c \<and> b \<in> ps_inflights q \<longleftrightarrow> w d = Some q \<and> ps_conn_id q = c \<and> b \<in> ps_inflights q" for d q c b
    using assms by auto
  then show ?thesis unfolding outstanding_def by simp
qed

text \<open>What the counters of \<open>assign\<close> are good for: a piece with a count below the fan-out is loaded by nobody.\<close>

definition lookup_count :: "((info_hash \<times> piece_index) \<times> nat) list \<Rightarrow> info_hash \<times> piece_index \<Rightarrow> nat" where
  "lookup_count counts k = (case map_of counts k of None \<Rightarrow> 0 | Some n \<Rightarrow> n)"

definition counts_cover :: "((info_hash \<times> piece_index) \<times> nat) list \<Rightarrow> 'e window_map \<Rightarrow> bool" where
  "counts_cover counts w \<longleftrightarrow> (\<forall>k. lookup_count counts k = 0 \<longrightarrow> unloaded w k)"

lemma lookup_count_update: "lookup_count (AList.update k n counts) k' = (if k' = k then n else lookup_count counts k')"
  by (simp add: lookup_count_def model_simps)

lemma num_assigned_cover: "counts_cover (num_assigned_of w) (map_of w)"
proof -
  have "lookup_count (num_assigned_of w) k = length (filter (\<lambda>(e, p). piece_key p = k) w)" for k
  proof (induction w)
    case (Cons x w)
    obtain e p where "x = (e, p)" by (cases x)
    with Cons.IH show ?case by (auto simp: Let_def lookup_count_update simp flip: lookup_count_def)
  qed (simp add: lookup_count_def)
  then show ?thesis by (force simp: counts_cover_def unloaded_def filter_empty_conv dest: map_of_SomeD)
qed

lemma assign_candidates_ok:
  assumes lay: "lay_ok lay" "snd (h, i) < lnum_pieces (lay (fst (h, i)))" and t: "tr_layout tr = lay h"
    and pieces: "\<And>p b. map_of (tr_peer_pieces tr) p = Some b \<Longrightarrow> i < length b"
    and s: "dw_ok lay t s" "length (dw_window s) < WINDOW_SIZE" "unloaded (map_of (dw_window s)) (h, i)"
  shows "\<exists>num new s'. assign_candidates m tr h i cs 0 s = Some (num, new, s') \<and> dw_ok lay t s' \<and> sent s' = sent s \<and>
    dw_paused s' = dw_paused s \<and> (\<forall>c. is_assigned s c \<or> c \<in> set new \<longrightarrow> is_assigned s' c) \<and>
    (\<forall>k. unloaded (map_of (dw_window s)) k \<and> (k \<noteq> (h, i) \<or> num = 0) \<longrightarrow> unloaded (map_of (dw_window s')) k)"
proof (induction cs)
  case (Cons cand cs)
  let ?rest = "assign_candidates m tr h i cs 0 s"
  let ?c = "conn_id_of h cand"
  show ?case
  proof (cases "map_of (dw_window s) (snd cand)")
    case (Some _)
    then have "assign_candidates m tr h i (cand # cs) 0 s = ?rest" by simp
    with Cons.IH show ?thesis by simp
  next
    case free: None
    obtain has where has: "(case map_of (tr_peer_pieces tr) cand of None \<Rightarrow> Some False | Some pieces \<Rightarrow> rs_index pieces i) = Some has"
      using pieces [of cand] by (cases "map_of (tr_peer_pieces tr) cand") auto
    show ?thesis
    proof (cases "\<not> has \<or> (case conn_get m ?c of None \<Rightarrow> True | Some st \<Rightarrow> peer_choking (cs_flags st) \<or> snubbing (cs_flags st))")
      case True
      with free has have "assign_candidates m tr h i (cand # cs) 0 s = ?rest" by (simp del: de_Morgan_disj)
      with Cons.IH show ?thesis by simp
    next
      case False
      let ?p = "\<lparr>ps_conn_id = ?c, ps_index = i, ps_inflights = {}\<rparr>"
      obtain reqs rs where r: "requests_entry (lay h) (h, i) (dw_requests s) = Some reqs" "map_of reqs = (map_of (dw_requests s))((h, i) \<mapsto> rs)"
        "distinct (map fst rs)" "\<forall>b n. map_of rs b = Some n \<longrightarrow> br_index b = snd (h, i) \<and> n = 0"
        using requests_entry_ok [where w = "map_of (dw_window s)", OF lay dw_okD(4) [OF s(1)] s(3)] unfolding fst_conv by blast
      let ?s = "s\<lparr>dw_window := AList.update (snd cand) ?p (dw_window s), dw_requests := reqs\<rparr>"
      have p: "piece_key ?p = (h, i)" "peer_endpoint (ps_conn_id ?p) = snd cand" "ps_inflights ?p = {}"
        by (simp_all add: piece_key_def peer_endpoint_def)
      have "assign_candidates m tr h i (cand # cs) 0 s = Some (1, [?c], ?s)"
        using free has False r(1) t by (simp add: FANOUT_def Let_def)
      moreover have "window_ok lay (map_of (dw_window ?s)) (map_of (dw_requests ?s))"
        using window_ok_assign [where w = "map_of (dw_window s)", OF dw_okD(4) [OF s(1)] free s(3) lay(2) p r(3,4)] r(2)
        by (simp add: model_simps)
      then have "dw_ok lay t ?s"
        using dw_okD [OF s(1)] s(2) length_update_le [of "snd cand" ?p "dw_window s"] by (simp add: dw_ok_def)
      moreover have "sent ?s = sent s" using outstanding_new [where w = "map_of (dw_window s)", OF free p(3)] by (simp add: model_simps)
      moreover have "is_assigned s c \<or> c = ?c \<Longrightarrow> is_assigned ?s c" for c
        using free by (auto simp: is_assigned_def model_simps peer_endpoint_def split: option.splits)
      moreover have "unloaded (map_of (dw_window s)) k \<Longrightarrow> k \<noteq> (h, i) \<Longrightarrow> unloaded (map_of (dw_window ?s)) k" for k
        using p(1) by (auto simp: unloaded_def model_simps)
      ultimately show ?thesis by auto
    qed
  qed
qed (use s in simp)

text \<open>A schedule names pieces the torrents have.\<close>

definition schedule_ok :: "(info_hash \<Rightarrow> layout) \<Rightarrow> 'e schedule \<Rightarrow> bool" where
  "schedule_ok lay sched \<longleftrightarrow> list_all (\<lambda>(h, i, _). i < lnum_pieces (lay h)) sched"

lemma assign_loop_ok:
  assumes lay: "lay_ok lay" and m: "md_inv m" "layouts_are lay m"
  shows "schedule_ok lay sched \<Longrightarrow> dw_ok lay t s \<Longrightarrow> counts_cover counts (map_of (dw_window s)) \<Longrightarrow>
    \<exists>as s'. assign_loop m sched counts s = Some (as, s') \<and> dw_ok lay t s' \<and> sent s' = sent s \<and>
      (\<forall>c. is_assigned s c \<or> c \<in> set as \<longrightarrow> is_assigned s' c)"
proof (induction sched arbitrary: s counts)
  case (Cons x sched)
  obtain h i pairs where x: "x = (h, i, pairs)" by (cases x)
  have i: "i < lnum_pieces (lay h)" "schedule_ok lay sched" using Cons.prems(1) x by (simp_all add: schedule_ok_def)
  note rest = Cons.IH [OF i(2)]
  show ?case
  proof (cases "length (dw_window s) < WINDOW_SIZE")
    case room: True
    show ?thesis
    proof (cases "map_of (md_torrents m) h")
      case None
      with x room rest [OF Cons.prems(2,3)] show ?thesis by simp
    next
      case (Some tr)
      have ok: "torrent_ok (conn_get m) h tr" and l: "tr_layout tr = lay h"
        using md_invD(2) [OF m(1) Some] m(2) Some by (simp_all add: layouts_are_def)
      have len: "i < length (tr_self_pieces tr)" using ok i(1) l by (simp add: torrent_ok_def)
      have pieces: "i < length b" if "map_of (tr_peer_pieces tr) p = Some b" for p b
        using ok len that by (auto simp: torrent_ok_def)
      let ?n = "lookup_count counts (h, i)"
      show ?thesis
      proof (cases "tr_self_pieces tr ! i \<or> h \<in> dw_paused s \<or> ?n \<ge> FANOUT")
        case True
        have "counts_cover (AList.update (h, i) ?n counts) (map_of (dw_window s))"
          using Cons.prems(3) by (auto simp: counts_cover_def lookup_count_update)
        with True x room Some len rest [OF Cons.prems(2,3)] rest [OF Cons.prems(2), of "AList.update (h, i) ?n counts"]
        show ?thesis by (auto simp: Let_def simp flip: lookup_count_def)
      next
        case False
        then have n: "?n = 0" by (simp add: FANOUT_def)
        then have "unloaded (map_of (dw_window s)) (h, i)" using Cons.prems(3) by (simp add: counts_cover_def)
        with assign_candidates_ok [of lay h i tr t s m pairs] lay i(1) l pieces Cons.prems(2) room
        obtain num new s1 where a: "assign_candidates m tr h i pairs 0 s = Some (num, new, s1)" "dw_ok lay t s1" "sent s1 = sent s"
          "\<forall>c. is_assigned s c \<or> c \<in> set new \<longrightarrow> is_assigned s1 c"
          "\<forall>k. unloaded (map_of (dw_window s)) k \<and> (k \<noteq> (h, i) \<or> num = 0) \<longrightarrow> unloaded (map_of (dw_window s1)) k"
          by auto
        have "counts_cover (AList.update (h, i) num counts) (map_of (dw_window s1))"
          using a(5) Cons.prems(3) n by (auto simp: counts_cover_def lookup_count_update)
        from rest [OF a(2) this] obtain as s2 where b: "assign_loop m sched (AList.update (h, i) num counts) s1 = Some (as, s2)"
          "dw_ok lay t s2" "sent s2 = sent s1" "\<forall>c. is_assigned s1 c \<or> c \<in> set as \<longrightarrow> is_assigned s2 c" by blast
        have "assign_loop m (x # sched) counts s = Some (new @ as, s2)"
          using x room Some len False n a(1) b(1) by (simp add: Let_def flip: lookup_count_def)
        with a(3,4) b(2-4) show ?thesis by auto
      qed
    qed
  qed (use x Cons.prems in simp)
qed simp

lemma dw_assign_ok:
  assumes "lay_ok lay" "md_inv m" "layouts_are lay m" "schedule_ok lay sched" "dw_ok lay t s"
  shows "\<exists>as s'. dw_assign s m sched = Some (as, s') \<and> dw_ok lay t s' \<and> sent s' = sent s \<and>
    (\<forall>c. is_assigned s c \<or> c \<in> set as \<longrightarrow> is_assigned s' c)"
proof -
  have "schedule_ok lay (take n sched)" for n
    using assms(4) by (auto simp: schedule_ok_def list_all_iff dest: in_set_takeD)
  from assign_loop_ok [OF assms(1-3) this assms(5) num_assigned_cover] show ?thesis
    unfolding dw_assign_def by blast
qed

end
