(* ===== verification/Download_Actor.thy ===== *)
theory Download_Actor
  imports Download_Spec
begin

text \<open>
  The download actor (\<open>src/rust/bt/txrx/src/download/mod.rs\<close> and \<open>schedule.rs\<close>): a single task that owns the
  schedule, the download window and two sets of timers, and handles one request, model change, peer message
  or timer at a time. The torrent model is shared with the rest of the program. What the storage answers is an
  argument of the handler that asks it; messages to peers and broadcasts are kept in logs. A handler reads the
  clock once.
\<close>

section \<open>State\<close>

record 'e actor =
  ac_model :: "'e model"
  ac_schedule :: "'e schedule"
  ac_download :: "'e download_state"
  ac_timeouts :: "('e conn_id \<times> block_range) delay_set"
  ac_watchdogs :: "'e conn_id delay_set"
  ac_sent :: "('e conn_id \<times> message) list"
  ac_lens :: "nat list"

definition REQUEST_TIMEOUT :: nat where
  "REQUEST_TIMEOUT = secs 8"

definition SNUB_TIMEOUT :: nat where
  "SNUB_TIMEOUT = secs 32"

definition actor_new :: "'e model \<Rightarrow> 'e actor" where
  "actor_new m = \<lparr>ac_model = m, ac_schedule = [], ac_download = dw_new, ac_timeouts = ds_new REQUEST_TIMEOUT,
     ac_watchdogs = ds_new SNUB_TIMEOUT, ac_sent = [], ac_lens = []\<rparr>"

section \<open>Changes of the model\<close>

record 'e change =
  ch_chokes :: "'e conn_id set"
  ch_removes :: "info_hash set"

definition change_default :: "'e change" where
  "change_default = \<lparr>ch_chokes = {}, ch_removes = {}\<rparr>"

fun folder_fold :: "'e change option \<Rightarrow> 'e model_update \<Rightarrow> 'e change option" where
  "folder_fold v (FlagChange fl c _) =
     (if fl = PeerChokingF \<or> fl = SnubbingF
      then let ch = (case v of None \<Rightarrow> change_default | Some ch \<Rightarrow> ch) in Some (ch\<lparr>ch_chokes := insert c (ch_chokes ch)\<rparr>)
      else v)"
| "folder_fold v (RemoveTorrent h) =
     (let ch = (case v of None \<Rightarrow> change_default | Some ch \<Rightarrow> ch) in Some (ch\<lparr>ch_removes := insert h (ch_removes ch)\<rparr>))"
| "folder_fold v _ = v"

section \<open>Schedule\<close>

definition schedule_remove_piece :: "'e schedule \<Rightarrow> info_hash \<Rightarrow> piece_index \<Rightarrow> 'e schedule" where
  "schedule_remove_piece schedule h i = filter (\<lambda>(hash, j, _). \<not> (hash = h \<and> j = i)) schedule"

definition schedule_remove_torrent :: "'e schedule \<Rightarrow> info_hash \<Rightarrow> 'e schedule" where
  "schedule_remove_torrent schedule h = filter (\<lambda>(hash, _, _). \<not> hash = h) schedule"

definition broadcast_schedule_len :: "'e actor \<Rightarrow> 'e actor" where
  "broadcast_schedule_len s = s\<lparr>ac_lens := ac_lens s @ [length (ac_schedule s)]\<rparr>"

section \<open>Sending requests\<close>

fun send_pending :: "place \<Rightarrow> int \<Rightarrow> 'e conn_id \<Rightarrow> block_range list \<Rightarrow> 'e actor \<Rightarrow> 'e actor option" where
  "send_pending place now c [] s = Some s"
| "send_pending place now c (blk # pending) s = do {
     let s = s\<lparr>ac_sent := ac_sent s @ [(c, Request blk)]\<rparr>;
     (fresh, timeouts) \<leftarrow> ds_insert_new place (ac_timeouts s) (c, blk) now;
     rs_assert fresh;
     (_, watchdogs) \<leftarrow> ds_insert_new place (ac_watchdogs s) c now;
     send_pending place now c pending (s\<lparr>ac_timeouts := timeouts, ac_watchdogs := watchdogs\<rparr>)
   }"

text \<open>\<open>queue_requests(..).expect("requests")\<close>: the second bind.\<close>

definition send_requests :: "place \<Rightarrow> int \<Rightarrow> 'e conn_id \<Rightarrow> 'e actor \<Rightarrow> 'e actor option" where
  "send_requests place now c s = do {
     (r, download) \<leftarrow> queue_requests (ac_download s) c now;
     pending \<leftarrow> r;
     send_pending place now c pending (s\<lparr>ac_download := download\<rparr>)
   }"

fun send_all :: "place \<Rightarrow> int \<Rightarrow> 'e conn_id list \<Rightarrow> 'e actor \<Rightarrow> 'e actor option" where
  "send_all place now [] s = Some s"
| "send_all place now (c # assigned) s = do {
     s \<leftarrow> send_requests place now c s;
     send_all place now assigned s
   }"

definition assign_then_send_requests :: "place \<Rightarrow> int \<Rightarrow> 'e actor \<Rightarrow> 'e actor option" where
  "assign_then_send_requests place now s = do {
     (assigned, download) \<leftarrow> dw_assign (ac_download s) (ac_model s) (ac_schedule s);
     send_all place now assigned (s\<lparr>ac_download := download\<rparr>)
   }"

section \<open>Requests of the user\<close>

definition ac_assign :: "place \<Rightarrow> int \<Rightarrow> 'e schedule \<Rightarrow> 'e actor \<Rightarrow> 'e actor option" where
  "ac_assign place now schedule s =
     assign_then_send_requests place now (broadcast_schedule_len (s\<lparr>ac_schedule := schedule\<rparr>))"

definition ac_pause :: "place \<Rightarrow> int \<Rightarrow> info_hash \<Rightarrow> 'e actor \<Rightarrow> 'e actor option" where
  "ac_pause place now h s =
     (case dw_pause (ac_download s) h of
        (changed, download) \<Rightarrow>
          let s = s\<lparr>ac_download := download\<rparr> in
          if changed then assign_then_send_requests place now s else Some s)"

definition ac_resume :: "place \<Rightarrow> int \<Rightarrow> info_hash \<Rightarrow> 'e actor \<Rightarrow> 'e actor option" where
  "ac_resume place now h s =
     (case dw_resume (ac_download s) h of
        (changed, download) \<Rightarrow>
          let s = s\<lparr>ac_download := download\<rparr> in
          if changed then assign_then_send_requests place now s else Some s)"

section \<open>Reaction to the model\<close>

definition drop_torrent :: "info_hash \<Rightarrow> 'e actor \<Rightarrow> 'e actor option" where
  "drop_torrent h s = do {
     download \<leftarrow> dw_remove_torrent (ac_download s) h;
     timeouts \<leftarrow> timers_remove_torrent (ac_timeouts s) h;
     watchdogs \<leftarrow> conns_remove_torrent (ac_watchdogs s) h;
     Some (s\<lparr>ac_schedule := schedule_remove_torrent (ac_schedule s) h, ac_download := download,
             ac_timeouts := timeouts, ac_watchdogs := watchdogs\<rparr>)
   }"

definition drop_peer :: "'e conn_id \<Rightarrow> 'e actor \<Rightarrow> (bool \<times> 'e actor) option" where
  "drop_peer c s = do {
     (removed, download) \<leftarrow> dw_remove_peer (ac_download s) c;
     timeouts \<leftarrow> timers_remove_peer (ac_timeouts s) c;
     watchdogs \<leftarrow> conns_remove_peer (ac_watchdogs s) c;
     Some (removed, s\<lparr>ac_download := download, ac_timeouts := timeouts, ac_watchdogs := watchdogs\<rparr>)
   }"

fun drop_torrents :: "info_hash list \<Rightarrow> 'e actor \<Rightarrow> 'e actor option" where
  "drop_torrents [] s = Some s"
| "drop_torrents (h # hs) s = do { s \<leftarrow> drop_torrent h s; drop_torrents hs s }"

definition conn_blocked :: "'e model \<Rightarrow> 'e conn_id \<Rightarrow> bool" where
  "conn_blocked m c \<longleftrightarrow>
     (case conn_get m c of None \<Rightarrow> False | Some st \<Rightarrow> peer_choking (cs_flags st) \<or> snubbing (cs_flags st))"

fun drop_choked :: "'e conn_id list \<Rightarrow> 'e actor \<Rightarrow> 'e actor option" where
  "drop_choked [] s = Some s"
| "drop_choked (c # cs) s =
     (if conn_blocked (ac_model s) c
      then do { (_, s) \<leftarrow> drop_peer c s; drop_choked cs s }
      else drop_choked cs s)"

text \<open>The lists are the sets of the change in the order of iteration.\<close>

definition consume_change :: "place \<Rightarrow> int \<Rightarrow> info_hash list \<Rightarrow> 'e conn_id list \<Rightarrow> 'e actor \<Rightarrow> 'e actor option" where
  "consume_change place now removes chokes s = do {
     let len = length (ac_schedule s);
     s \<leftarrow> drop_torrents removes s;
     let s = (if len \<noteq> length (ac_schedule s) then broadcast_schedule_len s else s);
     s \<leftarrow> drop_choked chokes s;
     assign_then_send_requests place now s
   }"

section \<open>Messages of peers\<close>

text \<open>
  What opening the torrent in the storage, writing the block and, for the last block of a piece, verifying the
  piece came to: an error of one of them, no such torrent, or the result of the verification.
\<close>

datatype storage_outcome = StorageError io_error | TorrentMissing | BlockStored bool

definition piece_verified :: "info_hash \<Rightarrow> piece_index \<Rightarrow> 'e actor \<Rightarrow> 'e actor option" where
  "piece_verified h i s = do {
     (_, m) \<leftarrow> set_self_piece (ac_model s) h i;
     let len = length (ac_schedule s);
     let s = s\<lparr>ac_model := m, ac_schedule := schedule_remove_piece (ac_schedule s) h i\<rparr>;
     Some (if len \<noteq> length (ac_schedule s) then broadcast_schedule_len s else s)
   }"

definition continue_download :: "place \<Rightarrow> int \<Rightarrow> bool \<Rightarrow> 'e conn_id \<Rightarrow> 'e actor \<Rightarrow> 'e actor option" where
  "continue_download place now last_blk c s =
     (if last_blk
      then do {
        s \<leftarrow> assign_then_send_requests place now s;
        if is_assigned (ac_download s) c then Some s
        else do {
          (_, watchdogs) \<leftarrow> ds_remove (ac_watchdogs s) c;
          Some (s\<lparr>ac_watchdogs := watchdogs\<rparr>)
        }
      }
      else send_requests place now c s)"

text \<open>Everything after the block was found to be one we asked for.\<close>

definition store_block ::
    "place \<Rightarrow> int \<Rightarrow> 'e conn_id \<Rightarrow> block_range \<Rightarrow> storage_outcome \<Rightarrow> bool \<Rightarrow> 'e conn_id list \<Rightarrow> 'e actor \<Rightarrow>
     ((io_error + unit) \<times> 'e actor) option" where
  "store_block place now c blk outcome last_blk cancels s = do {
     download \<leftarrow> (if last_blk then dw_remove_piece (ac_download s) (ci_info_hash c) (br_index blk) else Some (ac_download s));
     let s = s\<lparr>ac_download := download, ac_sent := ac_sent s @ map (\<lambda>d. (d, Cancel blk)) cancels\<rparr>;
     (case outcome of
        StorageError e \<Rightarrow> Some (Inl e, s)
      | TorrentMissing \<Rightarrow> Some (Inr (), s)
      | BlockStored verified \<Rightarrow> do {
          s \<leftarrow> (if last_blk \<and> verified then piece_verified (ci_info_hash c) (br_index blk) s else Some s);
          s \<leftarrow> continue_download place now last_blk c s;
          Some (Inr (), s)
        })
   }"

definition recv_block ::
    "place \<Rightarrow> int \<Rightarrow> 'e conn_id \<Rightarrow> block_range \<Rightarrow> storage_outcome \<Rightarrow> 'e actor \<Rightarrow> ((io_error + unit) \<times> 'e actor) option" where
  "recv_block place now c blk outcome s = do {
     (_, timeouts) \<leftarrow> ds_remove (ac_timeouts s) (c, blk);
     let m = snd (conn_set (ac_model s) c SnubbingF False);
     (_, watchdogs) \<leftarrow> ds_update (ac_watchdogs s) c now;
     (r, download) \<leftarrow> dw_recv (ac_download s) c blk;
     let s = s\<lparr>ac_model := m, ac_download := download, ac_timeouts := timeouts, ac_watchdogs := watchdogs\<rparr>;
     (case r of
        None \<Rightarrow> Some (Inr (), s)
      | Some (last_blk, cancels) \<Rightarrow> store_block place now c blk outcome last_blk cancels s)
   }"

definition reject_block :: "place \<Rightarrow> int \<Rightarrow> 'e conn_id \<Rightarrow> block_range \<Rightarrow> 'e actor \<Rightarrow> 'e actor option" where
  "reject_block place now c blk s = do {
     (rejected, download) \<leftarrow> dw_reject place (ac_download s) c blk now;
     let s = s\<lparr>ac_download := download\<rparr>;
     if rejected then send_requests place now c s else Some s
   }"

definition ac_reject :: "place \<Rightarrow> int \<Rightarrow> 'e conn_id \<Rightarrow> block_range \<Rightarrow> 'e actor \<Rightarrow> 'e actor option" where
  "ac_reject place now c blk s = do {
     (_, timeouts) \<leftarrow> ds_remove (ac_timeouts s) (c, blk);
     reject_block place now c blk (s\<lparr>ac_timeouts := timeouts\<rparr>)
   }"

datatype 'e peer_message = PeerConnect "'e conn_id" | PeerDisconnect "'e conn_id" | PeerMessage "'e conn_id" message

definition recv_peer_message ::
    "place \<Rightarrow> int \<Rightarrow> 'e peer_message \<Rightarrow> storage_outcome \<Rightarrow> 'e actor \<Rightarrow> ((io_error + unit) \<times> 'e actor) option" where
  "recv_peer_message place now pm outcome s =
     (case pm of
        PeerConnect _ \<Rightarrow> Some (Inr (), s)
      | PeerDisconnect c \<Rightarrow> do {
          (removed, s) \<leftarrow> drop_peer c s;
          s \<leftarrow> (if removed then assign_then_send_requests place now s else Some s);
          Some (Inr (), s)
        }
      | PeerMessage c msg \<Rightarrow>
          (case msg of
             Piece blk _ \<Rightarrow> recv_block place now c blk outcome s
           | Reject blk \<Rightarrow> map_option (Pair (Inr ())) (ac_reject place now c blk s)
           | _ \<Rightarrow> Some (Inr (), s)))"

section \<open>Timers\<close>

fun timeout_all :: "place \<Rightarrow> int \<Rightarrow> ('e conn_id \<times> block_range) list \<Rightarrow> 'e actor \<Rightarrow> 'e actor option" where
  "timeout_all place now [] s = Some s"
| "timeout_all place now ((c, blk) # timeouts) s = do {
     s \<leftarrow> reject_block place now c blk s;
     timeout_all place now timeouts s
   }"

definition request_timeout :: "place \<Rightarrow> int \<Rightarrow> 'e actor \<Rightarrow> 'e actor option" where
  "request_timeout place now s = do {
     (expired, timeouts) \<leftarrow> drain_expired (ac_timeouts s) now;
     timeout_all place now expired (s\<lparr>ac_timeouts := timeouts\<rparr>)
   }"

definition snub_peers :: "int \<Rightarrow> 'e actor \<Rightarrow> 'e actor option" where
  "snub_peers now s = do {
     (expired, watchdogs) \<leftarrow> drain_expired (ac_watchdogs s) now;
     Some (s\<lparr>ac_model := foldl (\<lambda>m c. snd (conn_set m c SnubbingF True)) (ac_model s) expired, ac_watchdogs := watchdogs\<rparr>)
   }"

end
