(* ===== verification/Scheduler.thy ===== *)
theory Scheduler
  imports Download_Actor "HOL-Library.List_Lexorder" "HOL-Library.Product_Lexorder"
begin

text \<open>
  The scheduler (\<open>src/rust/bt/schedule/src/lib.rs\<close>): which peers can serve which missing pieces of every
  torrent, and the schedule merged from that for the download actor. A hash map is an association list. The
  shuffle of the candidates by the crate \<open>rand\<close> is a parameter: what it makes of the candidates of the n-th entry.
\<close>

section \<open>Data\<close>

type_synonym 'e candidates = "'e conn_pair list"
type_synonym 'e sub_schedule = "(piece_index \<times> 'e candidates) list"
type_synonym 'e sub_schedules = "(info_hash \<times> 'e sub_schedule) list"

record 'e sched_change =
  sc_init_or_remove :: bool
  sc_self_pieces :: bool
  sc_peers :: "'e conn_id set"

definition sched_change_default :: "'e sched_change" where
  "sched_change_default = \<lparr>sc_init_or_remove = False, sc_self_pieces = False, sc_peers = {}\<rparr>"

definition sub_priority :: "piece_index \<times> 'e candidates \<Rightarrow> nat \<times> piece_index" where
  "sub_priority entry = (length (snd entry), fst entry)"

definition priority ::
    "info_hash \<Rightarrow> 'e sub_schedule \<Rightarrow> nat \<Rightarrow> (nat \<times> nat \<times> info_hash \<times> piece_index) option" where
  "priority h sub_sched i = do {
     entry \<leftarrow> rs_index sub_sched i;
     let (num_cands, index) = sub_priority entry;
     Some (num_cands, length sub_sched, h, index)
   }"

section \<open>Changes of the model\<close>

definition change_entry ::
    "(info_hash \<times> 'e sched_change) list option \<Rightarrow> info_hash \<Rightarrow> ('e sched_change \<Rightarrow> 'e sched_change) \<Rightarrow>
     (info_hash \<times> 'e sched_change) list option" where
  "change_entry v h f =
     (let m = (case v of None \<Rightarrow> [] | Some m \<Rightarrow> m);
          ch = (case map_of m h of None \<Rightarrow> sched_change_default | Some ch \<Rightarrow> ch) in
      Some (AList.update h (f ch) m))"

fun sched_fold ::
    "(info_hash \<times> 'e sched_change) list option \<Rightarrow> 'e model_update \<Rightarrow> (info_hash \<times> 'e sched_change) list option" where
  "sched_fold v (InitTorrent h) = change_entry v h (\<lambda>ch. ch\<lparr>sc_init_or_remove := True\<rparr>)"
| "sched_fold v (RemoveTorrent h) = change_entry v h (\<lambda>ch. ch\<lparr>sc_init_or_remove := True\<rparr>)"
| "sched_fold v (SetSelfPiece h _) = change_entry v h (\<lambda>ch. ch\<lparr>sc_self_pieces := True\<rparr>)"
| "sched_fold v (InitPeer c) = change_entry v (ci_info_hash c) (\<lambda>ch. ch\<lparr>sc_peers := insert c (sc_peers ch)\<rparr>)"
| "sched_fold v (SetPeerPiece c _) = change_entry v (ci_info_hash c) (\<lambda>ch. ch\<lparr>sc_peers := insert c (sc_peers ch)\<rparr>)"
| "sched_fold v (DisconnectPeer c) = change_entry v (ci_info_hash c) (\<lambda>ch. ch\<lparr>sc_peers := insert c (sc_peers ch)\<rparr>)"
| "sched_fold v _ = v"

section \<open>Candidates\<close>

definition insert_candidate :: "'e conn_pair \<Rightarrow> 'e candidates \<Rightarrow> bool \<times> 'e candidates" where
  "insert_candidate candidate cs = (if candidate \<in> set cs then (False, cs) else (True, cs @ [candidate]))"

definition remove_candidate :: "'e conn_pair \<Rightarrow> 'e candidates \<Rightarrow> bool \<times> 'e candidates" where
  "remove_candidate candidate cs =
     (case position (\<lambda>cand. cand = candidate) cs of None \<Rightarrow> (False, cs) | Some i \<Rightarrow> (True, swap_remove i cs))"

text \<open>\<open>get_candidates_mut\<close>: the place of the candidates in the sub-schedule.\<close>

definition get_candidates :: "'e sub_schedule \<Rightarrow> piece_index \<Rightarrow> nat option" where
  "get_candidates sub_sched index = position (\<lambda>(i, _). i = index) sub_sched"

section \<open>Sub-schedules\<close>

fun push_haves :: "bitfield \<Rightarrow> 'e conn_pair \<Rightarrow> piece_index list \<Rightarrow> 'e sub_schedule \<Rightarrow> 'e sub_schedule option" where
  "push_haves self_pieces pair [] m = Some m"
| "push_haves self_pieces pair (index # haves) m = do {
     have_piece \<leftarrow> rs_index self_pieces index;
     push_haves self_pieces pair haves
       (if have_piece then m
        else AList.update index ((case map_of m index of None \<Rightarrow> [] | Some cs \<Rightarrow> cs) @ [pair]) m)
   }"

fun push_peers :: "bitfield \<Rightarrow> ('e conn_pair \<times> bitfield) list \<Rightarrow> 'e sub_schedule \<Rightarrow> 'e sub_schedule option" where
  "push_peers self_pieces [] m = Some m"
| "push_peers self_pieces ((pair, peer_pieces) # peers) m = do {
     m \<leftarrow> push_haves self_pieces pair (iter_haves peer_pieces) m;
     push_peers self_pieces peers m
   }"

definition sched_init_torrent :: "'e sub_schedules \<Rightarrow> info_hash \<Rightarrow> 'e torrent \<Rightarrow> (bool \<times> 'e sub_schedules) option" where
  "sched_init_torrent subs h t = do {
     m \<leftarrow> push_peers (tr_self_pieces t) (tr_peer_pieces t) [];
     let sub_sched = filter (\<lambda>(_, cs). cs \<noteq> []) m;
     Some (if sub_sched = [] then (False, subs)
           else (True, AList.update h (sort_key sub_priority sub_sched) subs))
   }"

text \<open>\<open>Vec::retain_mut\<close> with a predicate that may change the candidates and may panic.\<close>

fun retain_entries :: "(piece_index \<Rightarrow> 'e candidates \<Rightarrow> (bool \<times> 'e candidates) option) \<Rightarrow> 'e sub_schedule \<Rightarrow> 'e sub_schedule option" where
  "retain_entries f [] = Some []"
| "retain_entries f ((index, cs) # sub_sched) = do {
     (drop_it, cs) \<leftarrow> f index cs;
     rest \<leftarrow> retain_entries f sub_sched;
     Some (if drop_it then rest else (index, cs) # rest)
   }"

definition sched_remove_if ::
    "'e sub_schedules \<Rightarrow> info_hash \<Rightarrow> (piece_index \<Rightarrow> 'e candidates \<Rightarrow> (bool \<times> 'e candidates) option) \<Rightarrow> 'e sub_schedules option" where
  "sched_remove_if subs h f =
     (case map_of subs h of
        None \<Rightarrow> Some subs
      | Some sub_sched \<Rightarrow> do {
          sub_sched \<leftarrow> retain_entries f sub_sched;
          Some (if sub_sched = [] then AList.delete h subs
                else AList.update h (sort_key sub_priority sub_sched) subs)
        })"

definition remove_self_have :: "'e sub_schedules \<Rightarrow> info_hash \<Rightarrow> 'e torrent \<Rightarrow> 'e sub_schedules option" where
  "remove_self_have subs h t =
     sched_remove_if subs h (\<lambda>index cs. map_option (\<lambda>b. (b, cs)) (rs_index (tr_self_pieces t) index))"

definition sched_remove_peer :: "'e sub_schedules \<Rightarrow> 'e conn_id \<Rightarrow> 'e sub_schedules option" where
  "sched_remove_peer subs c =
     sched_remove_if subs (ci_info_hash c)
       (\<lambda>_ cs. let (_, cs) = remove_candidate (ci_conn_pair c) cs in Some (cs = [], cs))"

definition sched_remove_torrent :: "'e sub_schedules \<Rightarrow> info_hash \<Rightarrow> 'e sub_schedules" where
  "sched_remove_torrent subs h = AList.delete h subs"

text \<open>The loop of \<open>update_peer\<close> over the bits of the peer, from bit \<open>i\<close> on.\<close>

fun update_loop ::
    "bitfield \<Rightarrow> 'e conn_pair \<Rightarrow> nat \<Rightarrow> bool list \<Rightarrow> bool \<Rightarrow> 'e sub_schedule \<Rightarrow> (bool \<times> 'e sub_schedule) option" where
  "update_loop self_pieces pair i [] inserted sub_sched = Some (inserted, sub_sched)"
| "update_loop self_pieces pair i (peer_have # haves) inserted sub_sched =
     (case get_candidates sub_sched i of
        None \<Rightarrow> do {
          have_piece \<leftarrow> rs_index self_pieces i;
          rs_assert have_piece;
          update_loop self_pieces pair (Suc i) haves inserted sub_sched
        }
      | Some j \<Rightarrow>
          let (index, cs) = sub_sched ! j;
              (new, cs) = (if peer_have then insert_candidate pair cs else (False, snd (remove_candidate pair cs))) in
          update_loop self_pieces pair (Suc i) haves (inserted \<or> new) (sub_sched[j := (index, cs)]))"

text \<open>\<open>iter_have_nots().filter(|index| peer_pieces[index])\<close>.\<close>

fun filter_haves :: "bitfield \<Rightarrow> piece_index list \<Rightarrow> piece_index list option" where
  "filter_haves peer_pieces [] = Some []"
| "filter_haves peer_pieces (index # indices) = do {
     b \<leftarrow> rs_index peer_pieces index;
     rest \<leftarrow> filter_haves peer_pieces indices;
     Some (if b then index # rest else rest)
   }"

definition update_peer :: "'e sub_schedules \<Rightarrow> 'e conn_id \<Rightarrow> bitfield \<Rightarrow> bitfield \<Rightarrow> (bool \<times> 'e sub_schedules) option" where
  "update_peer subs c self_pieces peer_pieces =
     (case map_of subs (ci_info_hash c) of
        Some sub_sched \<Rightarrow> do {
          (inserted, sub_sched) \<leftarrow> update_loop self_pieces (ci_conn_pair c) 0 peer_pieces False sub_sched;
          Some (if sub_sched = [] then (False, AList.delete (ci_info_hash c) subs)
                else (inserted, AList.update (ci_info_hash c) (sort_key sub_priority sub_sched) subs))
        }
      | None \<Rightarrow> do {
          indices \<leftarrow> filter_haves peer_pieces (iter_have_nots self_pieces);
          let sub_sched = map (\<lambda>index. (index, [ci_conn_pair c])) indices;
          Some (if sub_sched = [] then (False, subs)
                else (True, AList.update (ci_info_hash c) (sort_key sub_priority sub_sched) subs))
        })"

section \<open>Merging\<close>

fun priorities :: "(info_hash \<times> 'e sub_schedule \<times> nat) list \<Rightarrow> (nat \<times> nat \<times> info_hash \<times> piece_index) list option" where
  "priorities [] = Some []"
| "priorities ((h, sub_sched, i) # subs) = do {
     k \<leftarrow> priority h sub_sched i;
     ks \<leftarrow> priorities subs;
     Some (k # ks)
   }"

definition merge_next :: "(info_hash \<times> 'e sub_schedule \<times> nat) list \<Rightarrow> nat \<Rightarrow> (info_hash \<times> 'e sub_schedule \<times> nat) list" where
  "merge_next subs j =
     (case subs ! j of (h, sub_sched, i) \<Rightarrow>
        if Suc i \<ge> length sub_sched then remove_nth j subs else subs[j := (h, sub_sched, Suc i)])"

lemma priorities_length: "priorities subs = Some ks \<Longrightarrow> length ks = length subs"
  by (induction subs arbitrary: ks rule: priorities.induct) (auto elim!: bind_eq_SomeE)

lemma priorities_nth:
  "priorities subs = Some ks \<Longrightarrow> j < length subs \<Longrightarrow> subs ! j = (h, ss, i) \<Longrightarrow> priority h ss i = Some (ks ! j)"
  by (induction subs arbitrary: ks j rule: priorities.induct) (auto elim!: bind_eq_SomeE simp: nth_Cons split: nat.splits)

lemma merge_next_shrinks:
  assumes "priorities subs = Some ks" "subs \<noteq> []"
  shows "sum_list (map (\<lambda>(h, ss, i). Suc (length ss - i)) (merge_next subs (min_place ks))) < sum_list (map (\<lambda>(h, ss, i). Suc (length ss - i)) subs)"
proof -
  define j where "j = min_place ks"
  have j: "j < length subs" using min_place_less [of ks] priorities_length [OF assms(1)] assms(2) unfolding j_def by (cases ks) auto
  obtain h ss i where e: "subs ! j = (h, ss, i)" by (cases "subs ! j")
  from priorities_nth [OF assms(1) j e] have i: "i < length ss" by (auto simp: priority_def rs_index_def split: if_splits)
  have split: "subs = take j subs @ (h, ss, i) # drop (Suc j) subs" using id_take_nth_drop [OF j] e by simp
  show ?thesis
  proof (cases "Suc i \<ge> length ss")
    case True
    with e have "merge_next subs j = take j subs @ drop (Suc j) subs" by (simp add: merge_next_def remove_nth_def)
    then show ?thesis unfolding j_def [symmetric] by (subst (2) split) simp
  next
    case False
    have "subs[j := (h, ss, Suc i)] = take j subs @ (h, ss, Suc i) # drop (Suc j) subs" by (simp add: upd_conv_take_nth_drop j)
    with False e have "merge_next subs j = take j subs @ (h, ss, Suc i) # drop (Suc j) subs" by (simp add: merge_next_def)
    with i show ?thesis unfolding j_def [symmetric] by (subst (2) split) simp
  qed
qed

function merge_loop ::
    "(nat \<Rightarrow> 'e candidates \<Rightarrow> 'e candidates) \<Rightarrow> nat \<Rightarrow> (info_hash \<times> 'e sub_schedule \<times> nat) list \<Rightarrow> 'e schedule option" where
  "merge_loop shuffle n subs =
     (if subs = [] then Some []
      else do {
        ks \<leftarrow> priorities subs;
        let j = min_place ks;
        let (h, sub_sched, i) = subs ! j;
        entry \<leftarrow> rs_index sub_sched i;
        rest \<leftarrow> merge_loop shuffle (Suc n) (merge_next subs j);
        Some ((h, fst entry, shuffle n (snd entry)) # rest)
      })"
  by pat_completeness auto
termination
  by (relation "measure (\<lambda>(shuffle, n, subs). sum_list (map (\<lambda>(h, ss, i). Suc (length ss - i)) subs))")
    (auto dest: merge_next_shrinks)

declare merge_loop.simps [simp del]

definition merge :: "(nat \<Rightarrow> 'e candidates \<Rightarrow> 'e candidates) \<Rightarrow> 'e sub_schedules \<Rightarrow> 'e schedule option" where
  "merge shuffle subs = do {
     rs_assert (\<forall>(h, sub_sched) \<in> set subs. sub_sched \<noteq> []);
     merge_loop shuffle 0 (map (\<lambda>(h, sub_sched). (h, sub_sched, 0)) subs)
   }"

section \<open>The actor\<close>

text \<open>The schedule handed to the download actor, if any.\<close>

definition sched_assign :: "(nat \<Rightarrow> 'e candidates \<Rightarrow> 'e candidates) \<Rightarrow> 'e sub_schedules \<Rightarrow> 'e schedule option option" where
  "sched_assign shuffle subs =
     (if subs = [] then Some None
      else do {
        schedule \<leftarrow> merge shuffle subs;
        rs_assert (schedule \<noteq> []);
        Some (Some schedule)
      })"

fun scan_loop :: "(info_hash \<times> 'e torrent) list \<Rightarrow> bool \<Rightarrow> 'e sub_schedules \<Rightarrow> (bool \<times> 'e sub_schedules) option" where
  "scan_loop [] inserted subs = Some (inserted, subs)"
| "scan_loop ((h, t) # torrents) inserted subs = do {
     (new, subs) \<leftarrow> sched_init_torrent subs h t;
     scan_loop torrents (inserted \<or> new) subs
   }"

definition scan ::
    "(nat \<Rightarrow> 'e candidates \<Rightarrow> 'e candidates) \<Rightarrow> 'e model \<Rightarrow> 'e sub_schedules \<Rightarrow> ('e schedule option \<times> 'e sub_schedules) option" where
  "scan shuffle m subs = do {
     (inserted, subs) \<leftarrow> scan_loop (md_torrents m) False subs;
     schedule \<leftarrow> (if inserted then sched_assign shuffle subs else Some None);
     Some (schedule, subs)
   }"

fun update_peers :: "'e torrent \<Rightarrow> 'e conn_id list \<Rightarrow> bool \<Rightarrow> 'e sub_schedules \<Rightarrow> (bool \<times> 'e sub_schedules) option" where
  "update_peers t [] inserted subs = Some (inserted, subs)"
| "update_peers t (c # cs) inserted subs =
     (case map_of (tr_peer_pieces t) (ci_conn_pair c) of
        Some peer_pieces \<Rightarrow> do {
          (new, subs) \<leftarrow> update_peer subs c (tr_self_pieces t) peer_pieces;
          update_peers t cs (inserted \<or> new) subs
        }
      | None \<Rightarrow> do {
          subs \<leftarrow> sched_remove_peer subs c;
          update_peers t cs inserted subs
        })"

text \<open>A change as it is consumed: its set of connections in the order of iteration.\<close>

type_synonym 'e consumed = "info_hash \<times> bool \<times> bool \<times> 'e conn_id list"

fun consume_loop :: "'e model \<Rightarrow> 'e consumed list \<Rightarrow> bool \<Rightarrow> 'e sub_schedules \<Rightarrow> (bool \<times> 'e sub_schedules) option" where
  "consume_loop m [] inserted subs = Some (inserted, subs)"
| "consume_loop m ((h, init_or_remove, self_pieces, peers) # changes) inserted subs =
     (case map_of (md_torrents m) h of
        None \<Rightarrow> consume_loop m changes inserted (sched_remove_torrent subs h)
      | Some t \<Rightarrow>
          if init_or_remove
          then do {
            (new, subs) \<leftarrow> sched_init_torrent subs h t;
            consume_loop m changes (inserted \<or> new) subs
          }
          else do {
            subs \<leftarrow> (if self_pieces then remove_self_have subs h t else Some subs);
            (inserted, subs) \<leftarrow> update_peers t peers inserted subs;
            consume_loop m changes inserted subs
          })"

definition consume_changes ::
    "(nat \<Rightarrow> 'e candidates \<Rightarrow> 'e candidates) \<Rightarrow> 'e model \<Rightarrow> 'e consumed list \<Rightarrow> 'e sub_schedules \<Rightarrow>
     ('e schedule option \<times> 'e sub_schedules) option" where
  "consume_changes shuffle m changes subs = do {
     (inserted, subs) \<leftarrow> consume_loop m changes False subs;
     schedule \<leftarrow> (if inserted then sched_assign shuffle subs else Some None);
     Some (schedule, subs)
   }"

end
