(* ===== verification/Download_Actor_Spec.thy ===== *)
theory Download_Actor_Spec
  imports Download_Actor Machine
begin

text \<open>
  The download actor in its environment: whatever order requests, model changes, peer messages and timers come
  in, no handler panics, every outstanding request has exactly one running timeout, and the numbers of
  outstanding requests stay bounded.
\<close>

section \<open>Invariant\<close>

text \<open>
  The requests in \<open>due\<close> have timed out and are still to be rejected; between handlers there are none.
\<close>

definition ac_ok :: "(info_hash \<Rightarrow> layout) \<Rightarrow> int \<Rightarrow> ('e conn_id \<times> block_range) set \<Rightarrow> 'e actor \<Rightarrow> bool" where
  "ac_ok lay t due s \<longleftrightarrow>
     md_inv (ac_model s) \<and> layouts_are lay (ac_model s) \<and> schedule_ok lay (ac_schedule s) \<and>
     dw_ok lay t (ac_download s) \<and>
     ds_inv t (ac_timeouts s) \<and> ds_delay (ac_timeouts s) = REQUEST_TIMEOUT \<and> ds_inv t (ac_watchdogs s) \<and>
     sent (ac_download s) = dom (ds_due (ac_timeouts s)) \<union> due \<and> dom (ds_due (ac_timeouts s)) \<inter> due = {}"

lemma ac_okD:
  assumes "ac_ok lay t due s"
  shows "md_inv (ac_model s)" "layouts_are lay (ac_model s)" "schedule_ok lay (ac_schedule s)"
    and "dw_ok lay t (ac_download s)" "ds_inv t (ac_timeouts s)" "ds_delay (ac_timeouts s) = REQUEST_TIMEOUT"
    and "ds_inv t (ac_watchdogs s)"
    and "sent (ac_download s) = dom (ds_due (ac_timeouts s)) \<union> due" "dom (ds_due (ac_timeouts s)) \<inter> due = {}"
  using assms by (simp_all add: ac_ok_def)

lemma ac_ok_mono: "ac_ok lay t due s \<Longrightarrow> t \<le> t' \<Longrightarrow> ac_ok lay t' due s"
  by (simp add: ac_ok_def) (blast intro: dw_ok_mono tm.mono)

lemma ac_ok_frame [simp]:
  "ac_ok lay t due (s\<lparr>ac_sent := x\<rparr>) = ac_ok lay t due s"
  "ac_ok lay t due (s\<lparr>ac_lens := y\<rparr>) = ac_ok lay t due s"
  "ac_ok lay t due (broadcast_schedule_len s) = ac_ok lay t due s"
  by (simp_all add: ac_ok_def broadcast_schedule_len_def)

lemma ac_ok_schedule: "ac_ok lay t due s \<Longrightarrow> schedule_ok lay sched \<Longrightarrow> ac_ok lay t due (s\<lparr>ac_schedule := sched\<rparr>)"
  by (simp add: ac_ok_def)

lemma schedule_ok_filter: "schedule_ok lay sched \<Longrightarrow> schedule_ok lay (filter P sched)"
  by (auto simp: schedule_ok_def list_all_iff)

text \<open>Nothing is due yet.\<close>

definition timeouts_after :: "int \<Rightarrow> 'e actor \<Rightarrow> bool" where
  "timeouts_after t s \<longleftrightarrow> (\<forall>v d. ds_due (ac_timeouts s) v = Some d \<longrightarrow> t < d)"

section \<open>Sending\<close>

lemma send_pending_ok:
  assumes "placement place"
  shows "ac_ok lay t (due \<union> {c} \<times> set pending) s \<Longrightarrow> distinct pending \<Longrightarrow> {c} \<times> set pending \<inter> due = {} \<Longrightarrow>
    \<exists>s'. send_pending place t c pending s = Some s' \<and> ac_ok lay t due s' \<and> ac_download s' = ac_download s \<and>
      (timeouts_after t s \<longrightarrow> timeouts_after t s')"
proof (induction pending arbitrary: s)
  case (Cons b pending)
  note ok = ac_okD [OF Cons.prems(1)]
  have "(c, b) \<notin> dom (ds_due (ac_timeouts s))" using ok(9) by auto
  then obtain tm where tm: "ds_insert_new place (ac_timeouts s) (c, b) t = Some (True, tm)" "ds_inv t tm"
    "ds_delay tm = ds_delay (ac_timeouts s)" "ds_due tm = (ds_due (ac_timeouts s))((c, b) \<mapsto> t + int (ds_delay (ac_timeouts s)))"
    by (rule tm.put_new_fresh [OF assms ok(5)])
  obtain r wd where wd: "ds_insert_new place (ac_watchdogs s) c t = Some (r, wd)" "ds_inv t wd"
    using tm.put_new_dom [OF assms ok(7), of c] by metis
  let ?s = "s\<lparr>ac_sent := ac_sent s @ [(c, Request b)], ac_timeouts := tm, ac_watchdogs := wd\<rparr>"
  have "ac_ok lay t (due \<union> {c} \<times> set pending) ?s"
    unfolding ac_ok_def using ok tm(2-4) wd(2) Cons.prems(2,3) by auto
  moreover have "timeouts_after t s \<longrightarrow> timeouts_after t ?s"
    using tm(4) ok(6) by (auto simp: timeouts_after_def REQUEST_TIMEOUT_def secs_def split: if_splits)
  ultimately obtain s' where "send_pending place t c pending ?s = Some s'" "ac_ok lay t due s'"
    "ac_download s' = ac_download s" "timeouts_after t s \<longrightarrow> timeouts_after t s'"
    using Cons.IH [of ?s] Cons.prems(2,3) by auto
  with tm(1) wd(1) show ?case by (simp add: Let_def)
qed simp

lemma send_requests_ok:
  assumes "placement place" "ac_ok lay t due s" "is_assigned (ac_download s) c"
  shows "\<exists>s'. send_requests place t c s = Some s' \<and> ac_ok lay t due s' \<and>
    is_assigned (ac_download s') = is_assigned (ac_download s) \<and> (timeouts_after t s \<longrightarrow> timeouts_after t s')"
proof -
  note ok = ac_okD [OF assms(2)]
  obtain pending dl where q: "queue_requests (ac_download s) c t = Some (Some pending, dl)" "dw_ok lay t dl" "distinct pending"
    "{c} \<times> set pending \<inter> sent (ac_download s) = {}" "sent dl = sent (ac_download s) \<union> {c} \<times> set pending"
    "is_assigned dl = is_assigned (ac_download s)"
    using queue_requests_ok [OF ok(4) assms(3)] by blast
  have "ac_ok lay t (due \<union> {c} \<times> set pending) (s\<lparr>ac_download := dl\<rparr>)"
    unfolding ac_ok_def using ok q(2,4,5) by auto
  moreover have "{c} \<times> set pending \<inter> due = {}" using q(4) ok(8) by auto
  ultimately have "\<exists>s'. send_pending place t c pending (s\<lparr>ac_download := dl\<rparr>) = Some s' \<and> ac_ok lay t due s' \<and>
      ac_download s' = ac_download (s\<lparr>ac_download := dl\<rparr>) \<and> (timeouts_after t (s\<lparr>ac_download := dl\<rparr>) \<longrightarrow> timeouts_after t s')"
    by (rule send_pending_ok [OF assms(1) _ q(3)])
  with q(1,6) show ?thesis by (auto simp: send_requests_def timeouts_after_def)
qed

lemma send_all_ok:
  assumes "placement place"
  shows "ac_ok lay t due s \<Longrightarrow> \<forall>c \<in> set cs. is_assigned (ac_download s) c \<Longrightarrow>
    \<exists>s'. send_all place t cs s = Some s' \<and> ac_ok lay t due s'"
proof (induction cs arbitrary: s)
  case (Cons c cs)
  obtain s1 where s1: "send_requests place t c s = Some s1" "ac_ok lay t due s1" "is_assigned (ac_download s1) = is_assigned (ac_download s)"
    using send_requests_ok [OF assms Cons.prems(1), of c] Cons.prems(2) by auto
  with Cons.IH [OF s1(2)] Cons.prems(2) show ?case by auto
qed simp

lemma assign_then_send_ok:
  assumes "placement place" "lay_ok lay" "ac_ok lay t due s"
  shows "\<exists>s'. assign_then_send_requests place t s = Some s' \<and> ac_ok lay t due s'"
proof -
  note ok = ac_okD [OF assms(3)]
  obtain as dl where a: "dw_assign (ac_download s) (ac_model s) (ac_schedule s) = Some (as, dl)" "dw_ok lay t dl"
    "sent dl = sent (ac_download s)" "\<forall>c. is_assigned (ac_download s) c \<or> c \<in> set as \<longrightarrow> is_assigned dl c"
    using dw_assign_ok [OF assms(2) ok(1-4)] by blast
  have "ac_ok lay t due (s\<lparr>ac_download := dl\<rparr>)" unfolding ac_ok_def using ok a(2,3) by simp
  from send_all_ok [OF assms(1) this, of as] a(1,4) show ?thesis by (simp add: assign_then_send_requests_def)
qed

section \<open>Handlers\<close>

lemma pause_ok:
  assumes "placement place" "lay_ok lay" "ac_ok lay t {} s"
  shows "\<exists>s'. ac_pause place t h s = Some s' \<and> ac_ok lay t {} s'" "\<exists>s'. ac_resume place t h s = Some s' \<and> ac_ok lay t {} s'"
proof -
  have *: "ac_ok lay t {} (s\<lparr>ac_download := snd (dw_pause (ac_download s) h)\<rparr>)"
    "ac_ok lay t {} (s\<lparr>ac_download := snd (dw_resume (ac_download s) h)\<rparr>)"
    using ac_okD [OF assms(3)] dw_pause_ok [OF ac_okD(4) [OF assms(3)]] by (simp_all add: ac_ok_def)
  show "\<exists>s'. ac_pause place t h s = Some s' \<and> ac_ok lay t {} s'"
    using *(1) assign_then_send_ok [OF assms(1,2) *(1)] by (cases "dw_pause (ac_download s) h") (auto simp: ac_pause_def Let_def)
  show "\<exists>s'. ac_resume place t h s = Some s' \<and> ac_ok lay t {} s'"
    using *(2) assign_then_send_ok [OF assms(1,2) *(2)] by (cases "dw_resume (ac_download s) h") (auto simp: ac_resume_def Let_def)
qed

lemma drop_torrent_ok:
  assumes "ac_ok lay t {} s"
  shows "\<exists>s'. drop_torrent h s = Some s' \<and> ac_ok lay t {} s'"
proof -
  note ok = ac_okD [OF assms]
  obtain dl where dl: "dw_remove_torrent (ac_download s) h = Some dl" "dw_ok lay t dl"
    "sent dl = {(c, b) \<in> sent (ac_download s). ci_info_hash c \<noteq> h}"
    using dw_remove_torrent_ok [OF ok(4)] by blast
  obtain tm where tm: "timers_remove_torrent (ac_timeouts s) h = Some tm" "ds_inv t tm" "ds_delay tm = ds_delay (ac_timeouts s)"
    "dom (ds_due tm) = {(c, b) \<in> dom (ds_due (ac_timeouts s)). ci_info_hash c \<noteq> h}"
    using timers_remove_ok(2) [OF ok(5)] by blast
  obtain wd where wd: "conns_remove_torrent (ac_watchdogs s) h = Some wd" "ds_inv t wd"
    unfolding conns_remove_torrent_def using tm.keep_due [OF ok(7)] by blast
  have "schedule_ok lay (schedule_remove_torrent (ac_schedule s) h)"
    unfolding schedule_remove_torrent_def by (rule schedule_ok_filter [OF ok(3)])
  with ok dl(2,3) tm(2-4) wd(2) show ?thesis
    unfolding drop_torrent_def dl(1) tm(1) wd(1) by (simp add: ac_ok_def)
qed

lemma drop_peer_ok:
  assumes "ac_ok lay t {} s"
  shows "\<exists>r s'. drop_peer c s = Some (r, s') \<and> ac_ok lay t {} s'"
proof -
  note ok = ac_okD [OF assms]
  obtain r dl where dl: "dw_remove_peer (ac_download s) c = Some (r, dl)" "dw_ok lay t dl" "sent dl = sent (ac_download s) - {c} \<times> UNIV"
    using dw_remove_peer_ok [OF ok(4)] by blast
  obtain tm where tm: "timers_remove_peer (ac_timeouts s) c = Some tm" "ds_inv t tm" "ds_delay tm = ds_delay (ac_timeouts s)"
    "dom (ds_due tm) = dom (ds_due (ac_timeouts s)) - {c} \<times> UNIV"
    using timers_remove_ok(1) [OF ok(5)] by blast
  obtain wd where wd: "conns_remove_peer (ac_watchdogs s) c = Some wd" "ds_inv t wd"
    unfolding conns_remove_peer_def using tm.drop_due [OF ok(7), of c] by auto
  from ok dl(2,3) tm(2-4) wd(2) show ?thesis
    unfolding drop_peer_def dl(1) tm(1) wd(1) by (simp add: ac_ok_def)
qed

lemma drop_torrents_ok: "ac_ok lay t {} s \<Longrightarrow> \<exists>s'. drop_torrents hs s = Some s' \<and> ac_ok lay t {} s'"
proof (induction hs arbitrary: s)
  case (Cons h hs)
  obtain s1 where "drop_torrent h s = Some s1" "ac_ok lay t {} s1" using drop_torrent_ok [OF Cons.prems] by blast
  with Cons.IH show ?case by simp
qed simp

lemma drop_choked_ok: "ac_ok lay t {} s \<Longrightarrow> \<exists>s'. drop_choked cs s = Some s' \<and> ac_ok lay t {} s'"
proof (induction cs arbitrary: s)
  case (Cons c cs)
  obtain r s1 where "drop_peer c s = Some (r, s1)" "ac_ok lay t {} s1" using drop_peer_ok [OF Cons.prems] by blast
  with Cons.IH [of s] Cons.IH [of s1] Cons.prems show ?case by simp
qed simp

lemma consume_change_ok:
  assumes "placement place" "lay_ok lay" "ac_ok lay t {} s"
  shows "\<exists>s'. consume_change place t removes chokes s = Some s' \<and> ac_ok lay t {} s'"
proof -
  obtain s1 where s1: "drop_torrents removes s = Some s1" "ac_ok lay t {} s1" using drop_torrents_ok [OF assms(3)] by blast
  let ?s = "if length (ac_schedule s) \<noteq> length (ac_schedule s1) then broadcast_schedule_len s1 else s1"
  have "ac_ok lay t {} ?s" using s1(2) by simp
  then obtain s2 where s2: "drop_choked chokes ?s = Some s2" "ac_ok lay t {} s2" using drop_choked_ok by blast
  from assign_then_send_ok [OF assms(1,2) s2(2)] s1(1) s2(1) show ?thesis by (simp add: consume_change_def)
qed

section \<open>The shared model\<close>

lemma set_flag_ok:
  assumes "md_inv m" "layouts_are lay m"
  shows "md_inv (snd (conn_set m c fl v))" "layouts_are lay (snd (conn_set m c fl v))"
  using model_step [OF assms, of "OpSetFlag c fl v"] by auto

section \<open>Blocks\<close>

lemma sent_index:
  assumes "dw_ok lay t s" "(c, b) \<in> sent s"
  shows "br_index b < lnum_pieces (lay (ci_info_hash c))"
proof -
  obtain p where p: "map_of (dw_window s) (peer_endpoint c) = Some p" "ps_conn_id p = c" "b \<in> ps_inflights p"
    using assms(2) by (auto simp: sent_iff)
  obtain rs :: "(block_range \<times> nat) list" where rs: "ps_inflights p \<subseteq> dom (map_of rs)"
    "snd (piece_key p) < lnum_pieces (lay (fst (piece_key p)))" "\<And>b n. map_of rs b = Some n \<Longrightarrow> br_index b = ps_index p"
    by (rule queue_of [OF dw_okD(4) [OF assms(1)] p(1)]) blast
  have "br_index b = ps_index p" using rs(1,3) p(3) by blast
  with rs(2) p(2) show ?thesis by (simp add: piece_key_def)
qed

lemma piece_verified_ok:
  assumes "ac_ok lay t {} s" "i < lnum_pieces (lay h)"
  shows "\<exists>s'. piece_verified h i s = Some s' \<and> ac_ok lay t {} s'"
proof -
  note ok = ac_okD [OF assms(1)]
  have adm: "md_adm (ac_model s) (OpSelfPiece h i)"
  proof (cases "map_of (md_torrents (ac_model s)) h")
    case (Some tr)
    then have "lnum_pieces (lay h) = length (tr_self_pieces tr)"
      using md_invD(2) [OF ok(1) Some] ok(2) by (simp add: torrent_ok_def layouts_are_def)
    with Some assms(2) show ?thesis by simp
  qed simp
  obtain r m where m: "set_self_piece (ac_model s) h i = Some (r, m)" "md_inv m" "layouts_are lay m"
    using model_step [OF ok(1,2) adm] by auto
  let ?s = "s\<lparr>ac_model := m, ac_schedule := schedule_remove_piece (ac_schedule s) h i\<rparr>"
  have "schedule_ok lay (schedule_remove_piece (ac_schedule s) h i)"
    unfolding schedule_remove_piece_def by (rule schedule_ok_filter [OF ok(3)])
  then have "ac_ok lay t {} ?s" using ok m(2,3) by (simp add: ac_ok_def)
  then show ?thesis using m(1) by (simp add: piece_verified_def Let_def)
qed

lemma continue_download_ok:
  assumes "placement place" "lay_ok lay" "ac_ok lay t {} s" "\<not> fin \<Longrightarrow> is_assigned (ac_download s) c"
  shows "\<exists>s'. continue_download place t fin c s = Some s' \<and> ac_ok lay t {} s'"
proof (cases fin)
  case True
  obtain s1 where s1: "assign_then_send_requests place t s = Some s1" "ac_ok lay t {} s1"
    using assign_then_send_ok [OF assms(1-3)] by blast
  obtain r wd where wd: "ds_remove (ac_watchdogs s1) c = Some (r, wd)" "ds_inv t wd"
    using tm.drop_due [OF ac_okD(7) [OF s1(2)], of c] by blast
  have "ac_ok lay t {} (s1\<lparr>ac_watchdogs := wd\<rparr>)" using ac_okD [OF s1(2)] wd(2) by (simp add: ac_ok_def)
  with True s1 wd(1) show ?thesis by (simp add: continue_download_def)
next
  case False
  with send_requests_ok [OF assms(1,3) assms(4) [OF False]] show ?thesis by (auto simp: continue_download_def)
qed

lemma store_block_ok:
  assumes "placement place" "lay_ok lay" "ac_ok lay t {} s" "\<not> fin \<Longrightarrow> is_assigned (ac_download s) c"
    and "fin \<Longrightarrow> map_of (dw_requests (ac_download s)) (ci_info_hash c, br_index b) = Some []"
    and "br_index b < lnum_pieces (lay (ci_info_hash c))"
  shows "\<exists>r s'. store_block place t c b outcome fin cancels s = Some (r, s') \<and> ac_ok lay t {} s'"
proof -
  note ok = ac_okD [OF assms(3)]
  obtain dl where dl: "(if fin then dw_remove_piece (ac_download s) (ci_info_hash c) (br_index b) else Some (ac_download s)) = Some dl"
    "dw_ok lay t dl" "sent dl = sent (ac_download s)" "\<not> fin \<Longrightarrow> is_assigned dl c"
    using dw_remove_piece_ok [OF ok(4) assms(5)] ok(4) assms(4) by (cases fin) auto
  let ?s = "s\<lparr>ac_download := dl, ac_sent := ac_sent s @ map (\<lambda>d. (d, Cancel b)) cancels\<rparr>"
  have s: "ac_ok lay t {} ?s" using ok dl(2,3) by (simp add: ac_ok_def)
  show ?thesis
  proof (cases outcome)
    case (BlockStored v)
    obtain s1 where s1: "(if fin \<and> v then piece_verified (ci_info_hash c) (br_index b) ?s else Some ?s) = Some s1" "ac_ok lay t {} s1"
      "\<not> fin \<Longrightarrow> is_assigned (ac_download s1) c"
      using piece_verified_ok [OF s assms(6)] s dl(4) by (cases "fin \<and> v") auto
    obtain s2 where "continue_download place t fin c s1 = Some s2" "ac_ok lay t {} s2"
      using continue_download_ok [where fin = fin, OF assms(1,2) s1(2,3)] by blast
    with dl(1) s1(1) BlockStored show ?thesis by (simp add: store_block_def Let_def)
  qed (use dl(1) s in \<open>simp_all add: store_block_def Let_def\<close>)
qed

lemma recv_block_ok:
  assumes "placement place" "lay_ok lay" "ac_ok lay t {} s"
  shows "\<exists>r s'. recv_block place t c b outcome s = Some (r, s') \<and> ac_ok lay t {} s'"
proof -
  note ok = ac_okD [OF assms(3)]
  obtain r1 tm where tm: "ds_remove (ac_timeouts s) (c, b) = Some (r1, tm)" "ds_inv t tm" "ds_delay tm = ds_delay (ac_timeouts s)"
    "dom (ds_due tm) = dom (ds_due (ac_timeouts s)) - {(c, b)}"
    using tm.drop_dom [OF ok(5)] by metis
  obtain r2 wd where wd: "ds_update (ac_watchdogs s) c t = Some (r2, wd)" "ds_inv t wd" using tm.touch_due [OF ok(7)] by blast
  let ?m = "snd (conn_set (ac_model s) c SnubbingF False)"
  note m = set_flag_ok [OF ok(1,2), of c SnubbingF False]
  let ?s = "\<lambda>dl. s\<lparr>ac_model := ?m, ac_download := dl, ac_timeouts := tm, ac_watchdogs := wd\<rparr>"
  have s: "ac_ok lay t {} (?s dl)" if "dw_ok lay t dl" "sent dl = sent (ac_download s) - {(c, b)}" for dl
    using that ok tm(2-4) wd(2) m by (simp add: ac_ok_def)
  show ?thesis
  proof (cases "(c, b) \<in> sent (ac_download s)")
    case True
    then obtain fin dl where dl: "dw_recv (ac_download s) c b = Some (Some (fin, []), dl)" "dw_ok lay t dl"
      "sent dl = sent (ac_download s) - {(c, b)}" "is_assigned dl = is_assigned (ac_download s)"
      "fin \<longrightarrow> map_of (dw_requests dl) (ci_info_hash c, br_index b) = Some []"
      using dw_recv_ok(1) [OF ok(4)] by blast
    have "\<exists>r s'. store_block place t c b outcome fin [] (?s dl) = Some (r, s') \<and> ac_ok lay t {} s'"
      using store_block_ok [OF assms(1,2) s [OF dl(2,3)]] dl(4,5) sent_assigned [OF True] sent_index [OF ok(4) True] by simp
    with tm(1) wd(1) dl(1) show ?thesis by (simp add: recv_block_def Let_def)
  next
    case False
    then have "ac_ok lay t {} (?s (ac_download s))" using s [OF ok(4)] by simp
    with tm(1) wd(1) dw_recv_ok(2) [OF ok(4) False] show ?thesis by (simp add: recv_block_def Let_def)
  qed
qed

section \<open>Rejections and timeouts\<close>

lemma reject_block_ok:
  assumes "placement place" "ac_ok lay t due s" "(c, b) \<notin> dom (ds_due (ac_timeouts s))"
  shows "\<exists>s'. reject_block place t c b s = Some s' \<and> ac_ok lay t (due - {(c, b)}) s' \<and> (timeouts_after t s \<longrightarrow> timeouts_after t s')"
proof -
  note ok = ac_okD [OF assms(2)]
  obtain dl where dl: "dw_reject place (ac_download s) c b t = Some ((c, b) \<in> sent (ac_download s), dl)" "dw_ok lay t dl"
    "sent dl = sent (ac_download s) - {(c, b)}" "is_assigned dl = is_assigned (ac_download s)"
    using dw_reject_ok [OF ok(4) assms(1)] by blast
  let ?s = "s\<lparr>ac_download := dl\<rparr>"
  have s: "ac_ok lay t (due - {(c, b)}) ?s" unfolding ac_ok_def using ok dl(2,3) assms(3) by auto
  show ?thesis
  proof (cases "(c, b) \<in> sent (ac_download s)")
    case True
    then have "is_assigned (ac_download ?s) c" using dl(4) sent_assigned by simp
    from send_requests_ok [OF assms(1) s this] dl(1) True show ?thesis
      by (auto simp: reject_block_def Let_def timeouts_after_def)
  next
    case False
    with dl(1) s show ?thesis by (simp add: reject_block_def timeouts_after_def)
  qed
qed

lemma ac_reject_ok:
  assumes "placement place" "ac_ok lay t {} s"
  shows "\<exists>s'. ac_reject place t c b s = Some s' \<and> ac_ok lay t {} s'"
proof -
  note ok = ac_okD [OF assms(2)]
  obtain r tm where tm: "ds_remove (ac_timeouts s) (c, b) = Some (r, tm)" "ds_inv t tm" "ds_delay tm = ds_delay (ac_timeouts s)"
    "dom (ds_due tm) = dom (ds_due (ac_timeouts s)) - {(c, b)}"
    using tm.drop_dom [OF ok(5)] by metis
  let ?s = "s\<lparr>ac_timeouts := tm\<rparr>"
  have "ac_ok lay t ({(c, b)} \<inter> sent (ac_download s)) ?s" unfolding ac_ok_def using ok tm(2-4) by auto
  from reject_block_ok [OF assms(1) this, of c b] tm(4)
  obtain s' where "reject_block place t c b ?s = Some s'" "ac_ok lay t ({(c, b)} \<inter> sent (ac_download s) - {(c, b)}) s'" by auto
  moreover have "{(c, b)} \<inter> sent (ac_download s) - {(c, b)} = {}" by blast
  ultimately show ?thesis using tm(1) by (simp add: ac_reject_def)
qed

lemma timeout_all_ok:
  assumes "placement place"
  shows "ac_ok lay t (set xs) s \<Longrightarrow> distinct xs \<Longrightarrow>
    \<exists>s'. timeout_all place t xs s = Some s' \<and> ac_ok lay t {} s' \<and> (timeouts_after t s \<longrightarrow> timeouts_after t s')"
proof (induction xs arbitrary: s)
  case (Cons x xs)
  obtain c b where x: "x = (c, b)" by (cases x)
  have "(c, b) \<notin> dom (ds_due (ac_timeouts s))" using ac_okD(9) [OF Cons.prems(1)] x by auto
  from reject_block_ok [OF assms Cons.prems(1) this] obtain s1 where s1: "reject_block place t c b s = Some s1"
    "ac_ok lay t (set (x # xs) - {(c, b)}) s1" "timeouts_after t s \<longrightarrow> timeouts_after t s1" by blast
  have "set (x # xs) - {(c, b)} = set xs" using Cons.prems(2) x by auto
  with Cons.IH [of s1] s1 Cons.prems(2) x show ?case by auto
qed simp

lemma request_timeout_ok:
  assumes "placement place" "ac_ok lay t {} s"
  shows "\<exists>s'. request_timeout place t s = Some s' \<and> ac_ok lay t {} s' \<and> timeouts_after t s'"
proof -
  note ok = ac_okD [OF assms(2)]
  obtain xs tm where tm: "drain_expired (ac_timeouts s) t = Some (xs, tm)" "ds_inv t tm" "ds_delay tm = ds_delay (ac_timeouts s)"
    "distinct xs" "set xs \<subseteq> dom (ds_due (ac_timeouts s))" "dom (ds_due tm) = dom (ds_due (ac_timeouts s)) - set xs"
    "\<forall>v d. ds_due tm v = Some d \<longrightarrow> t < d"
    by (rule tm.drain_dom [OF ok(5)])
  let ?s = "s\<lparr>ac_timeouts := tm\<rparr>"
  have "ac_ok lay t (set xs) ?s" unfolding ac_ok_def using ok tm(2,3,5,6) by auto
  moreover have "timeouts_after t ?s" using tm(7) by (simp add: timeouts_after_def)
  ultimately show ?thesis using timeout_all_ok [OF assms(1) _ tm(4), of lay t ?s] tm(1) by (auto simp: request_timeout_def)
qed

lemma snub_peers_ok:
  assumes "ac_ok lay t {} s"
  shows "\<exists>s'. snub_peers t s = Some s' \<and> ac_ok lay t {} s'"
proof -
  note ok = ac_okD [OF assms]
  obtain xs wd where wd: "drain_expired (ac_watchdogs s) t = Some (xs, wd)" "ds_inv t wd" using tm.drain_due [OF ok(7)] by blast
  have "md_inv m \<and> layouts_are lay m \<Longrightarrow> md_inv (foldl (\<lambda>m c. snd (conn_set m c SnubbingF True)) m xs) \<and>
      layouts_are lay (foldl (\<lambda>m c. snd (conn_set m c SnubbingF True)) m xs)" for m :: "'a model"
    by (induction xs arbitrary: m) (auto simp: set_flag_ok)
  with ok wd show ?thesis by (simp add: snub_peers_def ac_ok_def)
qed

lemma recv_peer_message_ok:
  assumes "placement place" "lay_ok lay" "ac_ok lay t {} s"
  shows "\<exists>r s'. recv_peer_message place t pm outcome s = Some (r, s') \<and> ac_ok lay t {} s'"
proof (cases pm)
  case (PeerDisconnect c)
  obtain r s1 where s1: "drop_peer c s = Some (r, s1)" "ac_ok lay t {} s1" using drop_peer_ok [OF assms(3)] by blast
  obtain s2 where "assign_then_send_requests place t s1 = Some s2" "ac_ok lay t {} s2" using assign_then_send_ok [OF assms(1,2) s1(2)] by blast
  with PeerDisconnect s1 show ?thesis by (cases r) (simp_all add: recv_peer_message_def)
next
  case (PeerMessage c msg)
  show ?thesis
  proof (cases msg)
    case (Piece b bytes)
    with PeerMessage recv_block_ok [OF assms] show ?thesis by (simp add: recv_peer_message_def)
  next
    case (Reject b)
    obtain s1 where "ac_reject place t c b s = Some s1" "ac_ok lay t {} s1" using ac_reject_ok [OF assms(1,3)] by blast
    with PeerMessage Reject show ?thesis by (simp add: recv_peer_message_def)
  qed (use PeerMessage assms(3) in \<open>simp_all add: recv_peer_message_def\<close>)
qed (use assms in \<open>simp add: recv_peer_message_def\<close>)

section \<open>The actor in its environment\<close>

text \<open>
  The steps of the actor, with the steps that others take on the shared model. The instant of the last step is
  kept beside the actor; an error that ends the actor's loop only removes later steps.
\<close>

datatype 'e ac_op =
    AcAssign "'e schedule"
  | AcPause info_hash
  | AcResume info_hash
  | AcChange "info_hash list" "'e conn_id list"
  | AcPeer "'e peer_message" storage_outcome
  | AcTimeout
  | AcSnub
  | AcModel "'e md_op"

fun ac_handle :: "place \<Rightarrow> int \<Rightarrow> 'e ac_op \<Rightarrow> 'e actor \<Rightarrow> 'e actor option" where
  "ac_handle place t (AcAssign sched) s = ac_assign place t sched s"
| "ac_handle place t (AcPause h) s = ac_pause place t h s"
| "ac_handle place t (AcResume h) s = ac_resume place t h s"
| "ac_handle place t (AcChange removes chokes) s = consume_change place t removes chokes s"
| "ac_handle place t (AcPeer pm outcome) s = map_option snd (recv_peer_message place t pm outcome s)"
| "ac_handle place t AcTimeout s = request_timeout place t s"
| "ac_handle place t AcSnub s = snub_peers t s"
| "ac_handle place t (AcModel p) s = map_option (\<lambda>m. s\<lparr>ac_model := m\<rparr>) (md_exec p (ac_model s))"

fun ac_step :: "place \<Rightarrow> int \<times> 'e ac_op \<Rightarrow> int \<times> 'e actor \<Rightarrow> (int \<times> 'e actor) option" where
  "ac_step place (t, p) (_, s) = map_option (Pair t) (ac_handle place t p s)"

fun op_adm :: "(info_hash \<Rightarrow> layout) \<Rightarrow> 'e ac_op \<Rightarrow> 'e actor \<Rightarrow> bool" where
  "op_adm lay (AcAssign sched) s \<longleftrightarrow> schedule_ok lay sched"
| "op_adm lay (AcModel p) s \<longleftrightarrow> md_adm (ac_model s) p \<and> init_with lay p"
| "op_adm lay _ s \<longleftrightarrow> True"

fun ac_adm :: "(info_hash \<Rightarrow> layout) \<Rightarrow> int \<times> 'e actor \<Rightarrow> int \<times> 'e ac_op \<Rightarrow> bool" where
  "ac_adm lay (clock, s) (t, p) \<longleftrightarrow> clock \<le> t \<and> op_adm lay p s"

fun ac_inv :: "place \<Rightarrow> (info_hash \<Rightarrow> layout) \<Rightarrow> int \<times> 'e actor \<Rightarrow> bool" where
  "ac_inv place lay (clock, s) \<longleftrightarrow> placement place \<and> lay_ok lay \<and> ac_ok lay clock {} s"

lemma ac_handle_ok:
  assumes "placement place" "lay_ok lay" "ac_ok lay t {} s" "op_adm lay p s"
  shows "\<exists>s'. ac_handle place t p s = Some s' \<and> ac_ok lay t {} s'"
proof (cases p)
  case (AcAssign sched)
  then have "ac_ok lay t {} (broadcast_schedule_len (s\<lparr>ac_schedule := sched\<rparr>))" using assms(3,4) by (simp add: ac_ok_schedule)
  from assign_then_send_ok [OF assms(1,2) this] AcAssign show ?thesis by (simp add: ac_assign_def)
next
  case (AcPeer pm outcome)
  obtain r s' where "recv_peer_message place t pm outcome s = Some (r, s')" "ac_ok lay t {} s'"
    using recv_peer_message_ok [OF assms(1-3)] by blast
  with AcPeer show ?thesis by simp
next
  case (AcModel q)
  note ok = ac_okD [OF assms(3)]
  obtain r m where "md_call q (ac_model s) = Some (r, m)" "md_inv m" "layouts_are lay m"
    using model_step [OF ok(1,2), of q] assms(4) AcModel by auto
  with AcModel ok show ?thesis by (simp add: md_exec_def ac_ok_def)
qed (use assms pause_ok [OF assms(1-3)] consume_change_ok [OF assms(1-3)] request_timeout_ok [OF assms(1,3)] snub_peers_ok [OF assms(3)]
    in \<open>auto\<close>)

interpretation ac: guarded_machine "ac_step place" "ac_inv place lay" "ac_adm lay" for place lay
proof
  fix s :: "int \<times> 'e actor" and p :: "int \<times> 'e ac_op"
  assume inv: "ac_inv place lay s" and adm: "ac_adm lay s p"
  obtain clock a t q where sp: "s = (clock, a)" "p = (t, q)" by (cases s; cases p)
  then have "ac_ok lay t {} a" "op_adm lay q a" using inv adm by (auto intro: ac_ok_mono)
  with ac_handle_ok [of place lay t a q] inv sp show "\<exists>s'. ac_step place p s = Some s' \<and> ac_inv place lay s'" by auto
qed

lemma actor_new_facts:
  "layouts_are lay md_new" "sent dw_new = {}" "ds_due (ds_new d) = Map.empty" "ds_delay (ds_new d) = d"
  by (simp_all add: layouts_are_def md_new_def outstanding_def dw_new_def ds_new_def hm_new_ok)

lemma ac_inv_new: "placement place \<Longrightarrow> lay_ok lay \<Longrightarrow> ac_inv place lay (t, actor_new md_new)"
  by (simp add: actor_new_def ac_ok_def schedule_ok_def dw_ok_new ds_inv_new md_inv_new actor_new_facts)

section \<open>Consequences of the invariant\<close>

lemma one_holder:
  assumes "distinct (map fst xs)" "\<And>x. x \<in> set xs \<Longrightarrow> P x \<Longrightarrow> fst x = e"
  shows "length (filter P xs) = of_bool (\<exists>x \<in> set xs. P x)"
proof -
  have d: "distinct (map fst (filter P xs))" using assms(1) by (rule distinct_map_filter)
  have "set (map fst (filter P xs)) \<subseteq> {e}" using assms(2) by auto
  then have "card (set (map fst (filter P xs))) \<le> 1" using card_mono [of "{e}"] by fastforce
  then have "length (filter P xs) \<le> 1" using distinct_card [OF d] by simp
  moreover have "filter P xs = [] \<longleftrightarrow> \<not> (\<exists>x \<in> set xs. P x)" by (auto simp: filter_empty_conv)
  ultimately show ?thesis by (cases "filter P xs") auto
qed

lemma counters_count:
  assumes s: "dw_ok lay t s" and q: "map_of (dw_requests s) (h, i) = Some rs" "map_of rs b = Some n"
  shows "n = length (filter (\<lambda>(e, p). ci_info_hash (ps_conn_id p) = h \<and> b \<in> ps_inflights p) (dw_window s))"
proof -
  let ?P = "\<lambda>(e, p). ci_info_hash (ps_conn_id p) = h \<and> b \<in> ps_inflights p"
  note d = dw_okD [OF s]
  have n: "br_index b = i" "n = of_bool (busy (map_of (dw_window s)) (h, i) b)"
    using window_okD(3) [OF d(4) q(1)] q(2) by (auto simp: queue_ok_def simp del: map_of_eq_Some_iff)
  have lookup: "(e, p) \<in> set (dw_window s) \<longleftrightarrow> map_of (dw_window s) e = Some p" for e p using d(1) by simp
  have key: "piece_key p = (h, i)" if "map_of (dw_window s) e = Some p" "ci_info_hash (ps_conn_id p) = h" "b \<in> ps_inflights p" for e p
    by (rule queue_of [OF d(4) that(1)]) (use that(2,3) n(1) in \<open>auto simp: piece_key_def\<close>)
  have busy: "busy (map_of (dw_window s)) (h, i) b \<longleftrightarrow> (\<exists>x \<in> set (dw_window s). ?P x)"
  proof -
    have "map_of (dw_window s) e = Some p \<and> piece_key p = (h, i) \<and> b \<in> ps_inflights p \<longleftrightarrow>
        (e, p) \<in> set (dw_window s) \<and> ci_info_hash (ps_conn_id p) = h \<and> b \<in> ps_inflights p" for e p
      using key [of e p] lookup [of e p] by (auto simp: piece_key_def)
    then show ?thesis by (simp add: busy_def Bex_def split_paired_Ex)
  qed
  show ?thesis
  proof (cases "\<exists>x \<in> set (dw_window s). ?P x")
    case True
    then obtain e p where e: "map_of (dw_window s) e = Some p" "ci_info_hash (ps_conn_id p) = h" "b \<in> ps_inflights p"
      using lookup by auto
    have "fst x = e" if "x \<in> set (dw_window s)" "?P x" for x
    proof -
      obtain e' p' where x: "x = (e', p')" by (cases x)
      with that have "map_of (dw_window s) e' = Some p'" "b \<in> ps_inflights p'" "ci_info_hash (ps_conn_id p') = ci_info_hash (ps_conn_id p)"
        using lookup e(2) by simp_all
      from sole_holder [OF s e(1,3) this] x show ?thesis by simp
    qed
    from one_holder [where P = ?P, OF d(1) this] n(2) busy show ?thesis by simp
  next
    case False
    then have "filter ?P (dw_window s) = []" by (simp add: filter_empty_conv)
    with False n(2) busy show ?thesis by simp
  qed
qed

lemma sent_bound:
  assumes s: "dw_ok lay t s"
  shows "finite (sent s)" "card (sent s) \<le> length (dw_window s) * INFLIGHT_QUEUE_SIZE"
proof -
  let ?A = "\<lambda>x. {ps_conn_id (snd x)} \<times> ps_inflights (snd x)"
  have lookup: "(e, p) \<in> set (dw_window s) \<longleftrightarrow> map_of (dw_window s) e = Some p" for e p using dw_okD(1) [OF s] by simp
  have entry: "finite (?A x)" "card (?A x) \<le> INFLIGHT_QUEUE_SIZE" if "x \<in> set (dw_window s)" for x
    using entry_okD(2,3) [OF s, of "fst x" "snd x"] that lookup [of "fst x" "snd x"] by (simp_all add: card_cartesian_product)
  have sub: "sent s \<subseteq> (\<Union>x \<in> set (dw_window s). ?A x)" using lookup by (force simp: outstanding_def)
  have fin: "finite (\<Union>x \<in> set (dw_window s). ?A x)" using entry(1) by blast
  show "finite (sent s)" by (rule finite_subset [OF sub fin])
  have "card (sent s) \<le> card (\<Union>x \<in> set (dw_window s). ?A x)" by (rule card_mono [OF fin sub])
  also have "\<dots> \<le> (\<Sum>x \<in> set (dw_window s). card (?A x))" by (rule card_UN_le) simp
  also have "\<dots> \<le> card (set (dw_window s)) * INFLIGHT_QUEUE_SIZE" 
    by (rule order_trans [OF sum_bounded_above [OF entry(2)]]) simp_all
  also have "\<dots> \<le> length (dw_window s) * INFLIGHT_QUEUE_SIZE" by (simp add: card_length)
  finally show "card (sent s) \<le> length (dw_window s) * INFLIGHT_QUEUE_SIZE" .
qed

section \<open>An example\<close>

text \<open>A torrent of two pieces with one peer, and a schedule with the first piece.\<close>

definition lay_ex :: "info_hash \<Rightarrow> layout" where
  "lay_ex _ = layout_ex"

definition opened_ex :: "(int \<times> nat ac_op) list" where
  "opened_ex = [(0, AcModel (OpNewTorrent hash_ex)), (0, AcModel (OpInitTorrent hash_ex layout_ex [False, False])),
     (1, AcModel (OpConnect conn_ex features_ex)), (1, AcModel (OpInitPeer conn_ex [True, True])),
     (2, AcModel (OpSetFlag conn_ex PeerChokingF False))]"

definition model_ex :: "nat model" where
  "model_ex = \<lparr>md_peers = [(hash_ex, {})],
     md_conns = [(hash_ex, [((1, 2), \<lparr>cs_conn_id = conn_ex, cs_peer_features = features_ex, cs_flags = new_flags\<lparr>peer_choking := False\<rparr>\<rparr>)])],
     md_torrents = [(hash_ex, \<lparr>tr_info_hash = hash_ex, tr_layout = layout_ex, tr_self_pieces = [False, False],
        tr_peer_pieces = [((1, 2), [True, True])], tr_peer_stats = {(1, 2)}\<rparr>)],
     md_sent = [NewTorrent hash_ex, InitTorrent hash_ex, ConnectPeer conn_ex, InitPeer conn_ex, FlagChange PeerChokingF conn_ex False]\<rparr>"

definition acts_ex :: "(int \<times> nat ac_op) list" where
  "acts_ex = opened_ex @ [(3, AcAssign [(hash_ex, 0, [(1, 2)])])]"

lemma opened_run: "run_ops (ac_step (#)) opened_ex (0, actor_new md_new) = Some (2, actor_new model_ex)"
  by (simp add: opened_ex_def model_ex_def actor_new_def ops_ex_simps)

lemma opened_adm: "admissible_run (ac_step (#)) (ac_adm lay_ex) acts_ex (0, actor_new md_new)"
proof -
  have "admissible_run (ac_step (#)) (ac_adm lay_ex) opened_ex (0, actor_new md_new)"
    by (simp add: opened_ex_def actor_new_def ops_ex_simps lay_ex_def)
  then show ?thesis
    by (simp add: acts_ex_def admissible_run_append opened_run admissible_run_single schedule_ok_def lay_ex_def layout_ex_def
        del: admissible_run.simps)
qed

lemma layout_blocks_ex: "layout_blocks layout_ex 0 BLOCK_SIZE = Some [BlockRange 0 0 3]"
  by (simp add: layout_blocks_def piece_size_def layout_ex_def BLOCK_SIZE_def u32_max_def u64_max_def
      blocks_from.simps [of 0 3 16384 0] blocks_from.simps [of 0 3 16384 "Suc 0"])

lemma lay_ok_ex: "lay_ok lay_ex"
  by (simp add: lay_ok_def lay_ex_def layout_ok_def layout_ex_def BLOCK_SIZE_def u64_max_def u32_max_def)

definition window_ex :: "block_range set \<Rightarrow> (nat \<times> nat peer_state) list" where
  "window_ex I = [(2, \<lparr>ps_conn_id = conn_ex, ps_index = 0, ps_inflights = I\<rparr>)]"

definition loading_ex :: "block_range set \<Rightarrow> nat \<Rightarrow> nat download_state" where
  "loading_ex I n = dw_new\<lparr>dw_window := window_ex I, dw_requests := [((hash_ex, 0), [(BlockRange 0 0 3, n)])]\<rparr>"

lemma assign_ex: "dw_assign dw_new model_ex [(hash_ex, 0, [(1, 2)])] = Some ([conn_ex], loading_ex {} 0)"
  by (simp add: dw_assign_def dw_new_def model_ex_def loading_ex_def window_ex_def WINDOW_SIZE_def FANOUT_def conn_get_def conn_id_of_def
      conn_ex_def requests_entry_def layout_blocks_ex new_flags_def Let_def)

lemma ds_new_clear: "clear_expired (ds_new d) t = Some (ds_new d :: 'a delay_set)"
proof -
  have "hm_front_entry (ds_set (ds_new d :: 'a delay_set)) = Some None"
    by (rule front_none [OF ds_inv_new [of 0]]) (simp add: ds_new_def hm_new_ok)
  then show ?thesis by (subst clear_expired.simps) simp
qed

lemma ds_new_contains: "ds_contains (ds_new d) v = Some False"
  using tm.contains_iff [OF ds_inv_new [of 0 d], of v] by (simp add: actor_new_facts)

lemma queue_ex: "queue_requests (loading_ex {} 0) conn_ex t = Some (Some [BlockRange 0 0 3], loading_ex {BlockRange 0 0 3} 1)"
  by (simp add: queue_requests_def loading_ex_def window_ex_def dw_new_def ds_new_clear ds_new_contains peer_endpoint_def conn_ex_def piece_key_def
      INFLIGHT_QUEUE_SIZE_def REDUNDANCY_def)

lemma placement_Cons: "placement (#)"
  by (simp add: placement_def)

lemma acts_run: "\<exists>s. run_ops (ac_step (#)) acts_ex (0, actor_new md_new) = Some (3, s) \<and> ac_download s = loading_ex {BlockRange 0 0 3} 1"
proof -
  obtain tm where tm: "ds_insert_new (#) (ds_new REQUEST_TIMEOUT) (conn_ex, BlockRange 0 0 3) 3 = Some (True, tm)"
    using tm.put_new_fresh [OF placement_Cons ds_inv_new [of 3 REQUEST_TIMEOUT], of "(conn_ex, BlockRange 0 0 3)"] by (auto simp: actor_new_facts)
  obtain r wd where wd: "ds_insert_new (#) (ds_new SNUB_TIMEOUT) conn_ex 3 = Some (r, wd)"
    using tm.put_new_dom [OF placement_Cons ds_inv_new [of 3 SNUB_TIMEOUT], of conn_ex] by metis
  show ?thesis
    unfolding acts_ex_def run_ops_append opened_run
    using tm wd by (simp add: ac_assign_def broadcast_schedule_len_def actor_new_def
      assign_then_send_requests_def assign_ex send_requests_def queue_ex del: One_nat_def)
qed

section \<open>Properties\<close>

lemma ac_run:
  assumes "placement place" "lay_ok lay" "admissible_run (ac_step place) (ac_adm lay) ps (t0, actor_new md_new)"
  obtains t s where "run_ops (ac_step place) ps (t0, actor_new md_new) = Some (t, s)" "ac_ok lay t {} s"
  using ac.run_guarded [OF ac_inv_new [OF assms(1,2)] assms(3)] by auto

text \<open>
  C1. The download actor never panics: for every interleaving of schedules, pauses, model changes, peer messages, block
  and piece outcomes, timeouts and snubs with the steps of the shared torrent model, the run succeeds. The schedules must
  name existing pieces, the model's callers keep their obligations, the torrents have well-formed layouts, the clock does
  not go back. In every state reached, the requests that wait for an answer are exactly those with a running timeout.
\<close>

theorem download_actor_safe:
  assumes "placement place" "lay_ok lay" "admissible_run (ac_step place) (ac_adm lay) ps (t0, actor_new md_new)"
  shows "\<exists>t s. run_ops (ac_step place) ps (t0, actor_new md_new) = Some (t, s) \<and>
    sent (ac_download s) = dom (ds_due (ac_timeouts s))"
  by (rule ac_run [OF assms]) (use ac_okD(8) in fastforce)

theorem download_actor_safe_witness:
  "admissible_run (ac_step (#)) (ac_adm lay_ex) acts_ex (0, actor_new md_new) \<and>
    (\<exists>t s. run_ops (ac_step (#)) acts_ex (0, actor_new md_new) = Some (t, s) \<and> sent (ac_download s) = dom (ds_due (ac_timeouts s)))"
  using download_actor_safe [OF placement_Cons lay_ok_ex opened_adm] opened_adm by simp

text \<open>
  C15. The invariant stated beside the download state's fields: for any block, the number stored in the request queue
  equals the number of window entries whose blocks in flight contain it. It holds in every state the actor reaches.
\<close>

theorem request_counters_exact:
  assumes "placement place" "lay_ok lay" "admissible_run (ac_step place) (ac_adm lay) ps (t0, actor_new md_new)"
    and "run_ops (ac_step place) ps (t0, actor_new md_new) = Some (t, s)"
    and "map_of (dw_requests (ac_download s)) (h, i) = Some rs" "map_of rs b = Some n"
  shows "n = length (filter (\<lambda>(e, p). ci_info_hash (ps_conn_id p) = h \<and> b \<in> ps_inflights p) (dw_window (ac_download s)))"
proof (rule ac_run [OF assms(1-3)])
  fix t' s' assume r: "run_ops (ac_step place) ps (t0, actor_new md_new) = Some (t', s')" "ac_ok lay t' {} s'"
  with assms(4) have "s' = s" by simp
  with counters_count [OF ac_okD(4) [OF r(2)]] assms(5,6) show ?thesis by simp
qed

theorem request_counters_exact_witness:
  "\<exists>t s rs. run_ops (ac_step (#)) acts_ex (0, actor_new md_new) = Some (t, s) \<and>
     map_of (dw_requests (ac_download s)) (hash_ex, 0) = Some rs \<and> map_of rs (BlockRange 0 0 3) = Some 1 \<and>
     1 = length (filter (\<lambda>(e, p). ci_info_hash (ps_conn_id p) = hash_ex \<and> BlockRange 0 0 3 \<in> ps_inflights p) (dw_window (ac_download s)))"
proof -
  obtain s where s: "run_ops (ac_step (#)) acts_ex (0, actor_new md_new) = Some (3, s)" "ac_download s = loading_ex {BlockRange 0 0 3} 1"
    using acts_run by blast
  let ?rs = "[(BlockRange 0 0 3, 1)]"
  have rs: "map_of (dw_requests (ac_download s)) (hash_ex, 0) = Some ?rs" using s(2) by (simp add: loading_ex_def)
  have b: "map_of ?rs (BlockRange 0 0 3) = Some 1" by simp
  from request_counters_exact [OF placement_Cons lay_ok_ex opened_adm s(1) rs b] s(1) rs b show ?thesis by blast
qed

text \<open>
  C27. Resource bounds: the window never holds more than 16 peers, no peer has more than 4 requests in flight, so at most
  64 requests wait for an answer, and no piece is loaded from two peers.
\<close>

theorem download_bounds:
  assumes "placement place" "lay_ok lay" "admissible_run (ac_step place) (ac_adm lay) ps (t0, actor_new md_new)"
    and "run_ops (ac_step place) ps (t0, actor_new md_new) = Some (t, s)"
  shows "length (dw_window (ac_download s)) \<le> WINDOW_SIZE \<and>
    (\<forall>e p. map_of (dw_window (ac_download s)) e = Some p \<longrightarrow> card (ps_inflights p) \<le> INFLIGHT_QUEUE_SIZE) \<and>
    card (sent (ac_download s)) \<le> 64 \<and>
    (\<forall>e p e' p'. map_of (dw_window (ac_download s)) e = Some p \<longrightarrow> map_of (dw_window (ac_download s)) e' = Some p' \<longrightarrow>
      piece_key p = piece_key p' \<longrightarrow> e = e')"
proof (rule ac_run [OF assms(1-3)])
  fix t' s' assume r: "run_ops (ac_step place) ps (t0, actor_new md_new) = Some (t', s')" "ac_ok lay t' {} s'"
  note d = ac_okD(4) [OF r(2)]
  have "card (sent (ac_download s')) \<le> 16 * 4"
    by (rule order_trans [OF sent_bound(2) [OF d]]) (use dw_okD(2) [OF d] in \<open>simp add: WINDOW_SIZE_def INFLIGHT_QUEUE_SIZE_def\<close>)
  moreover have "s' = s" using r(1) assms(4) by simp
  ultimately show ?thesis
    using dw_okD(2) [OF d] entry_okD(3) [OF d] window_okD(2) [OF dw_okD(4) [OF d]] by auto
qed

theorem download_bounds_witness:
  "\<exists>t s. run_ops (ac_step (#)) acts_ex (0, actor_new md_new) = Some (t, s) \<and> sent (ac_download s) \<noteq> {} \<and>
     length (dw_window (ac_download s)) \<le> WINDOW_SIZE \<and> card (sent (ac_download s)) \<le> 64"
proof -
  obtain s where s: "run_ops (ac_step (#)) acts_ex (0, actor_new md_new) = Some (3, s)" "ac_download s = loading_ex {BlockRange 0 0 3} 1"
    using acts_run by blast
  have "(conn_ex, BlockRange 0 0 3) \<in> sent (ac_download s)"
    using s(2) by (simp add: outstanding_def loading_ex_def window_ex_def peer_endpoint_def conn_ex_def)
  with s(1) download_bounds [OF placement_Cons lay_ok_ex opened_adm s(1)] show ?thesis by blast
qed

text \<open>
  C28. No request waits longer than the timeout: the timer of every outstanding request is due at most eight seconds after
  the last step, and when the timeout handler has run at an instant, every request still outstanding is due later.
\<close>

theorem requests_expire:
  assumes "placement place" "lay_ok lay" "admissible_run (ac_step place) (ac_adm lay) ps (t0, actor_new md_new)"
    and "run_ops (ac_step place) ps (t0, actor_new md_new) = Some (t, s)" "t \<le> t'"
  shows "(\<forall>r \<in> sent (ac_download s). \<exists>d. ds_due (ac_timeouts s) r = Some d \<and> d \<le> t + 8 * 10 ^ 9) \<and>
    (\<exists>s'. ac_step place (t', AcTimeout) (t, s) = Some (t', s') \<and>
      (\<forall>r \<in> sent (ac_download s'). \<exists>d. ds_due (ac_timeouts s') r = Some d \<and> t' < d))"
proof (rule ac_run [OF assms(1-3)])
  fix t1 s1 assume r: "run_ops (ac_step place) ps (t0, actor_new md_new) = Some (t1, s1)" "ac_ok lay t1 {} s1"
  with assms(4) have ok: "ac_ok lay t {} s" by simp
  have "\<exists>d. ds_due (ac_timeouts s) r = Some d \<and> d \<le> t + 8 * 10 ^ 9" if out: "r \<in> sent (ac_download s)" for r
  proof -
    obtain d where d: "ds_due (ac_timeouts s) r = Some d" using out ac_okD(8) [OF ok] by auto
    from tm.due_bound [OF ac_okD(5) [OF ok] d] ac_okD(6) [OF ok] d show ?thesis by (simp add: REQUEST_TIMEOUT_def secs_def)
  qed
  moreover obtain s' where s': "request_timeout place t' s = Some s'" "ac_ok lay t' {} s'" "timeouts_after t' s'"
    using request_timeout_ok [OF assms(1) ac_ok_mono [OF ok assms(5)]] by blast
  have "\<exists>d. ds_due (ac_timeouts s') r = Some d \<and> t' < d" if "r \<in> sent (ac_download s')" for r
    using that ac_okD(8) [OF s'(2)] s'(3) unfolding timeouts_after_def by fastforce
  ultimately show ?thesis using s'(1) by auto
qed

theorem requests_expire_witness:
  "\<exists>t s s'. run_ops (ac_step (#)) acts_ex (0, actor_new md_new) = Some (t, s) \<and> sent (ac_download s) \<noteq> {} \<and>
     ac_step (#) (9, AcTimeout) (t, s) = Some (9, s') \<and> (\<forall>r \<in> sent (ac_download s'). \<exists>d. ds_due (ac_timeouts s') r = Some d \<and> 9 < d)"
proof -
  obtain s where s: "run_ops (ac_step (#)) acts_ex (0, actor_new md_new) = Some (3, s)" "ac_download s = loading_ex {BlockRange 0 0 3} 1"
    using acts_run by blast
  have "(conn_ex, BlockRange 0 0 3) \<in> sent (ac_download s)"
    using s(2) by (simp add: outstanding_def loading_ex_def window_ex_def peer_endpoint_def conn_ex_def)
  moreover have le: "(3 :: int) \<le> 9" by simp
  ultimately show ?thesis using s(1) requests_expire [OF placement_Cons lay_ok_ex opened_adm s(1) le] by blast
qed

end
