(* ===== verification/Scheduler_Spec.thy ===== *)
theory Scheduler_Spec
  imports Scheduler Download_Actor_Spec
begin

text \<open>
  What the scheduler computes: the merged schedule is every entry of every torrent in the order of the
  priorities; the sub-schedules keep their documented invariant; what is handed to the download actor is
  admissible there; and when \<open>update_peer\<close> panics.
\<close>

section \<open>Merging\<close>

definition keeps_elements :: "(nat \<Rightarrow> 'e candidates \<Rightarrow> 'e candidates) \<Rightarrow> bool" where
  "keeps_elements shuffle \<longleftrightarrow> (\<forall>n cs. mset (shuffle n cs) = mset cs)"

text \<open>An entry with the hash and the length of its sub-schedule, and its priority.\<close>

type_synonym 'e item = "info_hash \<times> nat \<times> piece_index \<times> 'e candidates"

definition item_priority :: "'e item \<Rightarrow> nat \<times> nat \<times> info_hash \<times> piece_index" where
  "item_priority x = (case x of (h, len, index, cs) \<Rightarrow> (length cs, len, h, index))"

fun sub_items :: "info_hash \<times> 'e sub_schedule \<times> nat \<Rightarrow> 'e item list" where
  "sub_items (h, ss, i) = map (\<lambda>(index, cs). (h, length ss, index, cs)) (drop i ss)"

definition items :: "(info_hash \<times> 'e sub_schedule \<times> nat) list \<Rightarrow> 'e item list" where
  "items subs = concat (map sub_items subs)"

definition cursor_ok :: "info_hash \<times> 'e sub_schedule \<times> nat \<Rightarrow> bool" where
  "cursor_ok x \<longleftrightarrow> (case x of (h, ss, i) \<Rightarrow> i < length ss \<and> sorted (map sub_priority ss))"

definition same_entry :: "info_hash \<times> piece_index \<times> 'e conn_pair list \<Rightarrow> 'e item \<Rightarrow> bool" where
  "same_entry e x \<longleftrightarrow> (case e of (h, i, cs) \<Rightarrow> case x of (h', _, i', cs') \<Rightarrow> h = h' \<and> i = i' \<and> mset cs = mset cs')"

lemma priorities_ok: "list_all cursor_ok subs \<Longrightarrow> \<exists>ks. priorities subs = Some ks"
  by (induction subs rule: priorities.induct) (auto simp: cursor_ok_def priority_def Let_def split: prod.splits)

lemma head_item:
  assumes "cursor_ok (h, ss, i)"
  shows "sub_items (h, ss, i) = (h, length ss, ss ! i) # sub_items (h, ss, Suc i)"
    and "priority h ss i = Some (item_priority (h, length ss, ss ! i))"
    and "x \<in> set (sub_items (h, ss, i)) \<Longrightarrow> item_priority (h, length ss, ss ! i) \<le> item_priority x"
proof -
  have i: "i < length ss" and sorted: "sorted (map sub_priority ss)" using assms by (simp_all add: cursor_ok_def)
  show "sub_items (h, ss, i) = (h, length ss, ss ! i) # sub_items (h, ss, Suc i)"
    using Cons_nth_drop_Suc [OF i] by (simp add: case_prod_unfold flip: Cons_nth_drop_Suc [OF i])
  show "priority h ss i = Some (item_priority (h, length ss, ss ! i))"
    using i by (simp add: priority_def item_priority_def sub_priority_def split: prod.split)
  assume "x \<in> set (sub_items (h, ss, i))"
  then obtain k where k: "i \<le> k" "k < length ss" "x = (h, length ss, ss ! k)"
    by (auto simp: in_set_conv_nth) (metis add.commute le_add2 less_diff_conv)
  have "sub_priority (ss ! i) \<le> sub_priority (ss ! k)"
    using sorted_nth_mono [OF sorted k(1)] k(2) i by simp
  then show "item_priority (h, length ss, ss ! i) \<le> item_priority x"
    unfolding k(3) by (auto simp: item_priority_def sub_priority_def less_eq_prod_def split: prod.splits)
qed

lemma merge_next_ok:
  assumes "list_all cursor_ok subs" "j < length subs" "subs ! j = (h, ss, i)"
  shows "list_all cursor_ok (merge_next subs j)" "mset (items subs) = add_mset (h, length ss, ss ! i) (mset (items (merge_next subs j)))"
proof -
  have c: "cursor_ok (h, ss, i)" using assms by (metis list_all_length)
  have split: "subs = take j subs @ (h, ss, i) # drop (Suc j) subs" using id_take_nth_drop [OF assms(2)] assms(3) by simp
  have nxt: "merge_next subs j = (if Suc i \<ge> length ss then take j subs @ drop (Suc j) subs
      else take j subs @ (h, ss, Suc i) # drop (Suc j) subs)"
    using assms(2,3) by (simp add: merge_next_def remove_nth_def upd_conv_take_nth_drop)
  have parts: "list_all cursor_ok (take j subs)" "list_all cursor_ok (drop (Suc j) subs)"
    using assms(1) by (auto simp: list_all_iff dest: in_set_takeD in_set_dropD)
  show "list_all cursor_ok (merge_next subs j)" using c parts by (auto simp: nxt cursor_ok_def)
  have "items (take j subs @ (h, ss, i) # drop (Suc j) subs) =
      items (take j subs) @ (h, length ss, ss ! i) # sub_items (h, ss, Suc i) @ items (drop (Suc j) subs)"
    using head_item(1) [OF c] by (simp add: items_def)
  then have "mset (items subs) = add_mset (h, length ss, ss ! i) (mset (items (take j subs)) +
      mset (sub_items (h, ss, Suc i)) + mset (items (drop (Suc j) subs)))"
    by (subst split) simp
  moreover have "sub_items (h, ss, Suc i) = []" if "Suc i \<ge> length ss" using that by simp
  ultimately show "mset (items subs) = add_mset (h, length ss, ss ! i) (mset (items (merge_next subs j)))"
    by (simp add: nxt items_def)
qed

lemma merge_loop_ok:
  "keeps_elements shuffle \<Longrightarrow> list_all cursor_ok subs \<Longrightarrow> \<exists>out xs. merge_loop shuffle n subs = Some out \<and> mset xs = mset (items subs) \<and>
    sorted (map item_priority xs) \<and> list_all2 same_entry out xs"
proof (induction shuffle n subs rule: merge_loop.induct)
  case (1 shuffle n subs)
  show ?case
  proof (cases "subs = []")
    case True
    then show ?thesis by (simp add: merge_loop.simps items_def)
  next
    case False
    obtain ks where ks: "priorities subs = Some ks" using priorities_ok [OF 1(3)] by blast
    define j where "j = min_place ks"
    have ne: "ks \<noteq> []" using priorities_length [OF ks] False by auto
    then have j: "j < length subs" using min_place_less priorities_length [OF ks] unfolding j_def by metis
    obtain h ss i where e: "subs ! j = (h, ss, i)" by (cases "subs ! j")
    have c: "cursor_ok (h, ss, i)" using 1(3) j e by (metis list_all_length)
    note nxt = merge_next_ok [OF 1(3) j e]
    let ?x = "(h, length ss, ss ! i)"
    obtain out xs where r: "merge_loop shuffle (Suc n) (merge_next subs j) = Some out" "mset xs = mset (items (merge_next subs j))"
      "sorted (map item_priority xs)" "list_all2 same_entry out xs"
      using 1(1) [OF False ks j_def refl e [symmetric] refl rs_index_Some 1(2) nxt(1)] c by (auto simp: cursor_ok_def)
    have least: "item_priority ?x \<le> item_priority y" if "y \<in> set (items subs)" for y
    proof -
      obtain k h' ss' i' where k: "k < length subs" "subs ! k = (h', ss', i')" "y \<in> set (sub_items (h', ss', i'))"
        using \<open>y \<in> set (items subs)\<close> by (auto simp: items_def in_set_conv_nth [of _ subs] simp del: sub_items.simps)
      have c': "cursor_ok (h', ss', i')" using 1(3) k(1,2) by (metis list_all_length)
      have "item_priority ?x = ks ! j" "item_priority (h', length ss', ss' ! i') = ks ! k"
        using priorities_nth [OF ks j e] priorities_nth [OF ks k(1,2)] head_item(2) [OF c] head_item(2) [OF c'] by simp_all
      moreover have "ks ! j \<le> ks ! k" using min_place_le [OF ne] k(1) priorities_length [OF ks] unfolding j_def by simp
      ultimately show ?thesis using head_item(3) [OF c' k(3)] by simp
    qed
    have "merge_loop shuffle n subs = Some ((h, fst (ss ! i), shuffle n (snd (ss ! i))) # out)"
      using False ks r(1) e c unfolding j_def by (subst merge_loop.simps) (simp add: cursor_ok_def)
    moreover have m: "mset (?x # xs) = mset (items subs)" using nxt(2) r(2) by simp
    moreover have "set xs \<subseteq> set (items subs)" using mset_eq_setD [OF m] by auto
    then have "sorted (map item_priority (?x # xs))" using r(3) least by auto
    moreover have "same_entry (h, fst (ss ! i), shuffle n (snd (ss ! i))) ?x"
      using 1(2) by (simp add: same_entry_def keeps_elements_def split: prod.split)
    ultimately show ?thesis using r(4) by (metis list_all2_Cons)
  qed
qed

section \<open>The documented invariant\<close>

text \<open>
  A sub-schedule is non-empty and sorted, names each piece once, and only pieces of its torrent.
\<close>

definition sub_ok :: "(info_hash \<Rightarrow> layout) \<Rightarrow> info_hash \<Rightarrow> 'e sub_schedule \<Rightarrow> bool" where
  "sub_ok lay h ss \<longleftrightarrow> ss \<noteq> [] \<and> sorted (map sub_priority ss) \<and> distinct (map fst ss) \<and>
     (\<forall>x \<in> set ss. fst x < lnum_pieces (lay h))"

definition subs_ok :: "(info_hash \<Rightarrow> layout) \<Rightarrow> 'e sub_schedules \<Rightarrow> bool" where
  "subs_ok lay subs \<longleftrightarrow> distinct (map fst subs) \<and> (\<forall>(h, ss) \<in> set subs. sub_ok lay h ss)"

definition all_items :: "'e sub_schedules \<Rightarrow> 'e item list" where
  "all_items subs = items (map (\<lambda>(h, ss). (h, ss, 0)) subs)"

definition item_piece :: "'e item \<Rightarrow> info_hash \<times> piece_index" where
  "item_piece x = (case x of (h, _, i, _) \<Rightarrow> (h, i))"

lemma all_items_simps:
  "all_items [] = []"
  "all_items ((h, ss) # subs) = map (\<lambda>(i, cs). (h, length ss, i, cs)) ss @ all_items subs"
  by (simp_all add: all_items_def items_def)

lemma all_items_piece:
  "x \<in> set (all_items subs) \<Longrightarrow> \<exists>ss. (fst (item_piece x), ss) \<in> set subs \<and> snd (item_piece x) \<in> fst ` set ss"
  by (induction subs) (force simp: all_items_simps item_piece_def)+

lemma item_pieces_distinct:
  assumes "subs_ok lay subs"
  shows "distinct (map item_piece (all_items subs))"
  using assms
proof (induction subs)
  case (Cons e subs)
  obtain h ss where e: "e = (h, ss)" by (cases e)
  have ok: "subs_ok lay subs" "h \<notin> fst ` set subs" "distinct (map fst ss)"
    using Cons.prems e by (auto simp: subs_ok_def sub_ok_def)
  have first: "map item_piece (map (\<lambda>(i, cs). (h, length ss, i, cs)) ss) = map (Pair h) (map fst ss)"
    by (simp add: item_piece_def case_prod_unfold comp_def)
  have "distinct (map (Pair h) (map fst ss))" using ok(3) by (subst distinct_map) (simp add: inj_on_def)
  moreover have "set (map (Pair h) (map fst ss)) \<inter> set (map item_piece (all_items subs)) = {}"
  proof -
    have "fst k \<noteq> h" if k: "k \<in> set (map item_piece (all_items subs))" for k
      using k ok(2) by (auto dest!: all_items_piece) force
    moreover have "fst k = h" if "k \<in> set (map (Pair h) (map fst ss))" for k using that by auto
    ultimately show ?thesis by blast
  qed
  ultimately show ?case unfolding e all_items_simps map_append distinct_append first using Cons.IH [OF ok(1)] by blast
qed (simp add: all_items_simps)

lemma item_priority_inj:
  assumes "subs_ok lay subs"
  shows "inj_on item_priority (set (all_items subs))"
proof -
  have "inj_on item_piece (set (all_items subs))" using item_pieces_distinct [OF assms] by (simp add: distinct_map)
  moreover have "item_priority x = item_priority y \<Longrightarrow> item_piece x = item_piece y" for x y :: "'a item"
    by (auto simp: item_priority_def item_piece_def split: prod.splits)
  ultimately show ?thesis unfolding inj_on_def by blast
qed

lemma same_entries: "list_all2 same_entry out xs \<Longrightarrow>
    map (\<lambda>(h, i, cs). (h, i, mset cs)) out = map (\<lambda>(h, len, i, cs). (h, i, mset cs)) xs"
  by (induction rule: list_all2_induct) (auto simp: same_entry_def)

lemma merge_ok:
  assumes "keeps_elements shuffle" "subs_ok lay subs"
  shows "\<exists>out. merge shuffle subs = Some out \<and>
    map (\<lambda>(h, i, cs). (h, i, mset cs)) out = map (\<lambda>(h, len, i, cs). (h, i, mset cs)) (sort_key item_priority (all_items subs))"
proof -
  have "list_all cursor_ok (map (\<lambda>(h, ss). (h, ss, 0)) subs)"
    using assms(2) by (auto simp: list_all_iff cursor_ok_def subs_ok_def sub_ok_def)
  then obtain out xs where r: "merge_loop shuffle 0 (map (\<lambda>(h, ss). (h, ss, 0)) subs) = Some out" "mset xs = mset (all_items subs)"
    "sorted (map item_priority xs)" "list_all2 same_entry out xs"
    using merge_loop_ok [OF assms(1)] unfolding all_items_def by blast
  have "sort_key item_priority (all_items subs) = xs"
    by (rule sort_key_inj_key_eq [OF r(2) [symmetric] item_priority_inj [OF assms(2)] r(3)])
  moreover have "\<forall>(h, ss) \<in> set subs. ss \<noteq> []" using assms(2) by (auto simp: subs_ok_def sub_ok_def)
  ultimately show ?thesis using r(1) same_entries [OF r(4)] by (auto simp: merge_def)
qed

text \<open>What the download actor needs of a schedule.\<close>

lemma merge_schedule_ok:
  assumes "subs_ok lay subs" "subs \<noteq> []"
    and "map (\<lambda>(h, i, cs). (h, i, mset cs)) out = map (\<lambda>(h, len, i, cs). (h, i, mset cs)) (sort_key item_priority (all_items subs))"
  shows "schedule_ok lay out" "out \<noteq> []" "distinct (map (\<lambda>(h, i, _). (h, i)) out)"
proof -
  have pieces: "map (\<lambda>(h, i, _). (h, i)) out = map item_piece (sort_key item_priority (all_items subs))"
    using arg_cong [OF assms(3), of "map (\<lambda>(h, i, _). (h, i))"] by (simp add: case_prod_unfold comp_def item_piece_def)
  show "distinct (map (\<lambda>(h, i, _). (h, i)) out)"
    unfolding pieces using item_pieces_distinct [OF assms(1)] by (simp add: distinct_map)
  have "i < lnum_pieces (lay h)" if out: "(h, i, cs) \<in> set out" for h i cs
  proof -
    have "(h, i) \<in> set (map (\<lambda>(h, i, _). (h, i)) out)" using out by force
    then obtain x where "x \<in> set (all_items subs)" "item_piece x = (h, i)" unfolding pieces by auto
    from all_items_piece [OF this(1)] this(2) obtain ss where "(h, ss) \<in> set subs" "i \<in> fst ` set ss" by auto
    then show ?thesis using assms(1) by (auto simp: subs_ok_def sub_ok_def)
  qed
  then show "schedule_ok lay out" by (auto simp: schedule_ok_def list_all_iff)
  have "all_items subs \<noteq> []" using assms(1,2) by (cases subs) (auto simp: all_items_simps subs_ok_def sub_ok_def)
  then have "length (map item_piece (sort_key item_priority (all_items subs))) \<noteq> 0" by simp
  then show "out \<noteq> []" unfolding pieces [symmetric] by auto
qed

section \<open>Every operation keeps the invariant\<close>

lemma sub_ok_sort:
  assumes "ss \<noteq> []" "distinct (map fst ss)" "fst ` set ss \<subseteq> {..<lnum_pieces (lay h)}"
  shows "sub_ok lay h (sort_key sub_priority ss)"
proof -
  have "mset (map fst (sort_key sub_priority ss)) = mset (map fst ss)" by simp
  then have "distinct (map fst (sort_key sub_priority ss))" using assms(2) mset_eq_imp_distinct_iff by blast
  moreover have "sort_key sub_priority ss \<noteq> []" using assms(1) by (metis length_0_conv length_sort)
  ultimately show ?thesis using assms(3) by (auto simp: sub_ok_def)
qed

lemma sub_ok_keys: "sub_ok lay h ss \<Longrightarrow> distinct (map fst ss) \<and> fst ` set ss \<subseteq> {..<lnum_pieces (lay h)}"
  by (auto simp: sub_ok_def)

lemma subs_ok_lookup: "subs_ok lay subs \<Longrightarrow> map_of subs h = Some ss \<Longrightarrow> sub_ok lay h ss"
  by (auto simp: subs_ok_def dest: map_of_SomeD)

lemma subs_ok_update:
  assumes "subs_ok lay subs" "sub_ok lay h ss"
  shows "subs_ok lay (AList.update h ss subs)"
proof -
  show ?thesis using assms update_entries [of h ss subs] by (auto simp: subs_ok_def)
qed

lemma subs_ok_delete: "subs_ok lay subs \<Longrightarrow> subs_ok lay (AList.delete h subs)"
  by (auto simp: subs_ok_def AList.delete_eq distinct_map_filter)

lemma push_haves_ok:
  "push_haves sp pair haves m = Some m' \<Longrightarrow> distinct (map fst m) \<Longrightarrow> fst ` set m \<subseteq> {..<length sp} \<Longrightarrow>
     distinct (map fst m') \<and> fst ` set m' \<subseteq> {..<length sp}"
proof (induction haves arbitrary: m)
  case (Cons index haves)
  have index: "index < length sp" using Cons.prems(1) by (auto simp: rs_index_def split: if_splits)
  show ?case
  proof (cases "sp ! index")
    case True
    with Cons index show ?thesis by (simp add: rs_index_def)
  next
    case False
    let ?m = "AList.update index ((case map_of m index of None \<Rightarrow> [] | Some cs \<Rightarrow> cs) @ [pair]) m"
    have "push_haves sp pair haves ?m = Some m'" using Cons.prems(1) index False by (simp add: rs_index_def)
    from Cons.IH [OF this] Cons.prems(2,3) index show ?thesis by (simp add: update_keys distinct_update)
  qed
qed simp

lemma push_peers_ok:
  "push_peers sp peers m = Some m' \<Longrightarrow> distinct (map fst m) \<Longrightarrow> fst ` set m \<subseteq> {..<length sp} \<Longrightarrow>
     distinct (map fst m') \<and> fst ` set m' \<subseteq> {..<length sp}"
proof (induction peers arbitrary: m)
  case (Cons e peers)
  obtain pair pp where e: "e = (pair, pp)" by (cases e)
  obtain m1 where m1: "push_haves sp pair (iter_haves pp) m = Some m1" "push_peers sp peers m1 = Some m'"
    using Cons.prems(1) unfolding e by (cases "push_haves sp pair (iter_haves pp) m") simp_all
  from push_haves_ok [OF m1(1) Cons.prems(2,3)] Cons.IH [OF m1(2)] show ?case by simp
qed simp

lemma init_torrent_ok:
  assumes "sched_init_torrent subs h t = Some (r, subs')" "subs_ok lay subs" "length (tr_self_pieces t) = lnum_pieces (lay h)"
  shows "subs_ok lay subs' \<and> (r \<longrightarrow> subs' \<noteq> [])"
proof -
  obtain m where m: "push_peers (tr_self_pieces t) (tr_peer_pieces t) [] = Some m"
    "(r, subs') = (if filter (\<lambda>(_, cs). cs \<noteq> []) m = [] then (False, subs)
       else (True, AList.update h (sort_key sub_priority (filter (\<lambda>(_, cs). cs \<noteq> []) m)) subs))"
    using assms(1) unfolding sched_init_torrent_def Let_def
    by (cases "push_peers (tr_self_pieces t) (tr_peer_pieces t) []") simp_all
  have "distinct (map fst m)" "fst ` set m \<subseteq> {..<lnum_pieces (lay h)}" using push_peers_ok [OF m(1)] assms(3) by simp_all
  then have "filter (\<lambda>(_, cs). cs \<noteq> []) m \<noteq> [] \<Longrightarrow> sub_ok lay h (sort_key sub_priority (filter (\<lambda>(_, cs). cs \<noteq> []) m))"
    by (intro sub_ok_sort) (auto simp: distinct_map_filter)
  with m(2) assms(2) show ?thesis by (auto simp: subs_ok_update split: if_splits)
qed

lemma retain_entries_ok:
  "retain_entries f ss = Some ss' \<Longrightarrow> set (map fst ss') \<subseteq> set (map fst ss) \<and> (distinct (map fst ss) \<longrightarrow> distinct (map fst ss'))"
proof (induction f ss arbitrary: ss' rule: retain_entries.induct)
  case (2 f index cs ss)
  then obtain d cs' rest where r: "f index cs = Some (d, cs')" "retain_entries f ss = Some rest" "ss' = (if d then rest else (index, cs') # rest)"
    by (auto elim!: bind_eq_SomeE)
  with 2(1) [OF r(1)] show ?case by auto
qed simp

lemma remove_if_ok:
  assumes "sched_remove_if subs h f = Some subs'" "subs_ok lay subs"
  shows "subs_ok lay subs'"
proof (cases "map_of subs h")
  case (Some ss)
  obtain rest where r: "retain_entries f ss = Some rest"
    "subs' = (if rest = [] then AList.delete h subs else AList.update h (sort_key sub_priority rest) subs)"
    using assms(1) Some unfolding sched_remove_if_def by (cases "retain_entries f ss") simp_all
  have "rest \<noteq> [] \<Longrightarrow> sub_ok lay h (sort_key sub_priority rest)"
    using retain_entries_ok [OF r(1)] sub_ok_keys [OF subs_ok_lookup [OF assms(2) Some]]
    by (intro sub_ok_sort) (simp_all, blast)
  with r(2) assms(2) show ?thesis by (simp add: subs_ok_update subs_ok_delete)
qed (use assms in \<open>simp add: sched_remove_if_def\<close>)

lemma update_loop_keys:
  "update_loop sp pair i haves ins ss = Some (ins', ss') \<Longrightarrow> map fst ss' = map fst ss"
proof (induction sp pair i haves ins ss rule: update_loop.induct)
  case (2 sp pair i peer_have haves ins ss)
  show ?case
  proof (cases "get_candidates ss i")
    case None
    with 2 show ?thesis by (auto elim!: bind_eq_SomeE)
  next
    case (Some j)
    obtain index cs where e: "ss ! j = (index, cs)" by (cases "ss ! j")
    obtain new cs' where n: "(if peer_have then insert_candidate pair cs else (False, snd (remove_candidate pair cs))) = (new, cs')"
      by (cases "if peer_have then insert_candidate pair cs else (False, snd (remove_candidate pair cs))")
    have "map fst (ss[j := (index, cs')]) = map fst ss"
      using e by (simp add: map_update) (metis fst_conv list_update_id map_update)
    with 2(2) [OF Some refl e [symmetric] n [symmetric] refl] 2(3) Some e n show ?thesis by (simp add: Let_def)
  qed
qed simp

lemma filter_haves_Some: "filter_haves pp js = Some ks \<Longrightarrow> ks = filter ((!) pp) js"
  by (induction js arbitrary: ks) (auto simp: rs_index_def split: if_splits elim!: bind_eq_SomeE)

lemma update_peer_ok:
  assumes "update_peer subs c sp pp = Some (r, subs')" "subs_ok lay subs" "length sp = lnum_pieces (lay (ci_info_hash c))"
  shows "subs_ok lay subs' \<and> (r \<longrightarrow> subs' \<noteq> [])"
proof (cases "map_of subs (ci_info_hash c)")
  case (Some ss)
  obtain ins ss' where u: "update_loop sp (ci_conn_pair c) 0 pp False ss = Some (ins, ss')"
    "(r, subs') = (if ss' = [] then (False, AList.delete (ci_info_hash c) subs) else (ins, AList.update (ci_info_hash c) (sort_key sub_priority ss') subs))"
    using assms(1) Some unfolding update_peer_def
    by (cases "update_loop sp (ci_conn_pair c) 0 pp False ss"; cases "the (update_loop sp (ci_conn_pair c) 0 pp False ss)") simp_all
  note ok = sub_ok_keys [OF subs_ok_lookup [OF assms(2) Some]]
  have "ss' \<noteq> [] \<Longrightarrow> sub_ok lay (ci_info_hash c) (sort_key sub_priority ss')"
  proof (rule sub_ok_sort)
    show "distinct (map fst ss')" using update_loop_keys [OF u(1)] ok by simp
    have "fst ` set ss' = fst ` set ss" using arg_cong [OF update_loop_keys [OF u(1)], of set] by simp
    then show "fst ` set ss' \<subseteq> {..<lnum_pieces (lay (ci_info_hash c))}" using ok by simp
  qed
  with u(2) assms(2) show ?thesis by (auto simp: subs_ok_update subs_ok_delete split: if_splits)
next
  case None
  obtain js where j: "filter_haves pp (iter_have_nots sp) = Some js"
    "(r, subs') = (if map (\<lambda>index. (index, [ci_conn_pair c])) js = [] then (False, subs)
       else (True, AList.update (ci_info_hash c) (sort_key sub_priority (map (\<lambda>index. (index, [ci_conn_pair c])) js)) subs))"
    using assms(1) None unfolding update_peer_def Let_def by (cases "filter_haves pp (iter_have_nots sp)") simp_all
  have "set js \<subseteq> {..<length sp}" "distinct js"
    using filter_haves_Some [OF j(1)] by (auto simp: iter_have_nots_def)
  then have "js \<noteq> [] \<Longrightarrow> sub_ok lay (ci_info_hash c) (sort_key sub_priority (map (\<lambda>index. (index, [ci_conn_pair c])) js))"
    using assms(3) by (intro sub_ok_sort) (auto simp: comp_def)
  with j(2) assms(2) show ?thesis by (auto simp: subs_ok_update split: if_splits)
qed

section \<open>Scanning returns\<close>

text \<open>A model whose hash maps have each key once, in its invariant and with the given layouts.\<close>

definition scannable :: "(info_hash \<Rightarrow> layout) \<Rightarrow> 'e model \<Rightarrow> bool" where
  "scannable lay m \<longleftrightarrow> md_inv m \<and> layouts_are lay m \<and> distinct (map fst (md_torrents m)) \<and>
     (\<forall>(h, t) \<in> set (md_torrents m). distinct (map fst (tr_peer_pieces t)))"

definition torrent_fits :: "(info_hash \<Rightarrow> layout) \<Rightarrow> info_hash \<times> 'e torrent \<Rightarrow> bool" where
  "torrent_fits lay x \<longleftrightarrow> (case x of (h, t) \<Rightarrow> length (tr_self_pieces t) = lnum_pieces (lay h) \<and>
     (\<forall>b \<in> snd ` set (tr_peer_pieces t). length b = length (tr_self_pieces t)))"

lemma scannable_fits:
  assumes "scannable lay m" "(h, t) \<in> set (md_torrents m)"
  shows "torrent_fits lay (h, t)"
proof -
  have "map_of (md_torrents m) h = Some t" using assms by (simp add: scannable_def)
  with assms have t: "torrent_ok (conn_get m) h t" "tr_layout t = lay h" unfolding scannable_def md_inv_def layouts_are_def by blast+
  moreover have "length b = length (tr_self_pieces t)" if b: "(p, b) \<in> set (tr_peer_pieces t)" for p b
  proof -
    have "distinct (map fst (tr_peer_pieces t))" using assms unfolding scannable_def by blast
    then have "map_of (tr_peer_pieces t) p = Some b" using b by simp
    with t(1) show ?thesis unfolding torrent_ok_def by blast
  qed
  ultimately show ?thesis unfolding torrent_fits_def torrent_ok_def by auto
qed

lemma push_haves_returns: "set haves \<subseteq> {..<length sp} \<Longrightarrow> \<exists>m'. push_haves sp pair haves m = Some m'"
  by (induction haves arbitrary: m) auto

lemma push_peers_returns: "\<forall>b \<in> snd ` set peers. length b = length sp \<Longrightarrow> \<exists>m'. push_peers sp peers m = Some m'"
proof (induction peers arbitrary: m)
  case (Cons e peers)
  obtain pair b where e: "e = (pair, b)" by (cases e)
  have "set (iter_haves b) \<subseteq> {..<length sp}" using Cons.prems e by (auto simp: iter_haves_def)
  then obtain m1 where "push_haves sp pair (iter_haves b) m = Some m1" using push_haves_returns by blast
  moreover obtain m2 where "push_peers sp peers m1 = Some m2" using Cons by fastforce
  ultimately show ?case by (simp add: e)
qed simp

lemma init_torrent_returns: "torrent_fits lay (h, t) \<Longrightarrow> \<exists>r. sched_init_torrent subs h t = Some r"
  using push_peers_returns [of "tr_peer_pieces t" "tr_self_pieces t" "[]"] unfolding torrent_fits_def sched_init_torrent_def Let_def by fastforce

lemma scan_loop_ok:
  "list_all (torrent_fits lay) ts \<Longrightarrow> subs_ok lay subs \<Longrightarrow> \<exists>ins' subs'. scan_loop ts ins subs = Some (ins', subs') \<and> subs_ok lay subs'"
proof (induction ts arbitrary: ins subs)
  case (Cons e ts)
  obtain h t where e: "e = (h, t)" by (cases e)
  have fits: "torrent_fits lay (h, t)" using Cons.prems(1) e by simp
  obtain new subs1 where r: "sched_init_torrent subs h t = Some (new, subs1)" using init_torrent_returns [OF fits] by fastforce
  have "subs_ok lay subs1" using init_torrent_ok [OF r Cons.prems(2)] fits by (simp add: torrent_fits_def)
  with Cons.IH [of subs1 "ins \<or> new"] Cons.prems(1) r e show ?case by simp
qed simp

lemma sched_assign_ok:
  assumes "keeps_elements shuffle" "subs_ok lay subs"
  shows "\<exists>out. sched_assign shuffle subs = Some out \<and>
    (\<forall>sched. out = Some sched \<longrightarrow> sched \<noteq> [] \<and> schedule_ok lay sched \<and> distinct (map (\<lambda>(h, i, _). (h, i)) sched))"
proof (cases "subs = []")
  case False
  obtain out where out: "merge shuffle subs = Some out"
    "map (\<lambda>(h, i, cs). (h, i, mset cs)) out = map (\<lambda>(h, len, i, cs). (h, i, mset cs)) (sort_key item_priority (all_items subs))"
    using merge_ok [OF assms] by blast
  with merge_schedule_ok [OF assms(2) False out(2)] False show ?thesis by (simp add: sched_assign_def)
qed (simp add: sched_assign_def)

section \<open>Consuming keeps the invariant\<close>

lemma remove_peer_ok: "sched_remove_peer subs c = Some subs' \<Longrightarrow> subs_ok lay subs \<Longrightarrow> subs_ok lay subs'"
  unfolding sched_remove_peer_def by (rule remove_if_ok)

lemma update_peers_ok:
  "update_peers t cs ins subs = Some (ins', subs') \<Longrightarrow> subs_ok lay subs \<Longrightarrow> length (tr_self_pieces t) = lnum_pieces (lay h) \<Longrightarrow>
    \<forall>c \<in> set cs. ci_info_hash c = h \<Longrightarrow> subs_ok lay subs'"
proof (induction cs arbitrary: ins subs)
  case (Cons c cs)
  show ?case
  proof (cases "map_of (tr_peer_pieces t) (ci_conn_pair c)")
    case None
    obtain subs1 where r: "sched_remove_peer subs c = Some subs1" "update_peers t cs ins subs1 = Some (ins', subs')"
      using Cons.prems(1) None by (cases "sched_remove_peer subs c") simp_all
    from Cons.IH [OF r(2) remove_peer_ok [OF r(1) Cons.prems(2)]] Cons.prems show ?thesis by simp
  next
    case (Some b)
    obtain new subs1 where r: "update_peer subs c (tr_self_pieces t) b = Some (new, subs1)" "update_peers t cs (ins \<or> new) subs1 = Some (ins', subs')"
      using Cons.prems(1) Some by (cases "update_peer subs c (tr_self_pieces t) b"; cases "the (update_peer subs c (tr_self_pieces t) b)") simp_all
    have "subs_ok lay subs1" using update_peer_ok [OF r(1) Cons.prems(2)] Cons.prems(3,4) by simp
    from Cons.IH [OF r(2) this] Cons.prems show ?thesis by simp
  qed
qed simp

definition consumed_ok :: "'e consumed \<Rightarrow> bool" where
  "consumed_ok x \<longleftrightarrow> (case x of (h, _, _, cs) \<Rightarrow> \<forall>c \<in> set cs. ci_info_hash c = h)"

lemma consume_loop_ok:
  assumes "scannable lay m"
  shows "consume_loop m changes ins subs = Some (ins', subs') \<Longrightarrow> subs_ok lay subs \<Longrightarrow> list_all consumed_ok changes \<Longrightarrow> subs_ok lay subs'"
proof (induction changes arbitrary: ins subs)
  case (Cons e changes)
  obtain h ior self cs where e: "e = (h, ior, self, cs)" by (cases e)
  have rest: "list_all consumed_ok changes" using Cons.prems(3) by simp
  note IH = Cons.IH [OF _ _ rest]
  show ?case
  proof (cases "map_of (md_torrents m) h")
    case None
    then have "consume_loop m changes ins (AList.delete h subs) = Some (ins', subs')"
      using Cons.prems(1) e by (simp add: sched_remove_torrent_def)
    from IH [OF this subs_ok_delete [OF Cons.prems(2)]] show ?thesis .
  next
    case (Some t)
    have len: "length (tr_self_pieces t) = lnum_pieces (lay h)"
      using scannable_fits [OF assms map_of_SomeD [OF Some]] by (simp add: torrent_fits_def)
    show ?thesis
    proof (cases ior)
      case True
      obtain new subs1 where r: "sched_init_torrent subs h t = Some (new, subs1)" "consume_loop m changes (ins \<or> new) subs1 = Some (ins', subs')"
        using Cons.prems(1) e Some True by (cases "sched_init_torrent subs h t"; cases "the (sched_init_torrent subs h t)") simp_all
      from IH [OF r(2)] init_torrent_ok [OF r(1) Cons.prems(2) len] show ?thesis by blast
    next
      case False
      let ?f = "if self then remove_self_have subs h t else Some subs"
      obtain subs1 where s1: "?f = Some subs1" using Cons.prems(1) e Some False by (cases ?f) simp_all
      obtain ins2 subs2 where r: "update_peers t cs ins subs1 = Some (ins2, subs2)" "consume_loop m changes ins2 subs2 = Some (ins', subs')"
        using Cons.prems(1) e Some False s1 by (cases "update_peers t cs ins subs1"; cases "the (update_peers t cs ins subs1)") simp_all
      have "subs_ok lay subs1" using s1 Cons.prems(2) remove_if_ok unfolding remove_self_have_def by (auto split: if_splits)
      with update_peers_ok [OF r(1)] len Cons.prems(3) e have "subs_ok lay subs2" by (simp add: consumed_ok_def)
      from IH [OF r(2) this] show ?thesis .
    qed
  qed
qed simp

text \<open>The changes folded from the model's updates name only connections of their torrent.\<close>

definition changes_ok :: "(info_hash \<times> 'e sched_change) list \<Rightarrow> bool" where
  "changes_ok m \<longleftrightarrow> (\<forall>e \<in> set m. \<forall>c \<in> sc_peers (snd e). ci_info_hash c = fst e)"

lemma change_entry_ok:
  assumes "\<forall>m. v = Some m \<longrightarrow> changes_ok m"
    and "\<And>ch. \<forall>c \<in> sc_peers ch. ci_info_hash c = h \<Longrightarrow> \<forall>c \<in> sc_peers (f ch). ci_info_hash c = h"
    and "change_entry v h f = Some m'"
  shows "changes_ok m'"
proof -
  define m where "m = (case v of None \<Rightarrow> [] | Some m \<Rightarrow> m)"
  define ch where "ch = (case map_of m h of None \<Rightarrow> sched_change_default | Some ch \<Rightarrow> ch)"
  have m: "changes_ok m" 
  proof (cases v)
    case None
    then show ?thesis by (simp add: m_def changes_ok_def)
  next
    case (Some x)
    with assms(1) show ?thesis by (simp add: m_def)
  qed
  have "\<forall>c \<in> sc_peers ch. ci_info_hash c = h"
  proof (cases "map_of m h")
    case (Some x)
    with m map_of_SomeD [OF Some] show ?thesis unfolding ch_def changes_ok_def by fastforce
  qed (simp add: ch_def sched_change_default_def)
  from assms(2) [OF this] m have "changes_ok (AList.update h (f ch) m)"
    unfolding changes_ok_def by (induction m) auto
  with assms(3) show ?thesis by (simp add: change_entry_def ch_def m_def Let_def)
qed

lemma fold_hashes: "foldl sched_fold None us = Some m \<Longrightarrow> changes_ok m"
proof (induction us arbitrary: m rule: rev_induct)
  case (snoc u us)
  have prev: "\<forall>m. foldl sched_fold None us = Some m \<longrightarrow> changes_ok m" using snoc.IH by blast
  have *: "changes_ok m" if "change_entry (foldl sched_fold None us) h (\<lambda>ch. ch\<lparr>sc_init_or_remove := True\<rparr>) = Some m" for h
    by (rule change_entry_ok [OF prev _ that]) simp
  have **: "changes_ok m" if "change_entry (foldl sched_fold None us) h (\<lambda>ch. ch\<lparr>sc_self_pieces := True\<rparr>) = Some m" for h
    by (rule change_entry_ok [OF prev _ that]) simp
  have ***: "changes_ok m"
    if "change_entry (foldl sched_fold None us) (ci_info_hash c) (\<lambda>ch. ch\<lparr>sc_peers := insert c (sc_peers ch)\<rparr>) = Some m" for c
    by (rule change_entry_ok [OF prev _ that]) simp
  show ?case using snoc.prems prev by (cases u) (auto dest: * ** ***)
qed simp

section \<open>Runs of the scheduler\<close>

datatype 'e sched_op =
    ScScan "nat \<Rightarrow> 'e candidates \<Rightarrow> 'e candidates" "'e model"
  | ScConsume "nat \<Rightarrow> 'e candidates \<Rightarrow> 'e candidates" "'e model" "'e consumed list"

fun sched_emit :: "('e schedule option \<times> 'e sub_schedules) option \<Rightarrow> 'e schedule list \<Rightarrow> ('e sub_schedules \<times> 'e schedule list) option" where
  "sched_emit None out = None"
| "sched_emit (Some (None, subs)) out = Some (subs, out)"
| "sched_emit (Some (Some sched, subs)) out = Some (subs, out @ [sched])"

fun sched_exec :: "'e sched_op \<Rightarrow> 'e sub_schedules \<times> 'e schedule list \<Rightarrow> ('e sub_schedules \<times> 'e schedule list) option" where
  "sched_exec (ScScan shuffle m) (subs, out) = sched_emit (scan shuffle m subs) out"
| "sched_exec (ScConsume shuffle m changes) (subs, out) = sched_emit (consume_changes shuffle m changes subs) out"

fun sched_adm :: "(info_hash \<Rightarrow> layout) \<Rightarrow> 'e sched_op \<Rightarrow> bool" where
  "sched_adm lay (ScScan shuffle m) \<longleftrightarrow> keeps_elements shuffle \<and> scannable lay m"
| "sched_adm lay (ScConsume shuffle m changes) \<longleftrightarrow> keeps_elements shuffle \<and> scannable lay m \<and> list_all consumed_ok changes"

definition sched_ok :: "(info_hash \<Rightarrow> layout) \<Rightarrow> 'e schedule \<Rightarrow> bool" where
  "sched_ok lay sched \<longleftrightarrow> sched \<noteq> [] \<and> schedule_ok lay sched \<and> distinct (map (\<lambda>(h, i, _). (h, i)) sched)"

lemma assign_emit:
  assumes "keeps_elements shuffle" "subs_ok lay subs" "list_all (sched_ok lay) out"
  shows "\<exists>out'. sched_emit (do { schedule \<leftarrow> (if ins then sched_assign shuffle subs else Some None); Some (schedule, subs) }) out = Some (subs, out') \<and>
    list_all (sched_ok lay) out'"
proof -
  obtain r where "sched_assign shuffle subs = Some r" "\<forall>sched. r = Some sched \<longrightarrow> sched_ok lay sched"
    using sched_assign_ok [OF assms(1,2)] unfolding sched_ok_def by blast
  with assms(3) show ?thesis by (cases r) simp_all
qed

lemma scan_ok:
  assumes "keeps_elements shuffle" "scannable lay m" "subs_ok lay subs" "list_all (sched_ok lay) out"
  shows "\<exists>subs' out'. sched_emit (scan shuffle m subs) out = Some (subs', out') \<and> subs_ok lay subs' \<and> list_all (sched_ok lay) out'"
proof -
  have "list_all (torrent_fits lay) (md_torrents m)" unfolding list_all_iff using scannable_fits [OF assms(2)] by auto
  from scan_loop_ok [OF this assms(3), of False] obtain ins subs' where r: "scan_loop (md_torrents m) False subs = Some (ins, subs')" "subs_ok lay subs'"
    by blast
  have "scan shuffle m subs = do { schedule \<leftarrow> (if ins then sched_assign shuffle subs' else Some None); Some (schedule, subs') }"
    using r(1) by (simp add: scan_def)
  with assign_emit [OF assms(1) r(2) assms(4), of ins] r(2) show ?thesis by metis
qed

lemma consume_ok:
  assumes "keeps_elements shuffle" "scannable lay m" "list_all consumed_ok changes" "subs_ok lay subs" "list_all (sched_ok lay) out"
    and "sched_emit (consume_changes shuffle m changes subs) out = Some (subs', out')"
  shows "subs_ok lay subs' \<and> list_all (sched_ok lay) out'"
proof (cases "consume_loop m changes False subs")
  case (Some r)
  obtain ins subs1 where r: "r = (ins, subs1)" by (cases r)
  have ok: "subs_ok lay subs1" using consume_loop_ok [OF assms(2) _ assms(4,3)] Some r by blast
  from assign_emit [OF assms(1) ok assms(5), of ins] assms(6) ok Some r show ?thesis by (auto simp: consume_changes_def)
qed (use assms(6) in \<open>simp add: consume_changes_def\<close>)

lemma sched_run_ok:
  "run_ops sched_exec ops (subs, out) = Some (subs', out') \<Longrightarrow> list_all (sched_adm lay) ops \<Longrightarrow> subs_ok lay subs \<Longrightarrow> list_all (sched_ok lay) out \<Longrightarrow>
    subs_ok lay subs' \<and> list_all (sched_ok lay) out'"
proof (induction ops arbitrary: subs out)
  case (Cons p ops)
  obtain subs1 out1 where r: "sched_exec p (subs, out) = Some (subs1, out1)" "run_ops sched_exec ops (subs1, out1) = Some (subs', out')"
    using Cons.prems(1) by (cases "sched_exec p (subs, out)"; cases "the (sched_exec p (subs, out))") simp_all
  have "subs_ok lay subs1 \<and> list_all (sched_ok lay) out1"
  proof (cases p)
    case (ScScan shuffle m)
    with scan_ok [of shuffle lay m subs out] r(1) Cons.prems show ?thesis by auto
  next
    case (ScConsume shuffle m changes)
    with consume_ok [of shuffle lay m changes subs out subs1 out1] r(1) Cons.prems show ?thesis by simp
  qed
  with Cons.IH [OF r(2)] Cons.prems(2) show ?case by simp
qed simp

section \<open>When a peer's update panics\<close>

lemma get_candidates_None: "get_candidates ss i = None \<longleftrightarrow> i \<notin> fst ` set ss"
  by (force simp: get_candidates_def position_None)

lemma update_first: "map fst (ss[j := (fst (ss ! j), cs)]) = map fst ss"
  by (metis fst_conv list_update_id map_update)

definition unwanted :: "bitfield \<Rightarrow> 'e sub_schedule \<Rightarrow> nat \<Rightarrow> bool" where
  "unwanted sp ss k \<longleftrightarrow> k \<in> fst ` set ss \<or> (k < length sp \<and> sp ! k)"

lemma update_loop_panics:
  "update_loop sp pair i haves ins ss = None \<longleftrightarrow> \<not> list_all (unwanted sp ss) [i..<i + length haves]"
proof (induction haves arbitrary: i ins ss)
  case (Cons peer_have haves)
  have first: "list_all P [i..<i + length (peer_have # haves)] \<longleftrightarrow> P i \<and> list_all P [Suc i..<Suc i + length haves]" for P
    by (simp add: upt_conv_Cons del: upt_Suc)
  show ?case
  proof (cases "get_candidates ss i")
    case None
    then have "unwanted sp ss i \<longleftrightarrow> i < length sp \<and> sp ! i" by (simp add: get_candidates_None unwanted_def)
    with None Cons.IH [of "Suc i" ins ss] show ?thesis unfolding first by (cases "i < length sp"; cases "sp ! i") (simp_all add: rs_assert_def)
  next
    case (Some j)
    then have i: "unwanted sp ss i" using get_candidates_None [of ss i] by (simp add: unwanted_def)
    obtain index cs where e: "ss ! j = (index, cs)" by (cases "ss ! j")
    obtain new cs' where n: "(if peer_have then insert_candidate pair cs else (False, snd (remove_candidate pair cs))) = (new, cs')"
      by (cases "if peer_have then insert_candidate pair cs else (False, snd (remove_candidate pair cs))")
    have "fst ` set (ss[j := (index, cs')]) = fst ` set ss"
      using arg_cong [OF update_first [of ss j cs'], of set] e by simp
    then have "unwanted sp (ss[j := (index, cs')]) = unwanted sp ss" by (simp add: unwanted_def fun_eq_iff)
    with Some e n Cons.IH [of "Suc i" "ins \<or> new" "ss[j := (index, cs')]"] i show ?thesis unfolding first by simp
  qed
qed simp

section \<open>Properties\<close>

text \<open>
  C16. Merging is sorting: for sub-schedules in their documented invariant, the loop that repeatedly takes the entry
  of least priority under its cursors returns the entries of all torrents, in the order of their priority (fewest
  candidates first, then the torrent with the fewest wanted pieces, then the hash and the piece), each entry with
  its own candidates in some order. The shuffle only has to permute.
\<close>

theorem merge_sorts_by_priority:
  assumes "keeps_elements shuffle" "subs_ok lay subs"
  shows "\<exists>out. merge shuffle subs = Some out \<and>
    map (\<lambda>(h, i, cs). (h, i, mset cs)) out = map (\<lambda>(h, len, i, cs). (h, i, mset cs)) (sort_key item_priority (all_items subs))"
  by (rule merge_ok [OF assms])

definition subs_ex :: "nat sub_schedules" where
  "subs_ex = [(hash_ex, [(1, [(1, 2)]), (0, [(1, 2), (3, 4)])])]"

theorem merge_sorts_by_priority_witness:
  "keeps_elements (\<lambda>_. rev :: nat candidates \<Rightarrow> _) \<and> subs_ok lay_ex subs_ex \<and>
    (\<exists>out. merge (\<lambda>_. rev) subs_ex = Some out \<and> map (\<lambda>(h, i, cs). (h, i, mset cs)) out =
       map (\<lambda>(h, len, i, cs). (h, i, mset cs)) (sort_key item_priority (all_items subs_ex)))"
proof -
  have k: "keeps_elements (\<lambda>_. rev :: nat candidates \<Rightarrow> _)" by (simp add: keeps_elements_def)
  have s: "subs_ok lay_ex subs_ex"
    by (simp add: subs_ok_def sub_ok_def subs_ex_def lay_ex_def layout_ex_def sub_priority_def less_eq_prod_def)
  show ?thesis using k s merge_sorts_by_priority [OF k s] by blast
qed

text \<open>
  C26. The sub-schedules keep their type over any run of the scheduler's two operations: every sub-schedule is
  non-empty, sorted by priority and names each piece of its torrent at most once; every schedule given to the
  download actor is non-empty, names each piece once and only pieces that exist, which is what that actor requires
  of a schedule; and in every state so reached a scan of the model returns.
\<close>

theorem schedules_well_formed:
  assumes "list_all (sched_adm lay) ops" "run_ops sched_exec ops ([], []) = Some (subs, out)"
  shows "subs_ok lay subs \<and> list_all (sched_ok lay) out \<and> (\<forall>shuffle m. sched_adm lay (ScScan shuffle m) \<longrightarrow> scan shuffle m subs \<noteq> None)"
proof -
  have "subs_ok lay []" by (simp add: subs_ok_def)
  with sched_run_ok [OF assms(2,1)] have ok: "subs_ok lay subs \<and> list_all (sched_ok lay) out" by simp
  have "scan shuffle m subs \<noteq> None" if adm: "sched_adm lay (ScScan shuffle m)" for shuffle m
    using scan_ok [of shuffle lay m subs out] adm ok by (cases "scan shuffle m subs") simp_all
  with ok show ?thesis by blast
qed

definition scan_ex :: "nat sched_op list" where
  "scan_ex = [ScScan (\<lambda>_. rev) model_ex]"

definition scanned_ex :: "nat sub_schedules" where
  "scanned_ex = [(hash_ex, [(0, [(1, 2)]), (1, [(1, 2)])])]"

lemma scan_ex_adm: "list_all (sched_adm lay_ex) scan_ex"
proof -
  have "md_inv model_ex"
    by (simp add: md_inv_def model_ex_def contains_torrent_def torrent_ok_def layout_ex_def conn_get_def conn_id_of_def conn_ex_def conns_of_def)
  then show ?thesis
    by (simp add: scan_ex_def keeps_elements_def scannable_def layouts_are_def model_ex_def lay_ex_def)
qed

lemma scan_ex_run:
  "run_ops sched_exec scan_ex ([], []) = Some (scanned_ex, [[(hash_ex, 0, [(1, 2)]), (hash_ex, 1, [(1, 2)])]])"
  by (simp add: scan_ex_def scan_def model_ex_def scanned_ex_def sched_init_torrent_def iter_haves_def sub_priority_def Let_def
      sched_assign_def merge_def merge_loop.simps priority_def merge_next_def remove_nth_def rs_assert_def less_eq_prod_def upt_rec)

theorem schedules_well_formed_witness:
  "list_all (sched_adm lay_ex) scan_ex \<and>
    (\<exists>out. run_ops sched_exec scan_ex ([], []) = Some (scanned_ex, out) \<and> subs_ok lay_ex scanned_ex \<and> list_all (sched_ok lay_ex) out)"
  using schedules_well_formed [OF scan_ex_adm scan_ex_run] scan_ex_adm scan_ex_run by blast

text \<open>
  C31. When the update of a peer panics: for a torrent that has a sub-schedule, and with the bit fields of the two sides
  of equal length, \<open>update_peer\<close> panics exactly when some piece that is still missing has no entry in the sub-schedule.
  Such a state is ordinary (a piece that no peer seen so far has has no entry), so the assertion that a piece without an
  entry is one we have does not hold.
\<close>

theorem update_peer_panics:
  assumes "map_of subs (ci_info_hash c) = Some ss" "length pp = length sp"
  shows "update_peer subs c sp pp = None \<longleftrightarrow> (\<exists>i < length sp. \<not> sp ! i \<and> i \<notin> fst ` set ss)"
proof -
  have "update_peer subs c sp pp = None \<longleftrightarrow> update_loop sp (ci_conn_pair c) 0 pp False ss = None"
    using assms(1) by (auto simp: update_peer_def split: bind_splits)
  also have "\<dots> \<longleftrightarrow> \<not> list_all (unwanted sp ss) [0..<length sp]" using assms(2) by (simp add: update_loop_panics)
  also have "\<dots> \<longleftrightarrow> (\<exists>i < length sp. \<not> sp ! i \<and> i \<notin> fst ` set ss)" by (auto simp: list_all_iff unwanted_def)
  finally show ?thesis .
qed

text \<open>The first peer has the first of two missing pieces; whatever the second peer has, its update panics.\<close>

theorem update_peer_panics_witness:
  "update_peer [] conn_ex [False, False] [True, False] = Some (True, [(hash_ex, [(0, [(1, 2)])])]) \<and>
    map_of [(hash_ex, [(0, [(1 :: nat, 2 :: nat)])])] (ci_info_hash \<lparr>ci_info_hash = hash_ex, ci_conn_pair = (3, 4)\<rparr>) = Some [(0, [(1, 2)])] \<and>
    update_peer [(hash_ex, [(0, [(1, 2)])])] \<lparr>ci_info_hash = hash_ex, ci_conn_pair = (3, 4 :: nat)\<rparr> [False, False] [False, True] = None"
proof -
  have "update_peer [] conn_ex [False, False] [True, False] = Some (True, [(hash_ex, [(0, [(1, 2)])])])"
    by (simp add: update_peer_def conn_ex_def iter_have_nots_def Let_def upt_rec)
  moreover have "map_of [(hash_ex, [(0, [(1 :: nat, 2 :: nat)])])] (ci_info_hash \<lparr>ci_info_hash = hash_ex, ci_conn_pair = (3 :: nat, 4 :: nat)\<rparr>) = Some [(0 :: nat, [(1, 2)])]"
    by simp
  moreover from update_peer_panics [OF this, of "[False, True]" "[False, False]"]
  have "update_peer [(hash_ex, [(0, [(1, 2)])])] \<lparr>ci_info_hash = hash_ex, ci_conn_pair = (3, 4 :: nat)\<rparr> [False, False] [False, True] = None"
    by (simp add: less_2_cases_iff numeral_2_eq_2) (metis One_nat_def lessI nth_Cons_0 nth_Cons_Suc zero_neq_one)
  ultimately show ?thesis by simp
qed

text \<open>
  A peer that no longer has its piece leaves an entry without candidates behind, against the comment on the
  type of sub-schedules.
\<close>

lemma update_peer_leaves_empty:
  "update_peer [(hash_ex, [(0, [(1, 2)])])] conn_ex [False] [False] = Some (False, [(hash_ex, [(0, [])])])"
  by (simp add: update_peer_def conn_ex_def get_candidates_def remove_candidate_def swap_remove_def)

end
