(* ===== verification/Peer_Conn.thy ===== *)
theory Peer_Conn
  imports Torrent_Model
begin

text \<open>
  Connections to peers (\<open>src/rust/bt/peer/src/conn.rs\<close>): opening one, checking what is received and sent, what
  both do to the model and to the transfer counters (\<open>src/rust/bt/model/src/stat.rs\<close>), and closing it. The
  task that owns a connection is its checker; the counters that the tasks share are a store of their own. The
  moving averages of the transfer rates are floating point numbers that nothing decides on, and are left out.
\<close>

section \<open>Counters\<close>

record torrent_stat =
  ts_download :: nat
  ts_upload :: nat

record peer_stat =
  ps_recv_sum :: nat
  ps_send_sum :: nat

text \<open>\<open>AtomicU64::fetch_add\<close> wraps around.\<close>

definition fetch_add :: "nat \<Rightarrow> nat \<Rightarrow> nat" where
  "fetch_add x n = (x + n) mod 2 ^ 64"

definition torrent_stat_new :: torrent_stat where
  "torrent_stat_new = \<lparr>ts_download = 0, ts_upload = 0\<rparr>"

definition peer_stat_new :: peer_stat where
  "peer_stat_new = \<lparr>ps_recv_sum = 0, ps_send_sum = 0\<rparr>"

section \<open>Connections\<close>

record 'e peer_net =
  nt_model :: "'e model"
  nt_conns :: "('e conn_id \<times> checker) list"
  nt_torrent_stats :: "(info_hash \<times> torrent_stat) list"
  nt_peer_stats :: "('e conn_id \<times> peer_stat) list"

definition peer_net_new :: "'e peer_net" where
  "peer_net_new = \<lparr>nt_model = md_new, nt_conns = [], nt_torrent_stats = [], nt_peer_stats = []\<rparr>"

definition torrent_stat_of :: "'e peer_net \<Rightarrow> info_hash \<Rightarrow> torrent_stat" where
  "torrent_stat_of nt h = (case map_of (nt_torrent_stats nt) h of None \<Rightarrow> torrent_stat_new | Some s \<Rightarrow> s)"

definition peer_stat_of :: "'e peer_net \<Rightarrow> 'e conn_id \<Rightarrow> peer_stat" where
  "peer_stat_of nt c = (case map_of (nt_peer_stats nt) c of None \<Rightarrow> peer_stat_new | Some s \<Rightarrow> s)"

definition set_flag :: "'e conn_id \<Rightarrow> flag \<Rightarrow> bool \<Rightarrow> 'e peer_net \<Rightarrow> 'e peer_net" where
  "set_flag c fl v nt = nt\<lparr>nt_model := snd (conn_set (nt_model nt) c fl v)\<rparr>"

definition conn_spawn :: "features \<Rightarrow> 'e conn_id \<Rightarrow> features \<Rightarrow> 'e peer_net \<Rightarrow> (bool \<times> 'e peer_net) option" where
  "conn_spawn self c peer nt =
     (if map_of (md_torrents (nt_model nt)) (ci_info_hash c) = None then Some (False, nt)
      else do {
        m \<leftarrow> connect_peer (nt_model nt) c peer;
        _ \<leftarrow> conn_get m c;
        t \<leftarrow> map_of (md_torrents m) (ci_info_hash c);
        rs_assert (ci_conn_pair c \<in> tr_peer_stats t);
        let checker = \<lparr>self_features = self, peer_features = peer, ck_layout = tr_layout t\<rparr>;
        Some (True, nt\<lparr>nt_model := m, nt_conns := AList.update c checker (nt_conns nt),
          nt_peer_stats := AList.update c peer_stat_new (nt_peer_stats nt)\<rparr>)
      })"

definition conn_shutdown :: "'e conn_id \<Rightarrow> 'e peer_net \<Rightarrow> 'e peer_net option" where
  "conn_shutdown c nt = do {
     m \<leftarrow> disconnect_peer (nt_model nt) c;
     Some (nt\<lparr>nt_model := m, nt_conns := AList.delete c (nt_conns nt)\<rparr>)
   }"

section \<open>Receiving\<close>

definition insert_peer_pieces :: "'e conn_id \<Rightarrow> (nat \<Rightarrow> bitfield option) \<Rightarrow> 'e peer_net \<Rightarrow> 'e peer_net option" where
  "insert_peer_pieces c f nt =
     (case map_of (md_torrents (nt_model nt)) (ci_info_hash c) of
        None \<Rightarrow> Some nt
      | Some t \<Rightarrow> do {
          b \<leftarrow> f (length (tr_self_pieces t));
          (_, m) \<leftarrow> peer_insert (nt_model nt) c b;
          Some (nt\<lparr>nt_model := m\<rparr>)
        })"

definition download_add :: "'e conn_id \<Rightarrow> nat \<Rightarrow> 'e peer_net \<Rightarrow> 'e peer_net" where
  "download_add c n nt = nt\<lparr>nt_torrent_stats := AList.update (ci_info_hash c)
     ((torrent_stat_of nt (ci_info_hash c))\<lparr>ts_download := fetch_add (ts_download (torrent_stat_of nt (ci_info_hash c))) n\<rparr>)
     (nt_torrent_stats nt)\<rparr>"

definition recv_add :: "'e conn_id \<Rightarrow> nat \<Rightarrow> 'e peer_net \<Rightarrow> 'e peer_net" where
  "recv_add c n nt = nt\<lparr>nt_peer_stats := AList.update c
     ((peer_stat_of nt c)\<lparr>ps_recv_sum := fetch_add (ps_recv_sum (peer_stat_of nt c)) n\<rparr>) (nt_peer_stats nt)\<rparr>"

fun update_model_by_peer_message :: "'e conn_id \<Rightarrow> message \<Rightarrow> 'e peer_net \<Rightarrow> 'e peer_net option" where
  "update_model_by_peer_message c Choke nt = Some (set_flag c PeerChokingF True nt)"
| "update_model_by_peer_message c Unchoke nt = Some (set_flag c PeerChokingF False nt)"
| "update_model_by_peer_message c Interested nt = Some (set_flag c PeerInterestedF True nt)"
| "update_model_by_peer_message c NotInterested nt = Some (set_flag c PeerInterestedF False nt)"
| "update_model_by_peer_message c (Bitfield bs) nt =
     insert_peer_pieces c (\<lambda>n. case try_from_bytes bs n of Some (Inr b) \<Rightarrow> Some b | _ \<Rightarrow> None) nt"
| "update_model_by_peer_message c HaveAll nt = insert_peer_pieces c (\<lambda>n. Some (replicate n True)) nt"
| "update_model_by_peer_message c HaveNone nt = insert_peer_pieces c (\<lambda>n. Some (replicate n False)) nt"
| "update_model_by_peer_message c (Have i) nt = do {
     (_, m) \<leftarrow> set_peer_piece (nt_model nt) c i;
     Some (nt\<lparr>nt_model := m\<rparr>)
   }"
| "update_model_by_peer_message c (Piece r _) nt = Some (recv_add c (br_size r) (download_add c (br_size r) nt))"
| "update_model_by_peer_message c _ nt = Some nt"

text \<open>The error of a message that is refused closes the connection; an accepted message is passed on.\<close>

definition conn_recv :: "bool \<Rightarrow> 'e conn_id \<Rightarrow> checker \<Rightarrow> message \<Rightarrow> 'e peer_net \<Rightarrow> ((msg_error + unit) \<times> 'e peer_net) option" where
  "conn_recv checks c checker msg nt = do {
     r \<leftarrow> check checks checker msg;
     (case r of
        Inl e \<Rightarrow> Some (Inl e, nt)
      | Inr _ \<Rightarrow> do { nt \<leftarrow> update_model_by_peer_message c msg nt; Some (Inr (), nt) })
   }"

section \<open>Sending\<close>

definition upload_add :: "'e conn_id \<Rightarrow> nat \<Rightarrow> 'e peer_net \<Rightarrow> 'e peer_net" where
  "upload_add c n nt = nt\<lparr>nt_torrent_stats := AList.update (ci_info_hash c)
     ((torrent_stat_of nt (ci_info_hash c))\<lparr>ts_upload := fetch_add (ts_upload (torrent_stat_of nt (ci_info_hash c))) n\<rparr>)
     (nt_torrent_stats nt)\<rparr>"

definition send_add :: "'e conn_id \<Rightarrow> nat \<Rightarrow> 'e peer_net \<Rightarrow> 'e peer_net" where
  "send_add c n nt = nt\<lparr>nt_peer_stats := AList.update c
     ((peer_stat_of nt c)\<lparr>ps_send_sum := fetch_add (ps_send_sum (peer_stat_of nt c)) n\<rparr>) (nt_peer_stats nt)\<rparr>"

fun update_model_by_self_message :: "'e conn_id \<Rightarrow> message \<Rightarrow> 'e peer_net \<Rightarrow> 'e peer_net" where
  "update_model_by_self_message c Choke nt = set_flag c SelfChokingF True nt"
| "update_model_by_self_message c Unchoke nt = set_flag c SelfChokingF False nt"
| "update_model_by_self_message c Interested nt = set_flag c SelfInterestedF True nt"
| "update_model_by_self_message c NotInterested nt = set_flag c SelfInterestedF False nt"
| "update_model_by_self_message c (Piece r _) nt = send_add c (br_size r) (upload_add c (br_size r) nt)"
| "update_model_by_self_message c _ nt = nt"

definition conn_send :: "bool \<Rightarrow> 'e conn_id \<Rightarrow> checker \<Rightarrow> message \<Rightarrow> 'e peer_net \<Rightarrow> 'e peer_net option" where
  "conn_send checks c checker msg nt = do {
     r \<leftarrow> check checks checker msg;
     rs_assert (r = Inr ());
     Some (update_model_by_self_message c msg nt)
   }"

end
