(* ===== verification/Peer_Conn_Spec.thy ===== *)
theory Peer_Conn_Spec
  imports Peer_Conn Torrent_Model_Spec
begin

text \<open>
  All connections together: whatever bytes the peers send, and however opening, receiving, sending and closing
  interleave with other calls on the model, nothing panics and the model stays consistent.
\<close>

section \<open>The machine\<close>

datatype 'e net_op =
    NtModel "'e md_op"
  | NtSpawn "'e conn_id" features
  | NtRecv "'e conn_id" "byte list"
  | NtSend "'e conn_id" message
  | NtClose "'e conn_id"

fun net_exec :: "features \<Rightarrow> bool \<Rightarrow> 'e net_op \<Rightarrow> 'e peer_net \<Rightarrow> 'e peer_net option" where
  "net_exec self checks (NtModel p) nt = map_option (\<lambda>m. nt\<lparr>nt_model := m\<rparr>) (md_exec p (nt_model nt))"
| "net_exec self checks (NtSpawn c f) nt = map_option snd (conn_spawn self c f nt)"
| "net_exec self checks (NtRecv c b) nt =
     (case map_of (nt_conns nt) c of
        None \<Rightarrow> Some nt
      | Some ck \<Rightarrow> do {
          (r, _) \<leftarrow> decode b;
          (case r of Inr (Some msg) \<Rightarrow> map_option snd (conn_recv checks c ck msg nt) | _ \<Rightarrow> Some nt)
        })"
| "net_exec self checks (NtSend c msg) nt =
     (case map_of (nt_conns nt) c of None \<Rightarrow> Some nt | Some ck \<Rightarrow> conn_send checks c ck msg nt)"
| "net_exec self checks (NtClose c) nt =
     (case map_of (nt_conns nt) c of None \<Rightarrow> Some nt | Some ck \<Rightarrow> conn_shutdown c nt)"

definition conns_match :: "features \<Rightarrow> (info_hash \<Rightarrow> layout) \<Rightarrow> 'e peer_net \<Rightarrow> bool" where
  "conns_match self lay nt \<longleftrightarrow> (\<forall>c ck. map_of (nt_conns nt) c = Some ck \<longrightarrow>
     (\<exists>s. conn_get (nt_model nt) c = Some s \<and>
        ck = \<lparr>self_features = self, peer_features = cs_peer_features s, ck_layout = lay (ci_info_hash c)\<rparr>))"

definition peers_inv :: "features \<Rightarrow> (info_hash \<Rightarrow> layout) \<Rightarrow> 'e peer_net \<Rightarrow> bool" where
  "peers_inv self lay nt \<longleftrightarrow> (\<forall>h. layout_ok (lay h)) \<and> md_inv (nt_model nt) \<and> layouts_are lay (nt_model nt) \<and> conns_match self lay nt"

text \<open>
  The obligations: connections are opened and closed by their own tasks only, at most one of them at a time for a
  pair of endpoints, and only messages that the connection accepts are sent. Nothing is required of what is received.
\<close>

fun net_adm :: "bool \<Rightarrow> (info_hash \<Rightarrow> layout) \<Rightarrow> 'e peer_net \<Rightarrow> 'e net_op \<Rightarrow> bool" where
  "net_adm checks lay nt (NtModel p) \<longleftrightarrow> md_adm (nt_model nt) p \<and> init_with lay p \<and> (\<forall>c. \<not> touches p c)"
| "net_adm checks lay nt (NtSpawn c f) \<longleftrightarrow> \<not> conn_contains (nt_model nt) c"
| "net_adm checks lay nt (NtRecv c b) \<longleftrightarrow> True"
| "net_adm checks lay nt (NtSend c msg) \<longleftrightarrow> (\<forall>ck. map_of (nt_conns nt) c = Some ck \<longrightarrow> check checks ck msg = Some (Inr ()))"
| "net_adm checks lay nt (NtClose c) \<longleftrightarrow> True"

section \<open>Calls on the model\<close>

lemma net_call:
  assumes "peers_inv self lay nt" "md_adm (nt_model nt) p" "init_with lay p"
    and "\<And>c. touches p c \<Longrightarrow> map_of (nt_conns nt) c = None"
  shows "\<exists>r m. md_call p (nt_model nt) = Some (r, m) \<and> peers_inv self lay (nt\<lparr>nt_model := m\<rparr>)"
proof -
  have inv: "md_inv (nt_model nt)" "layouts_are lay (nt_model nt)" "conns_match self lay nt" using assms(1) by (simp_all add: peers_inv_def)
  obtain r m where m: "md_call p (nt_model nt) = Some (r, m)" "md_inv m" "layouts_are lay m"
    using model_step [OF inv(1,2) assms(2,3)] by blast
  have "conns_match self lay (nt\<lparr>nt_model := m\<rparr>)" unfolding conns_match_def
  proof (intro allI impI)
    fix c ck assume "map_of (nt_conns (nt\<lparr>nt_model := m\<rparr>)) c = Some ck"
    then have ck: "map_of (nt_conns nt) c = Some ck" by simp
    then obtain s where s: "conn_get (nt_model nt) c = Some s"
      "ck = \<lparr>self_features = self, peer_features = cs_peer_features s, ck_layout = lay (ci_info_hash c)\<rparr>"
      using inv(3) unfolding conns_match_def by blast
    have "\<not> touches p c" using assms(4) ck by force
    from call_keeps_conn [OF m(1) this] s show "\<exists>s. conn_get (nt_model (nt\<lparr>nt_model := m\<rparr>)) c = Some s \<and>
        ck = \<lparr>self_features = self, peer_features = cs_peer_features s, ck_layout = lay (ci_info_hash c)\<rparr>" by auto
  qed
  with m assms(1) show ?thesis by (simp add: peers_inv_def)
qed

lemma peers_inv_stats [simp]:
  "peers_inv self lay (nt\<lparr>nt_torrent_stats := x\<rparr>) = peers_inv self lay nt"
  "peers_inv self lay (nt\<lparr>nt_peer_stats := y\<rparr>) = peers_inv self lay nt"
  by (simp_all add: peers_inv_def conns_match_def)

lemma peers_inv_flag: "peers_inv self lay nt \<Longrightarrow> peers_inv self lay (set_flag c fl v nt)"
  using net_call [of self lay nt "OpSetFlag c fl v"] by (auto simp: set_flag_def)

lemma peers_invD:
  assumes "peers_inv self lay nt"
  shows "md_inv (nt_model nt)" "layouts_are lay (nt_model nt)"
    and "map_of (nt_conns nt) c = Some ck \<Longrightarrow> layout_ok (ck_layout ck)"
    and "map_of (nt_conns nt) c = Some ck \<Longrightarrow> ck_layout ck = lay (ci_info_hash c) \<and> self_features ck = self"
    and "map_of (nt_conns nt) c = Some ck \<Longrightarrow> \<exists>s. conn_get (nt_model nt) c = Some s \<and> peer_features ck = cs_peer_features s"
    and "map_of (md_torrents (nt_model nt)) h = Some t \<Longrightarrow> length (tr_self_pieces t) = lnum_pieces (lay h) \<and> tr_layout t = lay h"
proof -
  have inv: "\<forall>h. layout_ok (lay h)" "md_inv (nt_model nt)" "layouts_are lay (nt_model nt)" "conns_match self lay nt"
    using assms by (simp_all add: peers_inv_def)
  show "md_inv (nt_model nt)" "layouts_are lay (nt_model nt)" by (fact inv)+
  show "layout_ok (ck_layout ck)" "ck_layout ck = lay (ci_info_hash c) \<and> self_features ck = self"
    "\<exists>s. conn_get (nt_model nt) c = Some s \<and> peer_features ck = cs_peer_features s" if "map_of (nt_conns nt) c = Some ck"
    using inv(1) inv(4) [unfolded conns_match_def, rule_format, OF that] by auto
  show "length (tr_self_pieces t) = lnum_pieces (lay h) \<and> tr_layout t = lay h" if "map_of (md_torrents (nt_model nt)) h = Some t"
    using md_invD(2) [OF inv(2) that] inv(3) that by (auto simp: torrent_ok_def layouts_are_def)
qed

section \<open>Receiving\<close>

lemma insert_pieces_ok:
  assumes "peers_inv self lay nt" "map_of (nt_conns nt) c = Some ck" "f (lnum_pieces (lay (ci_info_hash c))) = Some b"
    and "length b = lnum_pieces (lay (ci_info_hash c))"
  shows "\<exists>nt'. insert_peer_pieces c f nt = Some nt' \<and> peers_inv self lay nt'"
proof (cases "map_of (md_torrents (nt_model nt)) (ci_info_hash c)")
  case None
  with assms(1) show ?thesis by (simp add: insert_peer_pieces_def)
next
  case (Some t)
  have len: "length (tr_self_pieces t) = lnum_pieces (lay (ci_info_hash c))" using peers_invD(6) [OF assms(1) Some] by simp
  have "conn_contains (nt_model nt) c" using peers_invD(5) [OF assms(1,2)] by (auto simp: conn_contains_def)
  then have "md_adm (nt_model nt) (OpInitPeer c b)" using Some len assms(4) by simp
  from net_call [OF assms(1) this] obtain r m where "peer_insert (nt_model nt) c b = Some (r, m)" "peers_inv self lay (nt\<lparr>nt_model := m\<rparr>)"
    by auto
  with Some len assms(3) show ?thesis by (simp add: insert_peer_pieces_def)
qed

lemma have_ok:
  assumes "peers_inv self lay nt" "i < lnum_pieces (lay (ci_info_hash c))"
  shows "\<exists>nt'. update_model_by_peer_message c (Have i) nt = Some nt' \<and> peers_inv self lay nt'"
proof -
  have "length (tr_self_pieces t) = lnum_pieces (lay (ci_info_hash c))" if "map_of (md_torrents (nt_model nt)) (ci_info_hash c) = Some t" for t
    using peers_invD(6) [OF assms(1) that] by simp
  then have "md_adm (nt_model nt) (OpPeerPiece c i)" using assms(2) by (simp split: option.split)
  from net_call [OF assms(1) this] show ?thesis by auto
qed

lemma accepted_message:
  assumes "check checks ck msg = Some (Inr ())"
  shows "msg = Have i \<Longrightarrow> i < lnum_pieces (ck_layout ck)"
    and "msg = Bitfield bs \<Longrightarrow> check_spare_bits (view_bits bs) (lnum_pieces (ck_layout ck))"
  using assms by (auto simp: check_def check_payload_def check_index_def ensure_def split: sum.splits if_splits)

lemma update_by_peer_ok:
  assumes "peers_inv self lay nt" "map_of (nt_conns nt) c = Some ck" "check checks ck msg = Some (Inr ())"
  shows "\<exists>nt'. update_model_by_peer_message c msg nt = Some nt' \<and> peers_inv self lay nt'"
proof -
  have lay: "ck_layout ck = lay (ci_info_hash c)" using peers_invD(4) [OF assms(1,2)] by simp
  show ?thesis
  proof (cases msg)
    case (Bitfield bs)
    let ?n = "lnum_pieces (lay (ci_info_hash c))"
    have spare: "check_spare_bits (view_bits bs) ?n" using accepted_message(2) [OF assms(3) Bitfield] lay by simp
    then have "try_from_bytes bs ?n = Some (Inr (take ?n (view_bits bs)))" by (simp add: try_from_bytes_def Let_def)
    moreover have "length (take ?n (view_bits bs)) = ?n" using spare by (auto simp: check_spare_bits_def)
    ultimately show ?thesis using insert_pieces_ok [OF assms(1,2)] Bitfield by simp
  next
    case (Have i)
    with have_ok [OF assms(1)] accepted_message(1) [OF assms(3) Have] lay show ?thesis by simp
  qed (use assms(1) insert_pieces_ok [OF assms(1,2)] in \<open>auto simp: peers_inv_flag recv_add_def download_add_def\<close>)
qed

lemma update_by_self_ok: "peers_inv self lay nt \<Longrightarrow> peers_inv self lay (update_model_by_self_message c msg nt)"
  by (cases msg) (simp_all add: peers_inv_flag send_add_def upload_add_def)

lemma check_returns:
  assumes "layout_ok (ck_layout ck)" "msg_ok msg"
  shows "\<exists>x. check checks ck msg = Some x"
  using check_payload_iff [OF assms, of checks] by (auto simp: check_def split: sum.split)

lemma conn_recv_ok:
  assumes "peers_inv self lay nt" "map_of (nt_conns nt) c = Some ck" "msg_ok msg"
  shows "\<exists>r nt'. conn_recv checks c ck msg nt = Some (r, nt') \<and> peers_inv self lay nt'"
proof -
  obtain x where x: "check checks ck msg = Some x" using check_returns [OF peers_invD(3) [OF assms(1,2)] assms(3)] by blast
  show ?thesis
  proof (cases x)
    case (Inr u)
    with update_by_peer_ok [OF assms(1,2)] x show ?thesis by (fastforce simp: conn_recv_def)
  qed (use x assms(1) in \<open>simp add: conn_recv_def\<close>)
qed

section \<open>Opening and closing\<close>

lemma conn_spawn_ok:
  assumes "peers_inv self lay nt" "\<not> conn_contains (nt_model nt) c"
  shows "\<exists>r nt'. conn_spawn self c f nt = Some (r, nt') \<and> peers_inv self lay nt'"
proof (cases "map_of (md_torrents (nt_model nt)) (ci_info_hash c)")
  case (Some t0)
  have free: "map_of (nt_conns nt) d = None" if "touches (OpConnect c f) d" for d
    using that assms(2) peers_invD(5) [OF assms(1), of d] by (cases "map_of (nt_conns nt) d") (fastforce simp: conn_contains_def)+
  obtain m where m: "connect_peer (nt_model nt) c f = Some m" "peers_inv self lay (nt\<lparr>nt_model := m\<rparr>)"
    using net_call [where p = "OpConnect c f", OF assms(1) _ _ free] assms(2) by auto
  note facts = connect_facts [OF m(1)]
  obtain t where t: "map_of (md_torrents m) (ci_info_hash c) = Some t" using facts(4) Some by simp
  have get: "conn_get m c = Some (conn_state_new c f)" using facts(1) by simp
  have "md_inv m" "layouts_are lay m" using peers_invD(1,2) [OF m(2)] by simp_all
  then have ok: "ci_conn_pair c \<in> tr_peer_stats t" "tr_layout t = lay (ci_info_hash c)"
    using md_invD(2) [OF _ t] get t by (auto simp: torrent_ok_def layouts_are_def)
  let ?ck = "\<lparr>self_features = self, peer_features = f, ck_layout = tr_layout t\<rparr>"
  have "peers_inv self lay (nt\<lparr>nt_model := m, nt_conns := AList.update c ?ck (nt_conns nt)\<rparr>)"
    using m(2) get ok(2) by (auto simp: peers_inv_def conns_match_def model_simps conn_state_new_def)
  with m Some t get ok(1) show ?thesis by (auto simp: conn_spawn_def rs_assert_def Let_def)
qed (use assms(1) in \<open>auto simp: conn_spawn_def\<close>)

lemma conn_shutdown_ok:
  assumes "peers_inv self lay nt" "map_of (nt_conns nt) c = Some ck"
  shows "\<exists>nt'. conn_shutdown c nt = Some nt' \<and> peers_inv self lay nt'"
proof -
  let ?nt = "nt\<lparr>nt_conns := AList.delete c (nt_conns nt)\<rparr>"
  have "peers_inv self lay ?nt" using assms(1) by (auto simp: peers_inv_def conns_match_def model_simps split: if_splits)
  moreover have "md_adm (nt_model ?nt) (OpDisconnect c)" using peers_invD(5) [OF assms] by (auto simp: conn_contains_def)
  moreover have "map_of (nt_conns ?nt) d = None" if "touches (OpDisconnect c) d" for d using that by (simp add: model_simps)
  ultimately obtain m where "disconnect_peer (nt_model nt) c = Some m" "peers_inv self lay (?nt\<lparr>nt_model := m\<rparr>)"
    using net_call [of self lay ?nt "OpDisconnect c"] by auto
  then show ?thesis by (simp add: conn_shutdown_def peers_inv_def conns_match_def)
qed

interpretation nm: guarded_machine "net_exec self checks" "peers_inv self lay" "net_adm checks lay" for self checks lay
proof
  fix nt :: "'e peer_net" and p :: "'e net_op"
  assume inv: "peers_inv self lay nt" and adm: "net_adm checks lay nt p"
  show "\<exists>nt'. net_exec self checks p nt = Some nt' \<and> peers_inv self lay nt'"
  proof (cases p)
    case (NtModel q)
    with net_call [OF inv, of q] adm show ?thesis by (auto simp: md_exec_def)
  next
    case (NtSpawn c f)
    with conn_spawn_ok [OF inv, of c f] adm show ?thesis by auto
  next
    case (NtRecv c b)
    show ?thesis
    proof (cases "map_of (nt_conns nt) c")
      case (Some ck)
      then show ?thesis using NtRecv inv conn_recv_ok [OF inv Some]
        by (cases b rule: decode_cases) (auto, fastforce)
    qed (use NtRecv inv in simp)
  next
    case (NtSend c msg)
    with adm inv show ?thesis by (auto simp: conn_send_def update_by_self_ok rs_assert_def split: option.split)
  next
    case (NtClose c)
    with conn_shutdown_ok [OF inv, of c] inv show ?thesis by (auto split: option.split)
  qed
qed

lemma peers_inv_new: "\<forall>h. layout_ok (lay h) \<Longrightarrow> peers_inv self lay peer_net_new"
  by (simp add: peers_inv_def peer_net_new_def md_inv_new layouts_are_def conns_match_def) (simp add: md_new_def)

section \<open>Properties\<close>


definition net_lay_ex :: "info_hash \<Rightarrow> layout" where
  "net_lay_ex h = layout_ex"

text \<open>A peer that sends a bit field, garbage, and a piece it was not asked for.\<close>

definition net_ops_ex :: "nat net_op list" where
  "net_ops_ex = [NtModel (OpNewTorrent hash_ex), NtModel (OpInitTorrent hash_ex layout_ex [True, False]), NtSpawn conn_ex features_ex,
     NtRecv conn_ex (msg_frame (Bitfield [128])), NtRecv conn_ex [255, 255, 255, 255, 9], NtRecv conn_ex (msg_frame (Piece (BlockRange 7 0 1) [1])),
     NtClose conn_ex]"

definition opened_net_ex :: "nat net_op list" where
  "opened_net_ex = take 3 net_ops_ex"

lemma opened_net_adm: "admissible_run (net_exec features_ex True) (net_adm True net_lay_ex) opened_net_ex peer_net_new"
  by (simp add: opened_net_ex_def net_ops_ex_def peer_net_new_def ops_ex_simps conn_spawn_def net_lay_ex_def rs_assert_def)

lemma net_ops_adm: "admissible_run (net_exec features_ex True) (net_adm True net_lay_ex) net_ops_ex peer_net_new"
proof -
  have "admissible_run (net_exec features_ex True) (net_adm True net_lay_ex) (drop 3 net_ops_ex) nt" for nt
    by (rule admissible_run_always) (simp add: net_ops_ex_def)
  then show ?thesis
    using opened_net_adm admissible_run_append [of "net_exec features_ex True" "net_adm True net_lay_ex" "take 3 net_ops_ex" "drop 3 net_ops_ex" peer_net_new]
    unfolding opened_net_ex_def by (simp split: option.split)
qed


end
