(* ===== verification/Upload.thy ===== *)
theory Upload
  imports Peer_Conn_Spec
begin

text \<open>
  The upload actor (\<open>src/rust/bt/txrx/src/upload.rs\<close>): when a peer is unchoked, which requests are served and which
  are refused. What the storage answers is an argument; the messages a handler sends are its result, in order.
\<close>

section \<open>State and limits\<close>

record upload =
  up_self_features :: features
  up_paused :: "info_hash set"
  up_seeding :: "info_hash set"

definition REQUEST_SIZE_LIMIT :: nat where "REQUEST_SIZE_LIMIT = 64 * 1024"

definition RECIPROCATE_LOWER :: nat where "RECIPROCATE_LOWER = 128 * 1024"

definition RECIPROCATE_UPPER :: nat where "RECIPROCATE_UPPER = RECIPROCATE_LOWER + 128 * 1024"

definition upload_new :: "features \<Rightarrow> upload" where
  "upload_new self = \<lparr>up_self_features = self, up_paused = {}, up_seeding = {}\<rparr>"

definition upload_pause :: "info_hash \<Rightarrow> upload \<Rightarrow> upload" where
  "upload_pause h up = up\<lparr>up_paused := insert h (up_paused up)\<rparr>"

definition upload_resume :: "info_hash \<Rightarrow> upload \<Rightarrow> upload" where
  "upload_resume h up = up\<lparr>up_paused := up_paused up - {h}\<rparr>"

definition upload_seed :: "info_hash \<Rightarrow> upload \<Rightarrow> upload" where
  "upload_seed h up = up\<lparr>up_seeding := insert h (up_seeding up)\<rparr>"

definition upload_unseed :: "info_hash \<Rightarrow> upload \<Rightarrow> upload" where
  "upload_unseed h up = up\<lparr>up_seeding := up_seeding up - {h}\<rparr>"

fun upload_fold :: "info_hash set option \<Rightarrow> 'e model_update \<Rightarrow> info_hash set option" where
  "upload_fold v (RemoveTorrent h) = Some (insert h (case v of None \<Rightarrow> {} | Some hs \<Rightarrow> hs))"
| "upload_fold v _ = v"

fun consume_removes :: "info_hash list \<Rightarrow> upload \<Rightarrow> upload" where
  "consume_removes [] up = up"
| "consume_removes (h # hs) up = consume_removes hs (up\<lparr>up_paused := up_paused up - {h}, up_seeding := up_seeding up - {h}\<rparr>)"

section \<open>Reciprocation\<close>

definition next_conn_state :: "bool \<Rightarrow> conn_flags \<Rightarrow> peer_stat \<Rightarrow> nat \<Rightarrow> message option option" where
  "next_conn_state checks fl st request_size = do {
     total \<leftarrow> fit64 checks (ps_send_sum st + request_size);
     let freeride = total - ps_recv_sum st;
     Some (if self_choking fl then (if freeride < RECIPROCATE_LOWER then Some Unchoke else None)
           else if snubbing fl \<or> freeride \<ge> RECIPROCATE_UPPER then Some Choke else None)
   }"

definition request_unchoking :: "bool \<Rightarrow> 'e peer_net \<Rightarrow> 'e conn_id \<Rightarrow> message option option option" where
  "request_unchoking checks nt c =
     (case conn_get (nt_model nt) c of
        None \<Rightarrow> Some None
      | Some s \<Rightarrow>
          (case map_of (md_torrents (nt_model nt)) (ci_info_hash c) of
             None \<Rightarrow> Some None
           | Some t \<Rightarrow>
               if ci_conn_pair c \<notin> tr_peer_stats t then Some None
               else map_option Some (next_conn_state checks (cs_flags s) (peer_stat_of nt c) 0)))"

definition request_block :: "bool \<Rightarrow> 'e peer_net \<Rightarrow> 'e conn_id \<Rightarrow> block_range \<Rightarrow> (bool \<times> bool \<times> bool) option option" where
  "request_block checks nt c r =
     (case conn_get (nt_model nt) c of
        None \<Rightarrow> Some None
      | Some s \<Rightarrow>
          (case map_of (md_torrents (nt_model nt)) (ci_info_hash c) of
             None \<Rightarrow> Some None
           | Some t \<Rightarrow>
               if ci_conn_pair c \<notin> tr_peer_stats t then Some None
               else do {
                 nxt \<leftarrow> next_conn_state checks (cs_flags s) (peer_stat_of nt c) (br_size r);
                 reject \<leftarrow> (if self_choking (cs_flags s) \<or> snubbing (cs_flags s) then Some True
                            else map_option Not (rs_index (tr_self_pieces t) (br_index r)));
                 Some (Some (nxt = Some Choke, reject, fast (cs_peer_features s)))
               }))"

section \<open>Handlers\<close>

text \<open>What reading a block answers; the buffer that is read into has the size of the block.\<close>

datatype read_outcome = ReadError io_error | ReadMissing | ReadBlock "nat \<Rightarrow> byte"

type_synonym sent_messages = "((io_error + unit) \<times> message list) option"

definition check_request_size :: "upload \<Rightarrow> 'e peer_net \<Rightarrow> 'e conn_id \<Rightarrow> block_range \<Rightarrow> bool \<times> message list" where
  "check_request_size up nt c r =
     (if br_size r \<le> REQUEST_SIZE_LIMIT then (True, [])
      else
        let peer_fast = (case conn_get (nt_model nt) c of None \<Rightarrow> False | Some s \<Rightarrow> fast (cs_peer_features s)) in
        (False, if fast (up_self_features up) \<and> peer_fast then [Reject r] else []))"

definition send_block :: "block_range \<Rightarrow> read_outcome \<Rightarrow> sent_messages" where
  "send_block r outcome =
     (case outcome of
        ReadError e \<Rightarrow> Some (Inl e, [])
      | ReadMissing \<Rightarrow> Some (Inr (), [])
      | ReadBlock f \<Rightarrow> Some (Inr (), [Piece r (map f [0..<br_size r])]))"

fun upload_block :: "bool \<Rightarrow> upload \<Rightarrow> 'e peer_net \<Rightarrow> 'e conn_id \<Rightarrow> message \<Rightarrow> read_outcome \<Rightarrow> sent_messages" where
  "upload_block checks up nt c Interested outcome = do {
     change \<leftarrow> request_unchoking checks nt c;
     Some (Inr (), case change of Some (Some m) \<Rightarrow> [m] | _ \<Rightarrow> [])
   }"
| "upload_block checks up nt c (Request r) outcome =
     (case check_request_size up nt c r of
        (False, out) \<Rightarrow> Some (Inr (), out)
      | (True, _) \<Rightarrow> do {
          rb \<leftarrow> request_block checks nt c r;
          (case rb of
             None \<Rightarrow> Some (Inr (), [])
           | Some (choke, reject, peer_fast) \<Rightarrow>
               if choke \<or> reject \<or> ci_info_hash c \<in> up_paused up
               then Some (Inr (), (if choke then [Choke] else []) @ (if fast (up_self_features up) \<and> peer_fast then [Reject r] else []))
               else send_block r outcome)
        })"
| "upload_block checks up nt c _ outcome = Some (Inr (), [])"

fun seed_block :: "upload \<Rightarrow> 'e peer_net \<Rightarrow> 'e conn_id \<Rightarrow> message \<Rightarrow> read_outcome \<Rightarrow> sent_messages" where
  "seed_block up nt c Interested outcome =
     Some (Inr (), case conn_get (nt_model nt) c of None \<Rightarrow> [] | Some s \<Rightarrow> if self_choking (cs_flags s) then [Unchoke] else [])"
| "seed_block up nt c (Request r) outcome =
     (case check_request_size up nt c r of
        (False, out) \<Rightarrow> Some (Inr (), out)
      | (True, _) \<Rightarrow>
          (case (conn_get (nt_model nt) c, map_of (md_torrents (nt_model nt)) (ci_info_hash c)) of
             (Some s, Some t) \<Rightarrow> do {
               reject \<leftarrow> (if self_choking (cs_flags s) then Some True else map_option Not (rs_index (tr_self_pieces t) (br_index r)));
               if reject \<or> ci_info_hash c \<in> up_paused up
               then Some (Inr (), if fast (up_self_features up) \<and> fast (cs_peer_features s) then [Reject r] else [])
               else send_block r outcome
             }
           | _ \<Rightarrow> Some (Inr (), [])))"
| "seed_block up nt c _ outcome = Some (Inr (), [])"

definition upload_recv :: "bool \<Rightarrow> upload \<Rightarrow> 'e peer_net \<Rightarrow> 'e conn_id \<Rightarrow> message \<Rightarrow> read_outcome \<Rightarrow> sent_messages" where
  "upload_recv checks up nt c msg outcome =
     (if ci_info_hash c \<in> up_seeding up then seed_block up nt c msg outcome else upload_block checks up nt c msg outcome)"

section \<open>What is sent is accepted\<close>

lemma accepts_plain:
  "check checks ck Choke = Some (Inr ())" "check checks ck Unchoke = Some (Inr ())"
  by (simp_all add: check_def check_features_def check_payload_def)

lemma accepts_request:
  assumes "check checks ck (Request r) = Some (Inr ())"
  shows "check checks ck (Piece r p) = Some (Inr ())"
    and "fast (self_features ck) \<Longrightarrow> fast (peer_features ck) \<Longrightarrow> check checks ck (Reject r) = Some (Inr ())"
    and "br_index r < lnum_pieces (ck_layout ck)"
  using assms by (auto simp: check_def check_features_def check_payload_def check_range_def check_index_def ensure_def
      split: sum.splits if_splits)

definition sound_reply :: "bool \<Rightarrow> upload \<Rightarrow> 'e peer_net \<Rightarrow> 'e conn_id \<Rightarrow> checker \<Rightarrow> message \<Rightarrow> message \<Rightarrow> bool" where
  "sound_reply checks up nt c ck msg m \<longleftrightarrow> check checks ck m = Some (Inr ()) \<and>
     (\<forall>r p. m = Piece r p \<longrightarrow> msg = Request r \<and> length p = br_size r \<and> br_size r \<le> REQUEST_SIZE_LIMIT \<and> ci_info_hash c \<notin> up_paused up \<and>
        (\<exists>s t. conn_get (nt_model nt) c = Some s \<and> map_of (md_torrents (nt_model nt)) (ci_info_hash c) = Some t \<and>
           tr_self_pieces t ! br_index r \<and> \<not> self_choking (cs_flags s) \<and>
           (ci_info_hash c \<notin> up_seeding up \<longrightarrow> \<not> snubbing (cs_flags s) \<and>
              ps_send_sum (peer_stat_of nt c) + br_size r < ps_recv_sum (peer_stat_of nt c) + RECIPROCATE_UPPER)))"

definition sound_replies :: "bool \<Rightarrow> upload \<Rightarrow> 'e peer_net \<Rightarrow> 'e conn_id \<Rightarrow> checker \<Rightarrow> message \<Rightarrow> sent_messages \<Rightarrow> bool" where
  "sound_replies checks up nt c ck msg res \<longleftrightarrow> (\<exists>r out. res = Some (r, out) \<and> list_all (sound_reply checks up nt c ck msg) out)"

lemma sound_replies_simps [simp]:
  "sound_replies checks up nt c ck msg (Some (r, out)) \<longleftrightarrow> list_all (sound_reply checks up nt c ck msg) out"
  "\<not> sound_replies checks up nt c ck msg None"
  by (auto simp: sound_replies_def)

lemma sound_plain [simp]: "sound_reply checks up nt c ck msg Choke" "sound_reply checks up nt c ck msg Unchoke"
  by (simp_all add: sound_reply_def accepts_plain)

lemma sound_reject:
  assumes "check checks ck (Request r) = Some (Inr ())" "fast (self_features ck)" "fast (peer_features ck)"
  shows "sound_reply checks up nt c ck msg (Reject r)"
  using accepts_request(2) [OF assms] by (simp add: sound_reply_def)

lemma sound_block:
  assumes "check checks ck (Request r) = Some (Inr ())" "br_size r \<le> REQUEST_SIZE_LIMIT" "ci_info_hash c \<notin> up_paused up"
    and "conn_get (nt_model nt) c = Some s" "map_of (md_torrents (nt_model nt)) (ci_info_hash c) = Some t"
    and "tr_self_pieces t ! br_index r" "\<not> self_choking (cs_flags s)"
    and "ci_info_hash c \<notin> up_seeding up \<Longrightarrow> \<not> snubbing (cs_flags s) \<and>
      ps_send_sum (peer_stat_of nt c) + br_size r < ps_recv_sum (peer_stat_of nt c) + RECIPROCATE_UPPER"
  shows "sound_replies checks up nt c ck (Request r) (send_block r outcome)"
  using assms accepts_request(1) [OF assms(1)] by (auto simp: send_block_def sound_reply_def split: read_outcome.split)

lemma request_too_big:
  assumes "peers_inv self lay nt" "map_of (nt_conns nt) c = Some ck" "up_self_features up = self"
    and "check checks ck (Request r) = Some (Inr ())" "check_request_size up nt c r = (False, out)"
  shows "list_all (sound_reply checks up nt c ck (Request r)) out"
proof -
  obtain s where s: "conn_get (nt_model nt) c = Some s" "peer_features ck = cs_peer_features s" using peers_invD(5) [OF assms(1,2)] by blast
  have "self_features ck = self" using peers_invD(4) [OF assms(1,2)] by simp
  with s assms(3,5) sound_reject [OF assms(4)] show ?thesis by (auto simp: check_request_size_def Let_def split: if_splits)
qed

lemma upload_request:
  assumes "peers_inv self lay nt" "map_of (nt_conns nt) c = Some ck" "up_self_features up = self"
    and "check checks ck (Request r) = Some (Inr ())" "ps_send_sum (peer_stat_of nt c) + REQUEST_SIZE_LIMIT \<le> u64_max"
    and "ci_info_hash c \<notin> up_seeding up"
  shows "sound_replies checks up nt c ck (Request r) (upload_block checks up nt c (Request r) outcome)"
proof (cases "check_request_size up nt c r")
  case (Pair ok out)
  obtain s where s: "conn_get (nt_model nt) c = Some s" "peer_features ck = cs_peer_features s" using peers_invD(5) [OF assms(1,2)] by blast
  have ck: "self_features ck = self" "ck_layout ck = lay (ci_info_hash c)" using peers_invD(4) [OF assms(1,2)] by simp_all
  show ?thesis
  proof (cases ok)
    case False
    with request_too_big [OF assms(1-4)] Pair show ?thesis by simp
  next
    case True
    then have size: "br_size r \<le> REQUEST_SIZE_LIMIT" using Pair by (simp add: check_request_size_def Let_def split: if_splits)
    show ?thesis
    proof (cases "map_of (md_torrents (nt_model nt)) (ci_info_hash c)")
      case None
      with Pair True s show ?thesis by (simp add: request_block_def)
    next
      case (Some t)
      have i: "br_index r < length (tr_self_pieces t)"
        using accepts_request(3) [OF assms(4)] peers_invD(6) [OF assms(1) Some] ck(2) by simp
      have fits: "fit64 checks (ps_send_sum (peer_stat_of nt c) + br_size r) = Some (ps_send_sum (peer_stat_of nt c) + br_size r)"
        using assms(5) size by (intro fit64_in_range) simp
      let ?free = "ps_send_sum (peer_stat_of nt c) + br_size r - ps_recv_sum (peer_stat_of nt c)"
      let ?choke = "\<not> self_choking (cs_flags s) \<and> (snubbing (cs_flags s) \<or> ?free \<ge> RECIPROCATE_UPPER)"
      let ?reject = "self_choking (cs_flags s) \<or> snubbing (cs_flags s) \<or> \<not> tr_self_pieces t ! br_index r"
      have rb: "request_block checks nt c r =
          Some (if ci_conn_pair c \<notin> tr_peer_stats t then None else Some (?choke, ?reject, fast (cs_peer_features s)))"
        using s Some i fits by (auto simp: request_block_def next_conn_state_def Let_def)
      show ?thesis
      proof (cases "?choke \<or> ?reject \<or> ci_info_hash c \<in> up_paused up")
        case yes: True
        then show ?thesis using Pair True rb sound_reject [OF assms(4)] s(2) ck(1) assms(3) by auto
      next
        case no: False
        then have "sound_replies checks up nt c ck (Request r) (send_block r outcome)"
          by (intro sound_block [OF assms(4) size _ s(1) Some]) auto
        with no Pair True rb show ?thesis by auto
      qed
    qed
  qed
qed

lemma seed_request:
  assumes "peers_inv self lay nt" "map_of (nt_conns nt) c = Some ck" "up_self_features up = self"
    and "check checks ck (Request r) = Some (Inr ())" "ci_info_hash c \<in> up_seeding up"
  shows "sound_replies checks up nt c ck (Request r) (seed_block up nt c (Request r) outcome)"
proof (cases "check_request_size up nt c r")
  case (Pair ok out)
  obtain s where s: "conn_get (nt_model nt) c = Some s" "peer_features ck = cs_peer_features s" using peers_invD(5) [OF assms(1,2)] by blast
  have ck: "self_features ck = self" "ck_layout ck = lay (ci_info_hash c)" using peers_invD(4) [OF assms(1,2)] by simp_all
  show ?thesis
  proof (cases ok)
    case False
    with request_too_big [OF assms(1-4)] Pair show ?thesis by simp
  next
    case True
    then have size: "br_size r \<le> REQUEST_SIZE_LIMIT" using Pair by (simp add: check_request_size_def Let_def split: if_splits)
    show ?thesis
    proof (cases "map_of (md_torrents (nt_model nt)) (ci_info_hash c)")
      case None
      with Pair True s show ?thesis by simp
    next
      case (Some t)
      have i: "br_index r < length (tr_self_pieces t)"
        using accepts_request(3) [OF assms(4)] peers_invD(6) [OF assms(1) Some] ck(2) by simp
      show ?thesis
      proof (cases "self_choking (cs_flags s) \<or> \<not> tr_self_pieces t ! br_index r \<or> ci_info_hash c \<in> up_paused up")
        case yes: True
        then show ?thesis using Pair True s Some i sound_reject [OF assms(4)] ck(1) assms(3) by auto
      next
        case no: False
        then have "sound_replies checks up nt c ck (Request r) (send_block r outcome)"
          using assms(5) by (intro sound_block [OF assms(4) size _ s(1) Some]) auto
        with no Pair True s Some i show ?thesis by auto
      qed
    qed
  qed
qed

lemma upload_interested:
  assumes "ps_send_sum (peer_stat_of nt c) \<le> u64_max"
  shows "sound_replies checks up nt c ck Interested (upload_block checks up nt c Interested outcome)"
proof -
  have "\<exists>x. request_unchoking checks nt c = Some x \<and> (\<forall>m. x = Some (Some m) \<longrightarrow> m = Choke \<or> m = Unchoke)"
    using assms by (auto simp: request_unchoking_def next_conn_state_def Let_def split: option.split)
  then show ?thesis by (auto split: option.split)
qed

lemma upload_recv_sound:
  assumes "peers_inv self lay nt" "map_of (nt_conns nt) c = Some ck" "up_self_features up = self"
    and "check checks ck msg = Some (Inr ())" "ps_send_sum (peer_stat_of nt c) + REQUEST_SIZE_LIMIT \<le> u64_max"
  shows "sound_replies checks up nt c ck msg (upload_recv checks up nt c msg outcome)"
proof (cases msg)
  case Interested
  with upload_interested [of nt c] assms(5) show ?thesis by (auto simp: upload_recv_def split: option.split)
next
  case (Request r)
  with upload_request [OF assms(1-3) _ assms(5)] seed_request [OF assms(1-3)] assms(4) show ?thesis by (auto simp: upload_recv_def)
qed (simp_all add: upload_recv_def)

text \<open>Sending what is accepted does not change which connections there are.\<close>

lemma self_message_conns: "nt_conns (update_model_by_self_message c msg nt) = nt_conns nt"
  by (cases msg) (simp_all add: set_flag_def send_add_def upload_add_def)

lemma replies_accepted:
  assumes "map_of (nt_conns nt) c = Some ck" "\<forall>m \<in> set out. check checks ck m = Some (Inr ())"
  shows "\<exists>nt'. run_ops (net_exec self checks) (map (NtSend c) out) nt = Some nt'"
  using assms
proof (induction out arbitrary: nt)
  case (Cons m out)
  let ?nt = "update_model_by_self_message c m nt"
  have "net_exec self checks (NtSend c m) nt = Some ?nt" using Cons.prems by (simp add: conn_send_def rs_assert_def)
  moreover have "map_of (nt_conns ?nt) c = Some ck" using Cons.prems(1) by (simp add: self_message_conns)
  ultimately show ?case using Cons.IH [of ?nt] Cons.prems(2) by simp
qed simp

section \<open>Properties\<close>

text \<open>
  C6. Serving a peer: in every state the connections can reach, the handler of a message that a connection accepted returns, and each
  of its replies passes that connection's own check, so that sending them does not panic. A block is sent only in reply to a
  request for it, of at most 64 KiB and within its piece, of a piece we have, in a torrent that is not paused, to a peer we
  do not choke; and unless the torrent is being seeded, only to a peer that is not snubbed and that has received less than 256 KiB more
  than it has sent, the block included.
\<close>

theorem upload_serves_soundly:
  assumes "\<forall>h. layout_ok (lay h)" "admissible_run (net_exec self checks) (net_adm checks lay) ops peer_net_new"
    and "run_ops (net_exec self checks) ops peer_net_new = Some nt" "map_of (nt_conns nt) c = Some ck" "up_self_features up = self"
    and "check checks ck msg = Some (Inr ())" "ps_send_sum (peer_stat_of nt c) + REQUEST_SIZE_LIMIT \<le> u64_max"
  shows "\<exists>r out nt'. upload_recv checks up nt c msg outcome = Some (r, out) \<and> list_all (sound_reply checks up nt c ck msg) out \<and>
    run_ops (net_exec self checks) (map (NtSend c) out) nt = Some nt'"
proof -
  have inv: "peers_inv self lay nt"
    using nm.run_guarded [OF peers_inv_new [OF assms(1)] assms(2)] assms(3) by simp
  from upload_recv_sound [OF inv assms(4-7), of outcome] obtain r out where o: "upload_recv checks up nt c msg outcome = Some (r, out)"
    "list_all (sound_reply checks up nt c ck msg) out" unfolding sound_replies_def by blast
  then have "\<forall>m \<in> set out. check checks ck m = Some (Inr ())" by (auto simp: list_all_iff sound_reply_def)
  from replies_accepted [OF assms(4) this] o show ?thesis by blast
qed

definition upload_ops_ex :: "nat net_op list" where
  "upload_ops_ex = opened_net_ex @ [NtSend conn_ex Unchoke]"

definition checker_ex :: checker where
  "checker_ex = \<lparr>self_features = features_ex, peer_features = features_ex, ck_layout = layout_ex\<rparr>"

definition serving_ex :: "nat peer_net" where
  "serving_ex = \<lparr>nt_model = \<lparr>md_peers = [(hash_ex, {})],
       md_conns = [(hash_ex, [((1, 2), \<lparr>cs_conn_id = conn_ex, cs_peer_features = features_ex, cs_flags = new_flags\<lparr>self_choking := False\<rparr>\<rparr>)])],
       md_torrents = [(hash_ex, \<lparr>tr_info_hash = hash_ex, tr_layout = layout_ex, tr_self_pieces = [True, False], tr_peer_pieces = [], tr_peer_stats = {(1, 2)}\<rparr>)],
       md_sent = [NewTorrent hash_ex, InitTorrent hash_ex, ConnectPeer conn_ex, FlagChange SelfChokingF conn_ex False]\<rparr>,
     nt_conns = [(conn_ex, checker_ex)], nt_torrent_stats = [], nt_peer_stats = [(conn_ex, peer_stat_new)]\<rparr>"

lemma serving_run: "run_ops (net_exec features_ex True) upload_ops_ex peer_net_new = Some serving_ex"
  by (simp add: upload_ops_ex_def opened_net_ex_def net_ops_ex_def peer_net_new_def serving_ex_def ops_ex_simps conn_spawn_def rs_assert_def
      conn_send_def check_def check_features_def check_payload_def set_flag_def checker_ex_def)

lemma serving_adm: "admissible_run (net_exec features_ex True) (net_adm True net_lay_ex) upload_ops_ex peer_net_new"
  by (simp add: upload_ops_ex_def admissible_run_append opened_net_adm admissible_run_single accepts_plain split: option.split
      del: admissible_run.simps)

theorem upload_serves_soundly_witness:
  "\<exists>r out nt'. upload_recv True (upload_new features_ex) serving_ex conn_ex (Request (BlockRange 0 0 3)) (ReadBlock (\<lambda>i. 7)) = Some (r, out) \<and>
    list_all (sound_reply True (upload_new features_ex) serving_ex conn_ex checker_ex (Request (BlockRange 0 0 3))) out \<and>
    run_ops (net_exec features_ex True) (map (NtSend conn_ex) out) serving_ex = Some nt'"
proof -
  have l: "\<forall>h. layout_ok (net_lay_ex h)" by (simp add: net_lay_ex_def layout_ex_def layout_ok_def u32_max_def u64_max_def)
  have c: "map_of (nt_conns serving_ex) conn_ex = Some checker_ex" "up_self_features (upload_new features_ex) = features_ex"
    by (simp_all add: serving_ex_def upload_new_def)
  have k: "check True checker_ex (Request (BlockRange 0 0 3)) = Some (Inr ())"
    by (simp add: checker_ex_def check_def check_features_def check_payload_def check_range_def check_index_def piece_size_def layout_ex_def
        u32_max_def u64_max_def ensure_def)
  have "ps_send_sum (peer_stat_of serving_ex conn_ex) + REQUEST_SIZE_LIMIT \<le> u64_max"
    by (simp add: serving_ex_def peer_stat_of_def peer_stat_new_def REQUEST_SIZE_LIMIT_def u64_max_def)
  from upload_serves_soundly [OF l serving_adm serving_run c k this] show ?thesis .
qed

end
