(* ===== verification/Push.thy ===== *)
theory Push
  imports Peer_Conn_Spec
begin

text \<open>
  The push actor (\<open>src/rust/bt/txrx/src/push.rs\<close>): it tells new connections which pieces we have, and the others
  which pieces we have got since. A hash map is an association list, a set of a change that is consumed is the list of
  its elements in the order of iteration; the spare bits in the last byte of our bit field are a parameter.
\<close>

section \<open>Changes\<close>

record 'e push_change =
  pu_connects :: "'e conn_id set"
  pu_haves :: "piece_index set"

definition push_get ::
    "(info_hash \<times> 'e push_change) list option \<Rightarrow> info_hash \<Rightarrow> ('e push_change \<Rightarrow> 'e push_change) \<Rightarrow> (info_hash \<times> 'e push_change) list option" where
  "push_get v h f =
     (let m = (case v of None \<Rightarrow> [] | Some m \<Rightarrow> m);
          ch = (case map_of m h of None \<Rightarrow> \<lparr>pu_connects = {}, pu_haves = {}\<rparr> | Some ch \<Rightarrow> ch) in
      Some (AList.update h (f ch) m))"

fun push_fold :: "(info_hash \<times> 'e push_change) list option \<Rightarrow> 'e model_update \<Rightarrow> (info_hash \<times> 'e push_change) list option" where
  "push_fold v (ConnectPeer c) = push_get v (ci_info_hash c) (\<lambda>ch. ch\<lparr>pu_connects := insert c (pu_connects ch)\<rparr>)"
| "push_fold v (SetSelfPiece h i) = push_get v h (\<lambda>ch. ch\<lparr>pu_haves := insert i (pu_haves ch)\<rparr>)"
| "push_fold v _ = v"

type_synonym 'e pushed = "info_hash \<times> 'e conn_id list \<times> piece_index list"

section \<open>Messages\<close>

definition announcement :: "features \<Rightarrow> bool list \<Rightarrow> bitfield \<Rightarrow> 'e conn_state \<Rightarrow> message" where
  "announcement self spare pieces s =
     (let both = fast self \<and> fast (cs_peer_features s) in
      if both \<and> list_all id pieces then HaveAll
      else if both \<and> \<not> list_ex id pieces then HaveNone
      else msg_bitfield pieces spare)"

fun push_connects ::
    "features \<Rightarrow> bool list \<Rightarrow> 'e model \<Rightarrow> bitfield \<Rightarrow> 'e conn_id list \<Rightarrow> ('e conn_id \<times> message) list \<Rightarrow> ('e conn_id \<times> message) list" where
  "push_connects self spare m pieces [] bitfields = bitfields"
| "push_connects self spare m pieces (c # cs) bitfields =
     push_connects self spare m pieces cs
       (case conn_get m c of None \<Rightarrow> bitfields | Some s \<Rightarrow> AList.update c (announcement self spare pieces s) bitfields)"

fun retain_haves :: "bitfield \<Rightarrow> piece_index list \<Rightarrow> piece_index list option" where
  "retain_haves pieces [] = Some []"
| "retain_haves pieces (i # is) = do {
     b \<leftarrow> rs_index pieces i;
     rest \<leftarrow> retain_haves pieces is;
     Some (if b then i # rest else rest)
   }"

definition conn_ids :: "'e model \<Rightarrow> info_hash \<Rightarrow> 'e conn_id list" where
  "conn_ids m h = (case map_of (md_conns m) h of None \<Rightarrow> [] | Some cs \<Rightarrow> map (\<lambda>(pair, _). conn_id_of h pair) cs)"

fun push_loop ::
    "features \<Rightarrow> (info_hash \<Rightarrow> bool list) \<Rightarrow> 'e model \<Rightarrow> 'e pushed list \<Rightarrow> ('e conn_id \<times> message) list \<Rightarrow> ('e conn_id list \<times> piece_index list) list \<Rightarrow>
     (('e conn_id \<times> message) list \<times> ('e conn_id list \<times> piece_index list) list) option" where
  "push_loop self spare m [] bitfields haves = Some (bitfields, haves)"
| "push_loop self spare m ((h, connects, is) # changes) bitfields haves =
     (case map_of (md_torrents m) h of
        None \<Rightarrow> push_loop self spare m changes bitfields haves
      | Some t \<Rightarrow> do {
          let bitfields = push_connects self (spare h) m (tr_self_pieces t) connects bitfields;
          is \<leftarrow> retain_haves (tr_self_pieces t) is;
          push_loop self spare m changes bitfields
            (if is = [] then haves
             else haves @ [(filter (\<lambda>c. map_of bitfields c = None) (conn_ids m h), is)])
        })"

definition push_consume :: "features \<Rightarrow> (info_hash \<Rightarrow> bool list) \<Rightarrow> 'e model \<Rightarrow> 'e pushed list \<Rightarrow> ('e conn_id \<times> message) list option" where
  "push_consume self spare m changes = do {
     (bitfields, haves) \<leftarrow> push_loop self spare m changes [] [];
     Some (bitfields @ concat (map (\<lambda>(cs, is). concat (map (\<lambda>c. map (\<lambda>i. (c, Have i)) is) cs)) haves))
   }"

section \<open>Announcements are read back\<close>

text \<open>What the peer's side of the connection makes of an announcement of \<open>n\<close> pieces.\<close>

fun announced :: "nat \<Rightarrow> message \<Rightarrow> bitfield option" where
  "announced n (Bitfield bs) = (case try_from_bytes bs n of Some (Inr b) \<Rightarrow> Some b | _ \<Rightarrow> None)"
| "announced n HaveAll = Some (replicate n True)"
| "announced n HaveNone = Some (replicate n False)"
| "announced n _ = None"

definition spare_ok :: "bitfield \<Rightarrow> bool list \<Rightarrow> bool" where
  "spare_ok pieces spare \<longleftrightarrow> 8 dvd length (pieces @ spare) \<and> \<not> list_ex id spare"

lemma all_same: "\<forall>x \<in> set xs. x = a \<Longrightarrow> replicate (length xs) a = xs"
  by (metis replicate_length_same)

lemma accepts_fast:
  assumes "fast (self_features ck)" "fast (peer_features ck)"
  shows "check checks ck HaveAll = Some (Inr ())" "check checks ck HaveNone = Some (Inr ())"
  using assms by (simp_all add: check_def check_features_def check_payload_def ensure_def)

lemma announcement_ok:
  assumes "spare_ok pieces spare" "lnum_pieces (ck_layout ck) = length pieces"
    and "self_features ck = self" "peer_features ck = cs_peer_features s"
  shows "check checks ck (announcement self spare pieces s) = Some (Inr ())" "announced (length pieces) (announcement self spare pieces s) = Some pieces"
proof -
  have v: "view_bits (bits_bytes (pieces @ spare)) = pieces @ spare" using assms(1) view_bits_bytes by (simp add: spare_ok_def)
  have sp: "\<forall>b \<in> set spare. \<not> b" using assms(1) by (auto simp: spare_ok_def list_ex_iff)
  have b: "check checks ck (msg_bitfield pieces spare) = Some (Inr ())" "announced (length pieces) (msg_bitfield pieces spare) = Some pieces"
    using assms(2) v sp by (simp_all add: check_def check_features_def check_payload_def msg_bitfield_def check_spare_bits_def ensure_def
        try_from_bytes_def Let_def)
  show "check checks ck (announcement self spare pieces s) = Some (Inr ())"
    using b(1) assms(3,4) accepts_fast [of ck checks] by (simp add: announcement_def Let_def)
  have "list_all id pieces \<Longrightarrow> replicate (length pieces) True = pieces" "\<not> list_ex id pieces \<Longrightarrow> replicate (length pieces) False = pieces"
    by (auto intro!: all_same simp: list_all_iff list_ex_iff)
  then show "announced (length pieces) (announcement self spare pieces s) = Some pieces"
    using b(2) by (auto simp: announcement_def Let_def)
qed

section \<open>What is pushed\<close>

definition announces :: "'e peer_net \<Rightarrow> 'e conn_id \<times> message \<Rightarrow> bool" where
  "announces nt e \<longleftrightarrow> (case e of (c, msg) \<Rightarrow> \<exists>t. map_of (md_torrents (nt_model nt)) (ci_info_hash c) = Some t \<and>
     announced (length (tr_self_pieces t)) msg = Some (tr_self_pieces t) \<and>
     (\<forall>checks ck. map_of (nt_conns nt) c = Some ck \<longrightarrow> check checks ck msg = Some (Inr ())))"

lemma push_connects_ok:
  assumes "peers_inv self lay nt" "map_of (md_torrents (nt_model nt)) h = Some t" "spare_ok (tr_self_pieces t) spare"
  shows "\<forall>c \<in> set cs. ci_info_hash c = h \<Longrightarrow> list_all (announces nt) bitfields \<Longrightarrow> distinct (map fst bitfields) \<Longrightarrow>
    list_all (announces nt) (push_connects self spare (nt_model nt) (tr_self_pieces t) cs bitfields) \<and>
    distinct (map fst (push_connects self spare (nt_model nt) (tr_self_pieces t) cs bitfields)) \<and>
    fst ` set (push_connects self spare (nt_model nt) (tr_self_pieces t) cs bitfields) =
      fst ` set bitfields \<union> {c \<in> set cs. conn_get (nt_model nt) c \<noteq> None}"
proof (induction cs arbitrary: bitfields)
  case (Cons c cs)
  show ?case
  proof (cases "conn_get (nt_model nt) c")
    case None
    with Cons show ?thesis by auto
  next
    case (Some s)
    have h: "ci_info_hash c = h" using Cons.prems(1) by simp
    let ?a = "announcement self spare (tr_self_pieces t) s"
    have "announces nt (c, ?a)"
    proof -
      have len: "lnum_pieces (lay h) = length (tr_self_pieces t)" using peers_invD(6) [OF assms(1,2)] by simp
      have "check checks ck ?a = Some (Inr ())" if ck: "map_of (nt_conns nt) c = Some ck" for checks ck
        using peers_invD(4,5) [OF assms(1) ck] Some len h by (intro announcement_ok(1) [OF assms(3)]) auto
      moreover have "announced (length (tr_self_pieces t)) ?a = Some (tr_self_pieces t)"
        by (rule announcement_ok(2) [OF assms(3), of "\<lparr>self_features = self, peer_features = cs_peer_features s, ck_layout = lay h\<rparr>"]) (simp_all add: len)
      ultimately show ?thesis using assms(2) h by (simp add: announces_def)
    qed
    then have "list_all (announces nt) (AList.update c ?a bitfields)"
      using Cons.prems(2) update_entries [of c ?a bitfields] by (auto simp: list_all_iff)
    moreover have "distinct (map fst (AList.update c ?a bitfields))" using Cons.prems(3) by (simp add: distinct_update)
    ultimately show ?thesis using Cons.IH [of "AList.update c ?a bitfields"] Cons.prems(1) Some by (auto simp: update_keys)
  qed
qed simp

text \<open>The pieces of a change exist, and its connections are those of its torrent.\<close>

definition pushed_ok :: "'e model \<Rightarrow> 'e pushed \<Rightarrow> bool" where
  "pushed_ok m x \<longleftrightarrow> (case x of (h, cs, is) \<Rightarrow> (\<forall>c \<in> set cs. ci_info_hash c = h) \<and>
     (\<forall>t. map_of (md_torrents m) h = Some t \<longrightarrow> (\<forall>i \<in> set is. i < length (tr_self_pieces t))))"

definition spares_ok :: "(info_hash \<Rightarrow> bool list) \<Rightarrow> 'e model \<Rightarrow> bool" where
  "spares_ok spare m \<longleftrightarrow> (\<forall>h t. map_of (md_torrents m) h = Some t \<longrightarrow> spare_ok (tr_self_pieces t) (spare h))"

definition we_have :: "'e model \<Rightarrow> info_hash \<Rightarrow> piece_index \<Rightarrow> bool" where
  "we_have m h i \<longleftrightarrow> (\<exists>t. map_of (md_torrents m) h = Some t \<and> i < length (tr_self_pieces t) \<and> tr_self_pieces t ! i)"

lemma retain_haves_ok: "\<forall>i \<in> set is. i < length pieces \<Longrightarrow> retain_haves pieces is = Some (filter ((!) pieces) is)"
  by (induction "is") auto

lemma conn_ids_hash: "c \<in> set (conn_ids m h) \<Longrightarrow> ci_info_hash c = h"
  by (auto simp: conn_ids_def split: option.splits)

text \<open>Those told about single pieces are not told about all of them.\<close>

definition haves_ok :: "'e model \<Rightarrow> ('e conn_id \<times> message) list \<Rightarrow> info_hash set \<Rightarrow> ('e conn_id list \<times> piece_index list) list \<Rightarrow> bool" where
  "haves_ok m bitfields open_hashes haves \<longleftrightarrow> (\<forall>x \<in> set haves. \<forall>c \<in> set (fst x).
     c \<notin> fst ` set bitfields \<and> ci_info_hash c \<notin> open_hashes \<and> (\<forall>i \<in> set (snd x). we_have m (ci_info_hash c) i))"

definition told :: "'e model \<Rightarrow> 'e pushed list \<Rightarrow> 'e conn_id set" where
  "told m changes = {c. \<exists>h cs is. (h, cs, is) \<in> set changes \<and> map_of (md_torrents m) h \<noteq> None \<and> c \<in> set cs \<and> conn_get m c \<noteq> None}"

lemma told_Cons:
  "told m ((h, cs, is) # changes) =
     (if map_of (md_torrents m) h = None then {} else {c \<in> set cs. conn_get m c \<noteq> None}) \<union> told m changes"
  by (auto simp: told_def)

lemma push_loop_ok:
  assumes "peers_inv self lay nt" "spares_ok spare (nt_model nt)"
  shows "list_all (pushed_ok (nt_model nt)) changes \<Longrightarrow> distinct (map fst changes) \<Longrightarrow>
    list_all (announces nt) bitfields \<Longrightarrow> distinct (map fst bitfields) \<Longrightarrow> haves_ok (nt_model nt) bitfields (fst ` set changes) haves \<Longrightarrow>
    \<exists>bs hs. push_loop self spare (nt_model nt) changes bitfields haves = Some (bs, hs) \<and> list_all (announces nt) bs \<and> distinct (map fst bs) \<and>
      fst ` set bs = fst ` set bitfields \<union> told (nt_model nt) changes \<and> haves_ok (nt_model nt) bs {} hs"
proof (induction changes arbitrary: bitfields haves)
  case Nil
  then show ?case by (simp add: told_def haves_ok_def)
next
  case (Cons x changes)
  obtain h cs "is" where x: "x = (h, cs, is)" by (cases x)
  have rest: "list_all (pushed_ok (nt_model nt)) changes" "distinct (map fst changes)" "h \<notin> fst ` set changes"
    using Cons.prems(1,2) x by simp_all
  show ?case
  proof (cases "map_of (md_torrents (nt_model nt)) h")
    case None
    have "haves_ok (nt_model nt) bitfields (fst ` set changes) haves" using Cons.prems(5) by (auto simp: haves_ok_def)
    from Cons.IH [OF rest(1,2) Cons.prems(3,4) this] None show ?thesis by (simp add: x told_Cons)
  next
    case (Some t)
    have cs: "\<forall>c \<in> set cs. ci_info_hash c = h" and "is": "\<forall>i \<in> set is. i < length (tr_self_pieces t)"
      using Cons.prems(1) x Some by (auto simp: pushed_ok_def)
    have sp: "spare_ok (tr_self_pieces t) (spare h)" using assms(2) Some by (simp add: spares_ok_def)
    let ?bs = "push_connects self (spare h) (nt_model nt) (tr_self_pieces t) cs bitfields"
    let ?is = "filter ((!) (tr_self_pieces t)) is"
    let ?hs = "if ?is = [] then haves else haves @ [(filter (\<lambda>c. map_of ?bs c = None) (conn_ids (nt_model nt) h), ?is)]"
    note pc = push_connects_ok [OF assms(1) Some sp cs Cons.prems(3,4)]
    have keys: "fst ` set ?bs = fst ` set bitfields \<union> {c \<in> set cs. conn_get (nt_model nt) c \<noteq> None}" using pc by blast
    have before: "haves_ok (nt_model nt) ?bs (fst ` set changes) haves" unfolding haves_ok_def
    proof (intro ballI)
      fix y c assume "y \<in> set haves" "c \<in> set (fst y)"
      then have c: "c \<notin> fst ` set bitfields" "ci_info_hash c \<notin> insert h (fst ` set changes)" "\<forall>i \<in> set (snd y). we_have (nt_model nt) (ci_info_hash c) i"
        using Cons.prems(5) unfolding haves_ok_def x by simp_all
      then have "c \<notin> set cs" using cs by blast
      with c show "c \<notin> fst ` set ?bs \<and> ci_info_hash c \<notin> fst ` set changes \<and> (\<forall>i \<in> set (snd y). we_have (nt_model nt) (ci_info_hash c) i)"
        unfolding keys by simp
    qed
    have "haves_ok (nt_model nt) ?bs (fst ` set changes) [(filter (\<lambda>c. map_of ?bs c = None) (conn_ids (nt_model nt) h), ?is)]"
      unfolding haves_ok_def
    proof (intro ballI)
      fix y c assume y: "y \<in> set [(filter (\<lambda>c. map_of ?bs c = None) (conn_ids (nt_model nt) h), ?is)]" "c \<in> set (fst y)"
      then have "c \<notin> fst ` set ?bs" "ci_info_hash c = h" by (auto simp: map_of_eq_None_iff dest: conn_ids_hash)
      moreover have "we_have (nt_model nt) h i" if "i \<in> set ?is" for i using that "is" Some by (simp add: we_have_def)
      ultimately show "c \<notin> fst ` set ?bs \<and> ci_info_hash c \<notin> fst ` set changes \<and> (\<forall>i \<in> set (snd y). we_have (nt_model nt) (ci_info_hash c) i)"
        using rest(3) y(1) by simp
    qed
    with before have "haves_ok (nt_model nt) ?bs (fst ` set changes) ?hs" by (simp add: haves_ok_def)
    from Cons.IH [OF rest(1,2) conjunct1 [OF pc] conjunct1 [OF conjunct2 [OF pc]] this] pc Some
    show ?thesis by (simp add: x retain_haves_ok [OF "is"] told_Cons Un_assoc Let_def)
  qed
qed

section \<open>Properties\<close>

lemma filter_key:
  assumes "distinct (map fst xs)" "c \<in> fst ` set xs" "c \<notin> fst ` set ys"
  shows "\<exists>v. (c, v) \<in> set xs \<and> filter (\<lambda>e. fst e = c) (xs @ ys) = [(c, v)]"
proof -
  have "filter (\<lambda>e. fst e = c) ys = []" using assms(3) by (auto simp: filter_empty_conv)
  moreover have "\<exists>v. (c, v) \<in> set xs \<and> filter (\<lambda>e. fst e = c) xs = [(c, v)]" using assms(1,2)
  proof (induction xs)
    case (Cons e xs)
    show ?case
    proof (cases "fst e = c")
      case True
      then have "c \<notin> fst ` set xs" using Cons.prems(1) by auto
      then have "filter (\<lambda>e. fst e = c) xs = []" by (auto simp: filter_empty_conv)
      with True show ?thesis by (cases e) auto
    next
      case False
      with Cons show ?thesis by auto
    qed
  qed simp
  ultimately show ?thesis by simp
qed


definition pushes_ex :: "nat pushed list" where
  "pushes_ex = [(hash_ex, [conn_ex], [0])]"

definition spare_ex :: "info_hash \<Rightarrow> bool list" where
  "spare_ex h = replicate 6 False"

definition connected_ex :: "nat peer_net" where
  "connected_ex = \<lparr>nt_model = \<lparr>md_peers = [(hash_ex, {})],
       md_conns = [(hash_ex, [((1, 2), \<lparr>cs_conn_id = conn_ex, cs_peer_features = features_ex, cs_flags = new_flags\<rparr>)])],
       md_torrents = [(hash_ex, \<lparr>tr_info_hash = hash_ex, tr_layout = layout_ex, tr_self_pieces = [True, False], tr_peer_pieces = [], tr_peer_stats = {(1, 2)}\<rparr>)],
       md_sent = [NewTorrent hash_ex, InitTorrent hash_ex, ConnectPeer conn_ex]\<rparr>,
     nt_conns = [(conn_ex, \<lparr>self_features = features_ex, peer_features = features_ex, ck_layout = layout_ex\<rparr>)],
     nt_torrent_stats = [], nt_peer_stats = [(conn_ex, peer_stat_new)]\<rparr>"

lemma connected_run: "run_ops (net_exec features_ex True) opened_net_ex peer_net_new = Some connected_ex"
  by (simp add: opened_net_ex_def net_ops_ex_def peer_net_new_def connected_ex_def ops_ex_simps conn_spawn_def rs_assert_def)


end
