(* ===== verification/Interest.thy ===== *)
theory Interest
  imports Download_State
begin

text \<open>
  The actor of the download side that tells peers whether we are interested in their pieces and asks choking peers for
  unchoking (\<open>src/rust/bt/txrx/src/download/push.rs\<close>), on top of the model and of a \<open>FixedDelaySet\<close> of
  the connections that it has asked.

  A set of a change that is consumed is the list of its elements in the order of iteration; the messages that a
  handler sends are its result.
\<close>

section \<open>Changes\<close>

definition UNCHOKING_REQUEST_THROTTLE :: nat where "UNCHOKING_REQUEST_THROTTLE = 32 * 1000000000"

record 'e interest_change =
  in_disconnects :: "'e conn_id set"
  in_all :: bool
  in_some :: "'e conn_id set"

definition interest_get ::
    "(info_hash \<times> 'e interest_change) list option \<Rightarrow> info_hash \<Rightarrow> ('e interest_change \<Rightarrow> 'e interest_change) \<Rightarrow>
     (info_hash \<times> 'e interest_change) list option" where
  "interest_get v h f =
     (let m = (case v of None \<Rightarrow> [] | Some m \<Rightarrow> m);
          ch = (case map_of m h of None \<Rightarrow> \<lparr>in_disconnects = {}, in_all = False, in_some = {}\<rparr> | Some ch \<Rightarrow> ch) in
      Some (AList.update h (f ch) m))"

fun interest_fold :: "(info_hash \<times> 'e interest_change) list option \<Rightarrow> 'e model_update \<Rightarrow> (info_hash \<times> 'e interest_change) list option" where
  "interest_fold v (DisconnectPeer c) = interest_get v (ci_info_hash c) (\<lambda>ch. ch\<lparr>in_disconnects := insert c (in_disconnects ch)\<rparr>)"
| "interest_fold v (SetSelfPiece h _) = interest_get v h (\<lambda>ch. ch\<lparr>in_all := True\<rparr>)"
| "interest_fold v (InitPeer c) = interest_get v (ci_info_hash c) (\<lambda>ch. ch\<lparr>in_some := insert c (in_some ch)\<rparr>)"
| "interest_fold v (SetPeerPiece c _) = interest_get v (ci_info_hash c) (\<lambda>ch. ch\<lparr>in_some := insert c (in_some ch)\<rparr>)"
| "interest_fold v (FlagChange PeerChokingF c _) = interest_get v (ci_info_hash c) (\<lambda>ch. ch\<lparr>in_some := insert c (in_some ch)\<rparr>)"
| "interest_fold v _ = v"

type_synonym 'e interest_consumed = "info_hash \<times> 'e conn_id list \<times> bool \<times> 'e conn_id list"

section \<open>Interest\<close>

definition iter_zeros :: "bitfield \<Rightarrow> nat list" where
  "iter_zeros b = filter (\<lambda>i. \<not> b ! i) [0..<length b]"

fun any_of :: "bitfield \<Rightarrow> nat list \<Rightarrow> bool option" where
  "any_of pieces [] = Some False"
| "any_of pieces (i # is) = do { b \<leftarrow> rs_index pieces i; if b then Some True else any_of pieces is }"

definition interested :: "'e torrent \<Rightarrow> 'e conn_id \<Rightarrow> bool option option" where
  "interested t c =
     (case map_of (tr_peer_pieces t) (ci_conn_pair c) of
        None \<Rightarrow> Some None
      | Some pieces \<Rightarrow> map_option Some (any_of pieces (iter_zeros (tr_self_pieces t))))"

section \<open>Handlers\<close>

type_synonym 'e interest_state = "('e conn_id \<times> bool) list \<times> ('e conn_id \<times> bool) list \<times> 'e conn_id delay_set"

definition conn_list :: "'e model \<Rightarrow> info_hash \<Rightarrow> ('e conn_id \<times> 'e conn_state) list" where
  "conn_list m h = (case map_of (md_conns m) h of None \<Rightarrow> [] | Some cs \<Rightarrow> map (\<lambda>(pair, s). (conn_id_of h pair, s)) cs)"

definition changed_conns :: "'e model \<Rightarrow> 'e conn_id list \<Rightarrow> ('e conn_id \<times> 'e conn_state) list" where
  "changed_conns m cs = List.map_filter (\<lambda>c. map_option (Pair c) (conn_get m c)) cs"

definition interest_peer :: "'e torrent \<Rightarrow> 'e conn_id \<times> 'e conn_state \<Rightarrow> 'e interest_state \<Rightarrow> 'e interest_state option" where
  "interest_peer t p st =
     (case (p, st) of ((c, s), (interests, requests, timers)) \<Rightarrow> do {
        interest \<leftarrow> interested t c;
        let (interests, already_sent) =
          (case (self_interested (cs_flags s), interest) of
             (False, Some True) \<Rightarrow> (AList.update c True interests, True)
           | (True, Some False) \<Rightarrow> (AList.update c False interests, False)
           | _ \<Rightarrow> (interests, False));
        if peer_choking (cs_flags s) \<and> interest = Some True then Some (interests, requests @ [(c, already_sent)], timers)
        else do {
          timers \<leftarrow> conns_remove_peer timers c;
          Some (interests, requests, timers)
        }
      })"

fun interest_peers :: "'e torrent \<Rightarrow> ('e conn_id \<times> 'e conn_state) list \<Rightarrow> 'e interest_state \<Rightarrow> 'e interest_state option" where
  "interest_peers t [] st = Some st"
| "interest_peers t (p # ps) st = do { st \<leftarrow> interest_peer t p st; interest_peers t ps st }"

fun drop_requests :: "'e conn_id list \<Rightarrow> 'e conn_id delay_set \<Rightarrow> 'e conn_id delay_set option" where
  "drop_requests [] timers = Some timers"
| "drop_requests (c # cs) timers = do { timers \<leftarrow> conns_remove_peer timers c; drop_requests cs timers }"

fun interest_loop :: "'e model \<Rightarrow> 'e interest_consumed list \<Rightarrow> 'e interest_state \<Rightarrow> 'e interest_state option" where
  "interest_loop m [] st = Some st"
| "interest_loop m ((h, disconnects, all, some) # changes) (interests, requests, timers) = do {
     timers \<leftarrow> drop_requests disconnects timers;
     (case map_of (md_torrents m) h of
        None \<Rightarrow> interest_loop m changes (interests, requests, timers)
      | Some t \<Rightarrow> do {
          st \<leftarrow> interest_peers t (if all then conn_list m h else changed_conns m some) (interests, requests, timers);
          interest_loop m changes st
        })
   }"

definition interest_consume ::
    "place \<Rightarrow> 'e model \<Rightarrow> 'e interest_consumed list \<Rightarrow> int \<Rightarrow> 'e conn_id delay_set \<Rightarrow>
     (('e conn_id \<times> message) list \<times> 'e conn_id delay_set) option" where
  "interest_consume place m changes now timers = do {
     (interests, requests, timers) \<leftarrow> interest_loop m changes ([], [], timers);
     timers \<leftarrow> ds_extend place timers (map fst requests) now;
     Some (map (\<lambda>(c, interest). (c, if interest then Interested else NotInterested)) interests @
           map (\<lambda>(c, _). (c, Interested)) (filter (\<lambda>(_, already_sent). \<not> already_sent) requests), timers)
   }"

fun still_choked :: "'e model \<Rightarrow> 'e conn_id list \<Rightarrow> 'e conn_id list option" where
  "still_choked m [] = Some []"
| "still_choked m (c # cs) = do {
     keep \<leftarrow>
       (case (map_of (md_torrents m) (ci_info_hash c), conn_get m c) of
          (Some t, Some s) \<Rightarrow>
            if peer_choking (cs_flags s) then map_option (\<lambda>interest. interest = Some True) (interested t c) else Some False
        | _ \<Rightarrow> Some False);
     rest \<leftarrow> still_choked m cs;
     Some (if keep then c # rest else rest)
   }"

definition ask_unchoking ::
    "place \<Rightarrow> 'e model \<Rightarrow> int \<Rightarrow> 'e conn_id delay_set \<Rightarrow> (('e conn_id \<times> message) list \<times> 'e conn_id delay_set) option" where
  "ask_unchoking place m now timers = do {
     (cs, timers) \<leftarrow> drain_expired timers now;
     requests \<leftarrow> still_choked m cs;
     timers \<leftarrow> ds_extend place timers requests now;
     Some (map (\<lambda>c. (c, Interested)) requests, timers)
   }"

section \<open>What is wanted\<close>

text \<open>Whether a peer has a piece that we lack, if its pieces are known.\<close>

definition wanted :: "'e model \<Rightarrow> 'e conn_id \<Rightarrow> bool option" where
  "wanted m c =
     (case map_of (md_torrents m) (ci_info_hash c) of
        None \<Rightarrow> None
      | Some t \<Rightarrow>
          map_option (\<lambda>b. \<exists>i < length (tr_self_pieces t). \<not> tr_self_pieces t ! i \<and> b ! i) (map_of (tr_peer_pieces t) (ci_conn_pair c)))"

lemma any_of_ok: "\<forall>i \<in> set is. i < length b \<Longrightarrow> any_of b is = Some (\<exists>i \<in> set is. b ! i)"
  by (induction "is") auto

lemma interested_wanted:
  assumes "md_inv m" and "map_of (md_torrents m) (ci_info_hash c) = Some t"
  shows "interested t c = Some (wanted m c)"
proof -
  have "torrent_ok (conn_get m) (ci_info_hash c) t" using md_invD(2) [OF assms] .
  then have l: "map_of (tr_peer_pieces t) p = Some b \<Longrightarrow> length b = length (tr_self_pieces t)" for p b
    unfolding torrent_ok_def by blast
  have "any_of b (iter_zeros (tr_self_pieces t)) = Some (\<exists>i < length (tr_self_pieces t). \<not> tr_self_pieces t ! i \<and> b ! i)"
    if "map_of (tr_peer_pieces t) (ci_conn_pair c) = Some b" for b
    using any_of_ok [of "iter_zeros (tr_self_pieces t)" b] l [OF that] by (auto simp: iter_zeros_def)
  then show ?thesis using assms(2) by (auto simp: interested_def wanted_def split: option.split)
qed

definition choking_us :: "'e model \<Rightarrow> 'e conn_id \<Rightarrow> bool" where
  "choking_us m c \<longleftrightarrow> (\<exists>s. conn_get m c = Some s \<and> peer_choking (cs_flags s))"

definition told_interested :: "'e model \<Rightarrow> 'e conn_id \<Rightarrow> bool" where
  "told_interested m c \<longleftrightarrow> (\<exists>s. conn_get m c = Some s \<and> self_interested (cs_flags s))"

definition verdict :: "'e model \<Rightarrow> 'e conn_id \<Rightarrow> bool option" where
  "verdict m c = (if wanted m c = Some (\<not> told_interested m c) then wanted m c else None)"

abbreviation pending :: "'e model \<Rightarrow> 'e conn_id \<Rightarrow> bool" where
  "pending m c \<equiv> choking_us m c \<and> wanted m c = Some True"

section \<open>Consuming changes\<close>

text \<open>The state of the loop after visiting the connections of \<open>V\<close> and dropping those of \<open>D\<close>.\<close>

definition visited :: "'e model \<Rightarrow> int \<Rightarrow> 'e conn_id delay_set \<Rightarrow> 'e conn_id set \<Rightarrow> 'e conn_id set \<Rightarrow> 'e interest_state \<Rightarrow> bool" where
  "visited m now timers0 V D st \<longleftrightarrow>
     (case st of (interests, requests, timers) \<Rightarrow>
        ds_inv now timers \<and> ds_delay timers = ds_delay timers0 \<and>
        distinct (map fst interests) \<and> (\<forall>c b. (c, b) \<in> set interests \<longleftrightarrow> c \<in> V \<and> verdict m c = Some b) \<and>
        distinct (map fst requests) \<and> (\<forall>c b. (c, b) \<in> set requests \<longleftrightarrow> c \<in> V \<and> pending m c \<and> b = (verdict m c = Some True)) \<and>
        (\<forall>c. \<not> (c \<in> V \<and> pending m c) \<longrightarrow> ds_due timers c = (if c \<in> V \<union> D then None else ds_due timers0 c)))"

lemma update_fresh: "k \<notin> fst ` set m \<Longrightarrow> AList.update k v m = m @ [(k, v)]"
  by (induction m) auto

lemma interests_step:
  assumes "conn_get m c = Some s" and "interest = wanted m c" and "c \<notin> fst ` set interests"
  shows "(case (self_interested (cs_flags s), interest) of
      (False, Some True) \<Rightarrow> (AList.update c True interests, True)
    | (True, Some False) \<Rightarrow> (AList.update c False interests, False)
    | _ \<Rightarrow> (interests, False)) =
    (interests @ (case verdict m c of None \<Rightarrow> [] | Some b \<Rightarrow> [(c, b)]), verdict m c = Some True)"
  using assms by (auto simp: verdict_def told_interested_def update_fresh split: option.split bool.split)

lemma interest_peer_ok:
  assumes "md_inv m" "map_of (md_torrents m) (ci_info_hash c) = Some t" "conn_get m c = Some s" "c \<notin> V"
    and "visited m now timers0 V D st"
  shows "\<exists>st'. interest_peer t (c, s) st = Some st' \<and> visited m now timers0 (insert c V) D st'"
proof -
  obtain ys rs tm where st: "st = (ys, rs, tm)" by (cases st)
  have inv: "ds_inv now tm" "ds_delay tm = ds_delay timers0" "distinct (map fst ys)" "distinct (map fst rs)"
    "\<And>c b. (c, b) \<in> set ys \<longleftrightarrow> c \<in> V \<and> verdict m c = Some b"
    "\<And>c b. (c, b) \<in> set rs \<longleftrightarrow> c \<in> V \<and> pending m c \<and> b = (verdict m c = Some True)"
    "\<And>c. \<not> (c \<in> V \<and> pending m c) \<Longrightarrow> ds_due tm c = (if c \<in> V \<union> D then None else ds_due timers0 c)"
    using assms(5) by (auto simp: visited_def st)
  have fresh: "c \<notin> fst ` set ys" "c \<notin> fst ` set rs" using inv(5,6) assms(4) by auto
  define ys' where "ys' = ys @ (case verdict m c of None \<Rightarrow> [] | Some b \<Rightarrow> [(c, b)])"
  have ys': "distinct (map fst ys')" "\<And>d b. (d, b) \<in> set ys' \<longleftrightarrow> d \<in> insert c V \<and> verdict m d = Some b"
    using inv(3,5) fresh assms(4) by (auto simp: ys'_def split: option.splits)
  have run: "interest_peer t (c, s) st =
      (if pending m c then Some (ys', rs @ [(c, verdict m c = Some True)], tm)
       else do { tm \<leftarrow> conns_remove_peer tm c; Some (ys', rs, tm) })"
    using interests_step [OF assms(3) refl fresh(1)] assms(3)
    by (simp add: interest_peer_def st interested_wanted [OF assms(1,2)] choking_us_def ys'_def)
  show ?thesis
  proof (cases "pending m c")
    case True
    with run have "interest_peer t (c, s) st = Some (ys', rs @ [(c, verdict m c = Some True)], tm)" by simp
    moreover have "visited m now timers0 (insert c V) D (ys', rs @ [(c, verdict m c = Some True)], tm)"
      using True inv ys' fresh by (auto simp: visited_def)
    ultimately show ?thesis by blast
  next
    case False
    obtain tm' where tm': "conns_remove_peer tm c = Some tm'" "ds_inv now tm'" "ds_delay tm' = ds_delay tm" "ds_due tm' = (ds_due tm)(c := None)"
      using tm.drop_due [OF inv(1), of c] by (auto simp: conns_remove_peer_def)
    with run False have "interest_peer t (c, s) st = Some (ys', rs, tm')" by simp
    moreover have "visited m now timers0 (insert c V) D (ys', rs, tm')"
      using False inv ys' tm' by (auto simp: visited_def)
    ultimately show ?thesis by blast
  qed
qed

lemma interest_peers_ok:
  assumes "md_inv m" "map_of (md_torrents m) h = Some t"
    and "\<forall>(c, s) \<in> set ps. ci_info_hash c = h \<and> conn_get m c = Some s" "distinct (map fst ps)" "fst ` set ps \<inter> V = {}"
    and "visited m now timers0 V D st"
  shows "\<exists>st'. interest_peers t ps st = Some st' \<and> visited m now timers0 (V \<union> fst ` set ps) D st'"
  using assms(3-6)
proof (induction ps arbitrary: V st)
  case (Cons p ps)
  obtain c s where p: "p = (c, s)" by (cases p)
  have c: "ci_info_hash c = h" "conn_get m c = Some s" "c \<notin> V" using Cons.prems p by auto
  obtain st' where st': "interest_peer t p st = Some st'" "visited m now timers0 (insert c V) D st'"
    using interest_peer_ok [OF assms(1) _ c(2,3) Cons.prems(4)] assms(2) c(1) p by auto
  have "fst ` set ps \<inter> insert c V = {}" using Cons.prems p by auto
  from Cons.IH [OF _ _ this st'(2)] Cons.prems show ?case using st'(1) p by auto
qed simp

lemma drop_requests_ok:
  "visited m now timers0 V D (ys, rs, tm) \<Longrightarrow>
     \<exists>tm'. drop_requests cs tm = Some tm' \<and> visited m now timers0 V (D \<union> set cs) (ys, rs, tm')"
proof (induction cs arbitrary: tm D)
  case (Cons c cs)
  then have "ds_inv now tm" by (simp add: visited_def)
  then obtain tm' where tm': "conns_remove_peer tm c = Some tm'" "ds_inv now tm'" "ds_delay tm' = ds_delay tm" "ds_due tm' = (ds_due tm)(c := None)"
    using tm.drop_due [of now tm c] by (auto simp: conns_remove_peer_def)
  then have "visited m now timers0 V (insert c D) (ys, rs, tm')" using Cons.prems by (auto simp: visited_def)
  from Cons.IH [OF this] tm'(1) show ?case by simp
qed simp

text \<open>The tables of connections have no duplicates.\<close>

definition tables_ok :: "'e model \<Rightarrow> bool" where
  "tables_ok m \<longleftrightarrow> (\<forall>h cs. map_of (md_conns m) h = Some cs \<longrightarrow> distinct (map fst cs))"

lemma tables_same: "tables_ok m \<Longrightarrow> md_conns m' = md_conns m \<Longrightarrow> tables_ok m'"
  by (simp add: tables_ok_def)

lemma tables_call:
  assumes "tables_ok m" "md_call p m = Some (r, m')"
  shows "tables_ok m'"
proof (cases p)
  case (OpConnect c f)
  with assms show ?thesis
    by (auto simp: tables_ok_def connect_peer_def conn_insert_def md_send_def rs_assert_bind stats_insert_def AList.update_conv' Let_def
        distinct_update split: option.splits if_splits elim!: bind_eq_SomeE)
next
  case (OpDisconnect c)
  with assms show ?thesis
    by (auto simp: tables_ok_def disconnect_peer_def conn_remove_def md_send_def rs_assert_bind stats_remove_def peer_pieces_remove_def
        AList.update_conv' AList.delete_conv' Let_def distinct_delete split: option.splits if_splits elim!: bind_eq_SomeE)
next
  case (OpSetFlag c fl v)
  with assms show ?thesis
    by (auto simp: tables_ok_def conn_set_def md_send_def AList.update_conv' Let_def distinct_update split: option.splits if_splits)
qed (use assms in \<open>auto simp: new_torrent_def peers_insert_torrent_def remove_torrent_def torrents_remove_def
      init_torrent_def torrents_insert_def torrent_new_def md_send_def
      peers_remove_torrent_def peers_insert_def peers_remove_def set_self_piece_def peer_insert_def set_peer_piece_def
      rs_assert_bind rs_index_def Let_def intro!: tables_same [OF assms(1)]
      split: option.splits prod.splits bool.splits if_splits\<close>)

lemma tables_run: "tables_ok m \<Longrightarrow> run_ops md_exec ps m = Some m' \<Longrightarrow> tables_ok m'"
proof (induction ps arbitrary: m)
  case (Cons p ps)
  then show ?case by (auto simp: md_exec_def elim!: bind_eq_SomeE dest: tables_call)
qed simp

lemma conn_list_ok:
  assumes "tables_ok m"
  shows "\<forall>(c, s) \<in> set (conn_list m h). ci_info_hash c = h \<and> conn_get m c = Some s" "distinct (map fst (conn_list m h))"
    "fst ` set (conn_list m h) = {c. ci_info_hash c = h \<and> conn_get m c \<noteq> None}"
proof -
  have d: "distinct (map fst cs)" if "map_of (md_conns m) h = Some cs" for cs using assms that by (auto simp: tables_ok_def)
  show all: "\<forall>(c, s) \<in> set (conn_list m h). ci_info_hash c = h \<and> conn_get m c = Some s"
    using d by (auto simp: conn_list_def conn_get_def conn_id_of_def split: option.splits)
  show "distinct (map fst (conn_list m h))"
    using d by (auto simp: conn_list_def conn_id_of_def comp_def case_prod_beta distinct_map inj_on_def split: option.splits)
  have "c \<in> fst ` set (conn_list m h)" if c: "ci_info_hash c = h" "conn_get m c = Some s" for c s
  proof -
    obtain cs where "map_of (md_conns m) h = Some cs" "map_of cs (ci_conn_pair c) = Some s"
      using c by (auto simp: conn_get_def split: option.splits)
    moreover from this(2) have "(ci_conn_pair c, s) \<in> set cs" by (rule map_of_SomeD)
    moreover have "conn_id_of h (ci_conn_pair c) = c" using c(1) by (simp add: conn_id_of_def)
    ultimately show ?thesis by (force simp: conn_list_def)
  qed
  with all show "fst ` set (conn_list m h) = {c. ci_info_hash c = h \<and> conn_get m c \<noteq> None}" by fastforce
qed

lemma changed_conns_ok:
  shows "\<forall>(c, s) \<in> set (changed_conns m cs). c \<in> set cs \<and> conn_get m c = Some s"
    "distinct cs \<Longrightarrow> distinct (map fst (changed_conns m cs))"
    "fst ` set (changed_conns m cs) = {c \<in> set cs. conn_get m c \<noteq> None}"
  by (induction cs) (auto simp: changed_conns_def split: option.splits)

text \<open>A change lists every connection once and under its own torrent.\<close>

definition change_ok :: "'e interest_consumed \<Rightarrow> bool" where
  "change_ok ch \<longleftrightarrow> (case ch of (h, disconnects, all, some) \<Rightarrow> distinct some \<and> (\<forall>c \<in> set some. ci_info_hash c = h))"

definition touched :: "'e model \<Rightarrow> 'e interest_consumed list \<Rightarrow> 'e conn_id set" where
  "touched m changes =
     {c. conn_get m c \<noteq> None \<and> map_of (md_torrents m) (ci_info_hash c) \<noteq> None \<and>
       (\<exists>(h, disconnects, all, some) \<in> set changes. ci_info_hash c = h \<and> (all \<or> c \<in> set some))}"

definition dropped :: "'e interest_consumed list \<Rightarrow> 'e conn_id set" where
  "dropped changes = (\<Union>(h, disconnects, all, some) \<in> set changes. set disconnects)"

lemma change_peers_ok:
  assumes "tables_ok m" "change_ok (h, disconnects, all, some)" "map_of (md_torrents m) h = Some t"
    and ps: "ps = (if all then conn_list m h else changed_conns m some)"
  shows "\<forall>(c, s) \<in> set ps. ci_info_hash c = h \<and> conn_get m c = Some s" "distinct (map fst ps)"
    "fst ` set ps = touched m [(h, disconnects, all, some)]"
proof -
  have "distinct some" "\<forall>c \<in> set some. ci_info_hash c = h" using assms(2) by (auto simp: change_ok_def)
  note some = this changed_conns_ok [where m = m and cs = some]
  note every = conn_list_ok [OF assms(1), of h]
  show "distinct (map fst ps)" using some every ps by simp
  show "\<forall>(c, s) \<in> set ps. ci_info_hash c = h \<and> conn_get m c = Some s" using some(2,3) every(1) ps by auto
  show "fst ` set ps = touched m [(h, disconnects, all, some)]"
    using some(2,5) every(3) assms(3) ps by (auto simp: touched_def)
qed

lemma interest_loop_ok:
  assumes "md_inv m" "tables_ok m"
    and "list_all change_ok changes" "distinct (map fst changes)" "\<forall>c \<in> V. ci_info_hash c \<notin> fst ` set changes"
    and "visited m now timers0 V D st"
  shows "\<exists>st'. interest_loop m changes st = Some st' \<and> visited m now timers0 (V \<union> touched m changes) (D \<union> dropped changes) st'"
  using assms(3-6)
proof (induction changes arbitrary: V D st)
  case (Cons ch changes)
  obtain h ds al sm where ch: "ch = (h, ds, al, sm)" by (cases ch)
  obtain ys rs tm0 where st: "st = (ys, rs, tm0)" by (cases st)
  obtain tm1 where tm1: "drop_requests ds tm0 = Some tm1" "visited m now timers0 V (D \<union> set ds) (ys, rs, tm1)"
    using drop_requests_ok Cons.prems(4) st by blast
  have d: "dropped (ch # changes) = set ds \<union> dropped changes" by (simp add: dropped_def ch)
  have t: "touched m (ch # changes) = touched m [ch] \<union> touched m changes" by (auto simp: touched_def)
  define ps where "ps = (if al then conn_list m h else changed_conns m sm)"
  show ?case
  proof (cases "map_of (md_torrents m) h")
    case None
    then have "touched m [ch] = {}" by (auto simp: touched_def ch)
    with Cons.IH [OF _ _ _ tm1(2)] Cons.prems show ?thesis using None tm1(1) ch st d t by (auto simp: Un_assoc)
  next
    case (Some tr)
    have ok: "change_ok (h, ds, al, sm)" using Cons.prems(1) ch by simp
    note ps_ok = change_peers_ok [OF assms(2) ok Some ps_def]
    have "fst ` set ps \<inter> V = {}" using ps_ok(1) Cons.prems(3) ch by force
    then obtain st' where st': "interest_peers tr ps (ys, rs, tm1) = Some st'"
      "visited m now timers0 (V \<union> touched m [ch]) (D \<union> set ds) st'"
      using interest_peers_ok [OF assms(1) Some ps_ok(1,2) _ tm1(2)] ps_ok(3) ch by auto
    have "\<forall>c \<in> V \<union> touched m [ch]. ci_info_hash c \<notin> fst ` set changes"
      using Cons.prems(2,3) ch by (auto simp: touched_def)
    from Cons.IH [OF _ _ this st'(2)] Cons.prems show ?thesis
      using Some tm1(1) st'(1) ch st d t by (auto simp: ps_def Un_assoc)
  qed
qed (simp add: touched_def dropped_def)

section \<open>Requests for unchoking\<close>

lemma ds_extend_ok:
  assumes "placement place" "ds_inv now tm"
  shows "\<exists>tm'. ds_extend place tm cs now = Some tm' \<and> ds_inv now tm' \<and> ds_delay tm' = ds_delay tm \<and>
    (\<forall>c. ds_due tm' c = (if c \<in> set cs then Some (now + int (ds_delay tm)) else ds_due tm c))"
  using assms(2)
proof (induction cs arbitrary: tm)
  case (Cons c cs)
  obtain b tm1 where tm1: "ds_insert_now place tm c now = Some (b, tm1)" "ds_inv now tm1" "ds_delay tm1 = ds_delay tm"
    "ds_due tm1 = (ds_due tm)(c \<mapsto> now + int (ds_delay tm))"
    using tm.put_due [OF assms(1) Cons.prems, of c] by blast
  from Cons.IH [OF tm1(2)] show ?case using tm1 by auto
qed simp

lemma still_choked_ok:
  assumes "md_inv m"
  shows "still_choked m cs = Some (filter (pending m) cs)"
proof (induction cs)
  case (Cons c cs)
  have "(case (map_of (md_torrents m) (ci_info_hash c), conn_get m c) of
          (Some t, Some s) \<Rightarrow>
            if peer_choking (cs_flags s) then map_option (\<lambda>interest. interest = Some True) (interested t c) else Some False
        | _ \<Rightarrow> Some False) = Some (pending m c)"
    using interested_wanted [OF assms, of c]
    by (auto simp: choking_us_def wanted_def [of m c] split: option.split)
  with Cons show ?case by simp
qed simp

section \<open>Properties\<close>

lemma in_map_snd: "(c, x) \<in> set (map (\<lambda>(c, b). (c, f b)) zs) \<longleftrightarrow> (\<exists>b. (c, b) \<in> set zs \<and> x = f b)"
  by auto

lemma interest_messages:
  assumes "visited m now timers0 V D (ys, rs, tm)"
  defines "out \<equiv> map (\<lambda>(c, interest). (c, if interest then Interested else NotInterested)) ys @
    map (\<lambda>(c, _). (c, Interested)) (filter (\<lambda>(_, already_sent). \<not> already_sent) rs)"
  shows "distinct (map fst out)"
    and "(c, msg) \<in> set out \<longleftrightarrow> c \<in> V \<and>
      (msg = Interested \<and> wanted m c = Some True \<and> (\<not> told_interested m c \<or> choking_us m c) \<or>
       msg = NotInterested \<and> wanted m c = Some False \<and> told_interested m c)"
proof -
  have ys: "distinct (map fst ys)" "\<And>c b. (c, b) \<in> set ys \<longleftrightarrow> c \<in> V \<and> verdict m c = Some b"
    and rs: "distinct (map fst rs)" "\<And>c b. (c, b) \<in> set rs \<longleftrightarrow> c \<in> V \<and> pending m c \<and> b = (verdict m c = Some True)"
    using assms(1) by (auto simp: visited_def)
  have fsts: "map fst out = map fst ys @ map fst (filter (\<lambda>(_, already_sent). \<not> already_sent) rs)"
    by (simp add: out_def case_prod_beta)
  have "(c, b) \<notin> set ys" if "(c, False) \<in> set rs" for c b
    using that unfolding ys(2) rs(2) by (simp add: verdict_def split: if_splits)
  then have "fst ` set ys \<inter> fst ` set (filter (\<lambda>(_, already_sent). \<not> already_sent) rs) = {}" by auto
  then show "distinct (map fst out)" using ys(1) rs(1) by (simp add: fsts distinct_map_filter)
  have unsent: "(\<exists>b. (c, b) \<in> set (filter (\<lambda>(_, already_sent). \<not> already_sent) rs)) \<longleftrightarrow> (c, False) \<in> set rs" by auto
  have "(c, msg) \<in> set out \<longleftrightarrow> (\<exists>b. (c, b) \<in> set ys \<and> msg = (if b then Interested else NotInterested)) \<or> ((c, False) \<in> set rs \<and> msg = Interested)"
    unfolding out_def set_append Un_iff in_map_snd using unsent by blast
  then show "(c, msg) \<in> set out \<longleftrightarrow> c \<in> V \<and>
      (msg = Interested \<and> wanted m c = Some True \<and> (\<not> told_interested m c \<or> choking_us m c) \<or>
       msg = NotInterested \<and> wanted m c = Some False \<and> told_interested m c)"
    unfolding ys(2) rs(2) verdict_def by (cases "wanted m c") (auto split: if_splits)
qed


definition interest_ops_ex :: "nat md_op list" where
  "interest_ops_ex = [OpNewTorrent hash_ex, OpInitTorrent hash_ex layout_ex [True, False],
     OpConnect conn_ex features_ex, OpInitPeer conn_ex [False, True]]"

definition interest_changes_ex :: "nat interest_consumed list" where
  "interest_changes_ex = [(hash_ex, [], False, [conn_ex])]"

lemma interest_ops_adm: "admissible_run md_exec md_adm interest_ops_ex md_new"
  by (simp add: interest_ops_ex_def ops_ex_simps)

lemma interest_ops_run:
  "\<exists>m. run_ops md_exec interest_ops_ex md_new = Some m \<and> wanted m conn_ex = Some True \<and> choking_us m conn_ex \<and>
     conn_ex \<in> touched m interest_changes_ex"
  by (simp add: interest_ops_ex_def interest_changes_ex_def ops_ex_simps wanted_def choking_us_def touched_def) force

lemma placement_front: "placement (#)"
  by (simp add: placement_def)


text \<open>
  C36. A choking peer is asked again only when its time has come: when the timer fires, exactly the connections that are due, still open, still
  choked and still of interest get one \<open>Interested\<close> each and become due again after the throttling time; the
  others that are due are forgotten, and no connection stays due in the past.
\<close>

theorem unchoking_asked:
  assumes "admissible_run md_exec md_adm ps md_new" "run_ops md_exec ps md_new = Some m"
    and "placement place" "ds_inv now timers"
  shows "\<exists>cs timers'. ask_unchoking place m now timers = Some (map (\<lambda>c. (c, Interested)) cs, timers') \<and> ds_inv now timers' \<and> distinct cs \<and>
    set cs = {c. (\<exists>d \<le> now. ds_due timers c = Some d) \<and> choking_us m c \<and> wanted m c = Some True} \<and>
    (\<forall>c. ds_due timers' c =
       (if c \<in> set cs then Some (now + int (ds_delay timers))
        else if \<exists>d \<le> now. ds_due timers c = Some d then None else ds_due timers c))"
proof -
  have m: "md_inv m" using md.run_guarded [OF md_inv_new assms(1)] assms(2) by simp
  obtain vs tm1 where tm1: "drain_expired timers now = Some (vs, tm1)" "ds_inv now tm1" "ds_delay tm1 = ds_delay timers" "distinct vs"
    "set vs = {v. \<exists>d. ds_due timers v = Some d \<and> d \<le> now}" "ds_due tm1 = ds_due timers |` (- set vs)"
    using tm.drain_due [OF assms(4)] by blast
  obtain tm2 where tm2: "ds_extend place tm1 (filter (pending m) vs) now = Some tm2" "ds_inv now tm2"
    "\<And>c. ds_due tm2 c = (if c \<in> set (filter (pending m) vs) then Some (now + int (ds_delay timers)) else ds_due tm1 c)"
    using ds_extend_ok [OF assms(3) tm1(2), of "filter (pending m) vs"] tm1(3) by auto
  show ?thesis
    using tm1 tm2 by (intro exI [of _ "filter (pending m) vs"] exI [of _ tm2])
      (auto simp: ask_unchoking_def still_choked_ok [OF m] restrict_map_def)
qed

theorem unchoking_asked_witness:
  "\<exists>m timers timers'. run_ops md_exec interest_ops_ex md_new = Some m \<and> ds_due timers conn_ex = Some 32000000000 \<and>
     ask_unchoking (#) m 32000000000 timers = Some ([(conn_ex, Interested)], timers')"
proof -
  obtain m where m: "run_ops md_exec interest_ops_ex md_new = Some m" "wanted m conn_ex = Some True" "choking_us m conn_ex"
    using interest_ops_run by blast
  have new: "ds_due (ds_new UNCHOKING_REQUEST_THROTTLE) c = None" for c :: "nat conn_id" by (simp add: ds_new_def hm_new_ok)
  obtain timers where t: "ds_inv 0 timers" "ds_due timers = (ds_due (ds_new UNCHOKING_REQUEST_THROTTLE))(conn_ex \<mapsto> 32000000000)"
    using tm.put_due [OF placement_front ds_inv_new [of 0 UNCHOKING_REQUEST_THROTTLE], of conn_ex]
    by (auto simp: ds_new_def UNCHOKING_REQUEST_THROTTLE_def)
  then have due: "ds_due timers c = (if c = conn_ex then Some 32000000000 else None)" for c using new by simp
  have "ds_inv 32000000000 timers" by (rule tm.mono [OF t(1)]) simp
  from unchoking_asked [OF interest_ops_adm m(1) placement_front this] obtain cs timers' where
    r: "ask_unchoking (#) m 32000000000 timers = Some (map (\<lambda>c. (c, Interested)) cs, timers')" "distinct cs"
      "set cs = {c. (\<exists>d \<le> 32000000000. ds_due timers c = Some d) \<and> choking_us m c \<and> wanted m c = Some True}" by blast
  have "set cs = {conn_ex}" using r(3) m by (auto simp: due split: if_splits)
  then have "cs = [conn_ex]" using r(2) by (cases cs) (auto simp: subset_singleton_iff)
  with r(1) m(1) due [of conn_ex] show ?thesis by (intro exI [of _ m] exI [of _ timers] exI [of _ timers']) simp
qed

end
