(* ===== verification/Lookup.thy ===== *)
theory Lookup
  imports Route Handshake
begin

text \<open>
  The iterative lookup of the DHT (\<open>src/rust/bt/dht/lookup/src/lib.rs\<close> and \<open>target.rs\<close>) and the loop that drives it
  (\<open>src/rust/bt/dht/node/src/lookup.rs\<close>): the nodes closest to a target are asked for closer ones, until the closest
  known ones do not change or all known ones have been asked.

  An \<open>Array\<close> of capacity \<open>ALPHA\<close> is the list of its elements, a push beyond the capacity panics. What the
  network answers is an argument of the loop, a function of the node since no node is asked twice; of a response
  only the fields that are read are modelled. The updates of the routing table are the log that the loop returns.
\<close>

section \<open>Targets\<close>

type_synonym token = "byte list"

datatype target = TargetNode node_id | TargetHash info_hash

datatype dht_query =
    Ping node_id
  | FindNode node_id node_id
  | GetPeers node_id info_hash
  | AnnouncePeer node_id "bool option" info_hash nat token

record 'e response =
  rp_nodes :: "'e node_info list option"
  rp_token :: "token option"
  rp_values :: "'e list option"

fun to_id :: "target \<Rightarrow> node_id" where
  "to_id (TargetNode a) = a"
| "to_id (TargetHash h) = h"

fun new_query :: "target \<Rightarrow> node_id \<Rightarrow> dht_query" where
  "new_query (TargetNode a) self_id = FindNode self_id a"
| "new_query (TargetHash h) self_id = GetPeers self_id h"

datatype 'e acc = LookupNodesAcc | LookupPeersAcc "'e set" "('e node_info \<times> token) option"

fun acc_new :: "target \<Rightarrow> 'e acc" where
  "acc_new (TargetNode _) = LookupNodesAcc"
| "acc_new (TargetHash _) = LookupPeersAcc {} None"

fun acc_update :: "'e acc \<Rightarrow> target \<Rightarrow> 'e node_info \<Rightarrow> 'e response \<Rightarrow> ('e response + 'e node_info list) \<times> 'e acc" where
  "acc_update LookupNodesAcc t info response =
     (case rp_nodes response of None \<Rightarrow> Inl response | Some nodes \<Rightarrow> Inr nodes, LookupNodesAcc)"
| "acc_update (LookupPeersAcc peers closest) t info response =
     (let peers = (case rp_values response of Some vs \<Rightarrow> peers \<union> set vs | None \<Rightarrow> peers);
          closest =
            (case rp_token response of
               Some token \<Rightarrow>
                 if (case closest of None \<Rightarrow> True
                     | Some (c, _) \<Rightarrow> distance (ni_id info) (to_id t) < distance (ni_id c) (to_id t))
                 then Some (info, token) else closest
             | None \<Rightarrow> closest) in
      (Inr (case rp_nodes response of None \<Rightarrow> [] | Some nodes \<Rightarrow> nodes), LookupPeersAcc peers closest))"

fun acc_finish :: "'e :: linorder acc \<Rightarrow> ('e list \<times> ('e node_info \<times> token) option) option" where
  "acc_finish LookupNodesAcc = None"
| "acc_finish (LookupPeersAcc peers closest) = Some (sorted_list_of_set peers, closest)"

section \<open>The lookup\<close>

definition ALPHA :: nat where "ALPHA = 3"

record 'e lookup =
  lk_self_id :: node_id
  lk_target :: target
  lk_queue :: "(node_distance \<times> 'e node_info) list"
  lk_closest :: "node_id list"
  lk_queried :: "node_id set"
  lk_acc :: "'e acc"

fun extend_queue :: "(node_distance \<times> 'e node_info) list \<Rightarrow> target \<Rightarrow> 'e node_info list \<Rightarrow> (node_distance \<times> 'e node_info) list" where
  "extend_queue queue t [] = queue"
| "extend_queue queue t (info # infos) = extend_queue (bt_insert (distance (ni_id info) (to_id t)) info queue) t infos"

definition lookup_new :: "node_id \<Rightarrow> target \<Rightarrow> 'e node_info list \<Rightarrow> 'e lookup option" where
  "lookup_new self_id t bootstrap = do {
     let queue = extend_queue [] t bootstrap;
     rs_assert (queue \<noteq> []);
     Some \<lparr>lk_self_id = self_id, lk_target = t, lk_queue = queue, lk_closest = [], lk_queried = {}, lk_acc = acc_new t\<rparr>
   }"

fun next_queries ::
    "dht_query \<Rightarrow> 'e node_info list \<Rightarrow> node_id set \<Rightarrow> ('e node_info \<times> dht_query) list \<Rightarrow> (('e node_info \<times> dht_query) list \<times> node_id set) option" where
  "next_queries q [] queried queries = Some (queries, queried)"
| "next_queries q (info # infos) queried queries =
     (if ni_id info \<in> queried then next_queries q infos queried queries
      else do {
        rs_assert (length queries < ALPHA);
        let queries = queries @ [(info, q)];
        if length queries = ALPHA then Some (queries, insert (ni_id info) queried)
        else next_queries q infos (insert (ni_id info) queried) queries
      })"

definition next_iteration :: "'e lookup \<Rightarrow> (('e node_info \<times> dht_query) list option \<times> 'e lookup) option" where
  "next_iteration lk =
     (let closest = take ALPHA (map (\<lambda>(_, info). ni_id info) (lk_queue lk)) in
      if closest = lk_closest lk then Some (None, lk)
      else do {
        (queries, queried) \<leftarrow> next_queries (new_query (lk_target lk) (lk_self_id lk)) (map snd (lk_queue lk)) (lk_queried lk) [];
        Some (if queries = [] then None else Some queries, lk\<lparr>lk_closest := closest, lk_queried := queried\<rparr>)
      })"

definition lookup_update :: "'e lookup \<Rightarrow> 'e node_info \<Rightarrow> 'e response \<Rightarrow> ('e response + unit) \<times> 'e lookup" where
  "lookup_update lk info response =
     (case acc_update (lk_acc lk) (lk_target lk) info response of
        (Inl response, acc) \<Rightarrow> (Inl response, lk\<lparr>lk_acc := acc\<rparr>)
      | (Inr nodes, acc) \<Rightarrow> (Inr (), lk\<lparr>lk_acc := acc, lk_queue := extend_queue (lk_queue lk) (lk_target lk) nodes\<rparr>))"

section \<open>Driving it\<close>

datatype 'e table_update = UpdateOk "'e node_info" | UpdateErr node_id

type_synonym 'e driver = "'e lookup \<times> ('e node_info \<times> int) list \<times> 'e table_update list"

fun ask_node ::
    "('e node_info \<Rightarrow> dht_query \<Rightarrow> 'x + 'e response) \<Rightarrow> (nat \<Rightarrow> int) \<Rightarrow> 'e node_info \<times> dht_query \<Rightarrow> 'e driver \<Rightarrow> 'e driver" where
  "ask_node ask clock (node, q) (lk, nodes, log) =
     (case ask node q of
        Inl _ \<Rightarrow> (lk, nodes, log @ [UpdateErr (ni_id node)])
      | Inr response \<Rightarrow>
          (case lookup_update lk node response of
             (Inr _, lk) \<Rightarrow> (lk, nodes @ [(node, clock (length log))], log @ [UpdateOk node])
           | (Inl _, lk) \<Rightarrow> (lk, nodes, log @ [UpdateErr (ni_id node)])))"

fun ask_nodes ::
    "('e node_info \<Rightarrow> dht_query \<Rightarrow> 'x + 'e response) \<Rightarrow> (nat \<Rightarrow> int) \<Rightarrow> ('e node_info \<times> dht_query) list \<Rightarrow> 'e driver \<Rightarrow> 'e driver" where
  "ask_nodes ask clock [] st = st"
| "ask_nodes ask clock (query # queries) st = ask_nodes ask clock queries (ask_node ask clock query st)"

partial_function (option) lookup_loop ::
    "('e node_info \<Rightarrow> dht_query \<Rightarrow> 'x + 'e response) \<Rightarrow> (nat \<Rightarrow> int) \<Rightarrow> 'e driver \<Rightarrow> 'e driver option" where
  "lookup_loop ask clock st =
     (case st of (lk, nodes, log) \<Rightarrow> do {
        (queries, lk) \<leftarrow> next_iteration lk;
        (case queries of
           None \<Rightarrow> Some (lk, nodes, log)
         | Some queries \<Rightarrow> lookup_loop ask clock (ask_nodes ask clock queries (lk, nodes, log)))
      })"

text \<open>The bootstrap nodes: those of the table, or what the configured nodes answered when the table has none.\<close>

definition lookup_bootstrap :: "'e table \<Rightarrow> node_id \<Rightarrow> 'e node_info list \<Rightarrow> target \<Rightarrow> 'e lookup option option" where
  "lookup_bootstrap table self_id found t = do {
     bootstrap \<leftarrow> get_closest table (to_id t);
     if bootstrap \<noteq> [] then map_option Some (lookup_new self_id t bootstrap)
     else if found = [] then Some None
     else map_option Some (lookup_new self_id t found)
   }"

definition run_lookup ::
    "('e node_info \<Rightarrow> dht_query \<Rightarrow> 'x + 'e response) \<Rightarrow> (nat \<Rightarrow> int) \<Rightarrow> 'e table \<Rightarrow> node_id \<Rightarrow> 'e node_info list \<Rightarrow> target \<Rightarrow> 'e driver option option" where
  "run_lookup ask clock table self_id found t = do {
     r \<leftarrow> lookup_bootstrap table self_id found t;
     (case r of None \<Rightarrow> Some None | Some lk \<Rightarrow> map_option Some (lookup_loop ask clock (lk, [], [])))
   }"

end
