(* ===== verification/Token_Issuer.thy ===== *)
theory Token_Issuer
  imports Lookup
begin

text \<open>
  The tokens that the DHT node hands out with its answers and asks back when a peer announces itself
  (\<open>src/rust/bt/dht/node/src/token.rs\<close>): every token is issued to one endpoint and is accepted for ten minutes.

  The \<open>BinaryHeap\<close> is the list of its elements, of which \<open>peek\<close> sees a least one; the first is taken
  where there are several. The random bytes of a token and the reading of the clock are arguments.
\<close>

section \<open>State and operations\<close>

definition TIMEOUT :: int where "TIMEOUT = minutes 10"

record 'e issued =
  is_node_endpoint :: 'e
  is_token :: token
  is_expire_at :: int

type_synonym 'e tokens = "'e issued list"

definition issued_issue :: "'e \<Rightarrow> token \<Rightarrow> int \<Rightarrow> 'e issued" where
  "issued_issue e random now = \<lparr>is_node_endpoint = e, is_token = random, is_expire_at = now + TIMEOUT\<rparr>"

definition is_expired :: "'e issued \<Rightarrow> int \<Rightarrow> bool" where
  "is_expired i now \<longleftrightarrow> max 0 (now - is_expire_at i) \<noteq> 0"

definition issued_verify :: "'e issued \<Rightarrow> 'e \<Rightarrow> token \<Rightarrow> int \<Rightarrow> bool" where
  "issued_verify i e t now \<longleftrightarrow> is_node_endpoint i = e \<and> is_token i = t \<and> \<not> is_expired i now"

definition tokens_peek :: "'e tokens \<Rightarrow> 'e issued option" where
  "tokens_peek ts = (if ts = [] then None else Some (ts ! min_place (map is_expire_at ts)))"

definition tokens_pop :: "'e tokens \<Rightarrow> 'e tokens" where
  "tokens_pop ts = remove_nth (min_place (map is_expire_at ts)) ts"

definition next_expire_at :: "'e tokens \<Rightarrow> int option" where
  "next_expire_at ts = map_option is_expire_at (tokens_peek ts)"

lemma length_tokens_pop: "ts \<noteq> [] \<Longrightarrow> length (tokens_pop ts) < length ts"
  using min_place_less [of "map is_expire_at ts"] by (simp add: tokens_pop_def remove_nth_def)

lemma tokens_peek_Some: "tokens_peek ts = Some i \<Longrightarrow> ts \<noteq> []"
  by (auto simp: tokens_peek_def)

function tokens_expire :: "'e tokens \<Rightarrow> int \<Rightarrow> 'e tokens" where
  "tokens_expire ts now =
     (case tokens_peek ts of
        None \<Rightarrow> ts
      | Some i \<Rightarrow> if is_expired i now then tokens_expire (tokens_pop ts) now else ts)"
  by pat_completeness auto
termination
  by (relation "measure (length \<circ> fst)") (simp_all add: length_tokens_pop tokens_peek_Some)

declare tokens_expire.simps [simp del]

definition tokens_issue :: "'e tokens \<Rightarrow> 'e \<Rightarrow> token \<Rightarrow> int \<Rightarrow> token \<times> 'e tokens" where
  "tokens_issue ts e random now = (let i = issued_issue e random now in (is_token i, ts @ [i]))"

definition tokens_verify :: "'e tokens \<Rightarrow> 'e \<Rightarrow> token \<Rightarrow> int \<Rightarrow> bool" where
  "tokens_verify ts e t now = list_ex (\<lambda>i. issued_verify i e t now) ts"

section \<open>Expiry\<close>

lemma is_expired_less: "is_expired i now \<longleftrightarrow> is_expire_at i < now"
  by (auto simp: is_expired_def)

lemma peek_least:
  assumes "tokens_peek ts = Some i" and "j \<in> set ts"
  shows "is_expire_at i \<le> is_expire_at j"
proof -
  obtain k where "k < length ts" "j = ts ! k" using assms(2) by (auto simp: in_set_conv_nth)
  moreover have "ts \<noteq> []" "i = ts ! min_place (map is_expire_at ts)" using assms(1) by (auto simp: tokens_peek_def split: if_splits)
  ultimately show ?thesis using min_place_le [of "map is_expire_at ts" k] min_place_less [of "map is_expire_at ts"] by simp
qed

lemma peek_in: "tokens_peek ts = Some i \<Longrightarrow> i \<in> set ts"
  using min_place_less [of "map is_expire_at ts"] by (auto simp: tokens_peek_def split: if_splits)

lemma mset_pop: "tokens_peek ts = Some i \<Longrightarrow> mset ts = add_mset i (mset (tokens_pop ts))"
  using min_place_less [of "map is_expire_at ts"]
  by (auto simp: tokens_peek_def tokens_pop_def mset_remove_nth split: if_splits)

text \<open>Popping from the front of the heap drops exactly the expired tokens.\<close>

lemma mset_expire: "mset (tokens_expire ts now) = filter_mset (\<lambda>i. now \<le> is_expire_at i) (mset ts)"
proof (induction ts now rule: tokens_expire.induct)
  case (1 ts now)
  show ?case
  proof (cases "tokens_peek ts")
    case None
    then show ?thesis by (auto simp: tokens_expire.simps [of ts] tokens_peek_def split: if_splits)
  next
    case (Some i)
    show ?thesis
    proof (cases "is_expired i now")
      case True
      then show ?thesis using 1 Some mset_pop [OF Some] by (simp add: tokens_expire.simps [of ts] is_expired_less)
    next
      case False
      then have "\<forall>j \<in> set ts. now \<le> is_expire_at j" using peek_least [OF Some] by (force simp: is_expired_less)
      then show ?thesis using False Some by (simp add: tokens_expire.simps [of ts] flip: mset_filter)
    qed
  qed
qed

section \<open>What a token is good for\<close>

datatype 'e token_op = Issue 'e token int | Expire int

fun op_time :: "'e token_op \<Rightarrow> int" where
  "op_time (Issue _ _ now) = now"
| "op_time (Expire now) = now"

fun token_exec :: "'e token_op \<Rightarrow> 'e tokens \<Rightarrow> 'e tokens option" where
  "token_exec (Issue e random now) ts = Some (snd (tokens_issue ts e random now))"
| "token_exec (Expire now) ts = Some (tokens_expire ts now)"

fun issued_by :: "'e token_op \<Rightarrow> 'e issued list" where
  "issued_by (Issue e random now) = [issued_issue e random now]"
| "issued_by (Expire _) = []"

abbreviation fresh_at :: "int \<Rightarrow> 'e issued \<Rightarrow> bool" where
  "fresh_at now \<equiv> (\<lambda>i. now \<le> is_expire_at i)"

text \<open>Up to expired tokens the heap holds what was issued.\<close>

lemma tokens_are_issued:
  assumes "sorted (map op_time ps)"
  shows "\<exists>ts. run_ops token_exec ps [] = Some ts \<and>
    (\<forall>now. (\<forall>p \<in> set ps. op_time p \<le> now) \<longrightarrow>
       filter_mset (fresh_at now) (mset ts) = mset (filter (fresh_at now) (concat (map issued_by ps))))"
  using assms
proof (induction ps rule: rev_induct)
  case (snoc p ps)
  then obtain ts where ts: "run_ops token_exec ps [] = Some ts"
    and live: "\<And>now. (\<forall>p \<in> set ps. op_time p \<le> now) \<Longrightarrow>
       filter_mset (fresh_at now) (mset ts) = mset (filter (fresh_at now) (concat (map issued_by ps)))"
    by (auto simp: sorted_append)
  show ?case
  proof (cases p)
    case (Issue e random at)
    then show ?thesis using ts live by (auto simp: run_ops_append tokens_issue_def Let_def)
  next
    case (Expire at)
    have "filter_mset (fresh_at now) (filter_mset (fresh_at at) (mset ts)) = filter_mset (fresh_at now) (mset ts)"
      if "at \<le> now" for now
      using that by (auto simp: filter_filter_mset intro: filter_mset_cong)
    then show ?thesis using ts live Expire by (auto simp: run_ops_append mset_expire)
  qed
qed simp

lemma verify_fresh:
  "tokens_verify ts e t now \<longleftrightarrow> (\<exists>i \<in># filter_mset (fresh_at now) (mset ts). is_node_endpoint i = e \<and> is_token i = t)"
  by (auto simp: tokens_verify_def list_ex_iff issued_verify_def is_expired_less)

lemma issued_conv:
  "i \<in> set (concat (map issued_by ps)) \<longleftrightarrow>
     (\<exists>e random now. Issue e random now \<in> set ps \<and> i = issued_issue e random now)"
proof (induction ps)
  case (Cons p ps)
  then show ?case by (cases p) auto
qed simp

lemma tokens_live:
  assumes "sorted (map op_time ps)" and "\<forall>p \<in> set ps. op_time p \<le> now"
  shows "\<exists>ts. run_ops token_exec ps [] = Some ts \<and>
    filter_mset (fresh_at now) (mset ts) = mset (filter (fresh_at now) (concat (map issued_by ps))) \<and>
    (\<forall>e t. tokens_verify ts e t now \<longleftrightarrow> (\<exists>at. Issue e t at \<in> set ps \<and> now \<le> at + minutes 10))"
proof -
  obtain ts where ts: "run_ops token_exec ps [] = Some ts"
    and live: "filter_mset (fresh_at now) (mset ts) = mset (filter (fresh_at now) (concat (map issued_by ps)))"
    using tokens_are_issued [OF assms(1)] assms(2) by blast
  have "tokens_verify ts e t now \<longleftrightarrow> (\<exists>at. Issue e t at \<in> set ps \<and> now \<le> at + minutes 10)" for e t
    unfolding verify_fresh live
    by (simp add: issued_conv issued_issue_def TIMEOUT_def del: set_concat) force
  with ts live show ?thesis by blast
qed

lemma next_expire_fresh:
  assumes "next_expire_at (tokens_expire ts now) = Some d"
  shows "now \<le> d"
proof -
  from assms obtain i where "i \<in># mset (tokens_expire ts now)" "d = is_expire_at i"
    using peek_in by (fastforce simp: next_expire_at_def)
  then show ?thesis by (simp only: mset_expire) simp
qed

section \<open>Properties\<close>

text \<open>
  C23. Over every sequence of issues and expiries on a clock that does not go back, at any later time the node
  accepts a token from an endpoint exactly when it issued this token to this endpoint at most ten minutes
  before. An expiry at that time leaves exactly the tokens issued at most ten minutes before, as often as they
  were issued, and the next expiry that the issuer then waits for is not in the past.
\<close>

theorem tokens_live_ten_minutes:
  assumes "sorted (map op_time ps)" and "\<forall>p \<in> set ps. op_time p \<le> now"
  shows "\<exists>ts. run_ops token_exec ps [] = Some ts \<and>
    (\<forall>e t. tokens_verify ts e t now \<longleftrightarrow> (\<exists>at. Issue e t at \<in> set ps \<and> now \<le> at + minutes 10)) \<and>
    mset (tokens_expire ts now) = mset (filter (fresh_at now) (concat (map issued_by ps))) \<and>
    (\<forall>d. next_expire_at (tokens_expire ts now) = Some d \<longrightarrow> now \<le> d)"
  using tokens_live [OF assms] next_expire_fresh [of _ now] by (fastforce simp: mset_expire)

theorem tokens_live_ten_minutes_witness:
  "\<exists>ts. run_ops token_exec [Issue (1 :: nat) [7] 0, Expire 5, Issue 2 [9] (minutes 9), Expire (minutes 11)] [] = Some ts \<and>
     tokens_verify ts 2 [9] (minutes 12) \<and> \<not> tokens_verify ts 1 [7] (minutes 12)"
  using tokens_live_ten_minutes [of "[Issue (1 :: nat) [7] 0, Expire 5, Issue 2 [9] (minutes 9), Expire (minutes 11)]" "minutes 12"]
  by (force simp: minutes_def)

end
