(* ===== verification/Compact.thy ===== *)
theory Compact
  imports Buffer Route
begin

text \<open>
  The compact encodings of addresses and nodes (\<open>src/rust/bt/base/src/compact.rs\<close>, \<open>peer_endpoint.rs\<close> and
  \<open>src/rust/bt/dht/proto/src/node_info.rs\<close>). An implementation of the traits \<open>CompactSize\<close>,
  \<open>CompactDecode\<close> and \<open>CompactEncode\<close> is a record of their items; the methods that the traits provide are
  functions of it, and what an implementation promises is the locale \<open>compact_codec\<close>.

  An address is the list of its octets, a port a natural number below \<open>2 ^ 16\<close>.
\<close>

section \<open>The traits\<close>

datatype compact_error = Size nat nat | ArraySize nat nat

record 'a compact =
  cp_size :: nat
  cp_decode_unchecked :: "byte list \<Rightarrow> 'a option"
  cp_encode :: "'a \<Rightarrow> byte list"

definition cp_ensure_size :: "'a compact \<Rightarrow> nat \<Rightarrow> compact_error + unit" where
  "cp_ensure_size c n = (if n = cp_size c then Inr () else Inl (Size n (cp_size c)))"

definition cp_ensure_array_size :: "'a compact \<Rightarrow> nat \<Rightarrow> compact_error + unit" where
  "cp_ensure_array_size c n = (if n mod cp_size c = 0 then Inr () else Inl (ArraySize n (cp_size c)))"

definition cp_decode :: "'a compact \<Rightarrow> byte list \<Rightarrow> (compact_error + 'a) option" where
  "cp_decode c bs =
     (case cp_ensure_size c (length bs) of
        Inl e \<Rightarrow> Some (Inl e)
      | Inr _ \<Rightarrow> map_option Inr (cp_decode_unchecked c bs))"

text \<open>\<open>chunks_exact\<close> panics for chunks of size zero.\<close>

function chunks_exact :: "nat \<Rightarrow> byte list \<Rightarrow> byte list list option" where
  "chunks_exact n bs =
     (if n = 0 then None
      else if length bs < n then Some []
      else map_option (\<lambda>cs. take n bs # cs) (chunks_exact n (drop n bs)))"
  by pat_completeness auto
termination
  by (relation "measure (length \<circ> snd)") auto

definition cp_decode_many :: "'a compact \<Rightarrow> byte list \<Rightarrow> (compact_error + 'a list) option" where
  "cp_decode_many c bs =
     (case cp_ensure_array_size c (length bs) of
        Inl e \<Rightarrow> Some (Inl e)
      | Inr _ \<Rightarrow> do {
          chunks \<leftarrow> chunks_exact (cp_size c) bs;
          xs \<leftarrow> those (map (cp_decode_unchecked c) chunks);
          Some (Inr xs)
        })"

definition cp_encode_many :: "'a compact \<Rightarrow> 'a list \<Rightarrow> byte list" where
  "cp_encode_many c xs = concat (map (cp_encode c) xs)"

text \<open>\<open>split_to\<close> panics on a short buffer; with size zero the iterator would not end on a non-empty one.\<close>

function split_chunks :: "nat \<Rightarrow> byte list \<Rightarrow> byte list list option" where
  "split_chunks n bs =
     (if bs = [] then Some []
      else if n = 0 \<or> length bs < n then None
      else map_option (\<lambda>cs. take n bs # cs) (split_chunks n (drop n bs)))"
  by pat_completeness auto
termination
  by (relation "measure (length \<circ> snd)") auto

declare chunks_exact.simps [simp del] split_chunks.simps [simp del]

definition cp_split :: "'a compact \<Rightarrow> byte list \<Rightarrow> (compact_error + byte list list) option" where
  "cp_split c bs =
     (case cp_ensure_array_size c (length bs) of
        Inl e \<Rightarrow> Some (Inl e)
      | Inr _ \<Rightarrow> map_option Inr (split_chunks (cp_size c) bs))"

section \<open>Implementations\<close>

type_synonym ip_addr = "byte list"

definition u16_compact :: "nat compact" where
  "u16_compact =
     \<lparr>cp_size = 2, cp_decode_unchecked = (\<lambda>bs. map_option fst (get_u16 bs)), cp_encode = be_bytes 2\<rparr>"

definition ipv4_compact :: "ip_addr compact" where
  "ipv4_compact =
     \<lparr>cp_size = 4, cp_decode_unchecked = (\<lambda>bs. do { (n, _) \<leftarrow> get_u32 bs; Some (be_bytes 4 n) }), cp_encode = (\<lambda>ip. ip)\<rparr>"

definition ipv6_compact :: "ip_addr compact" where
  "ipv6_compact =
     \<lparr>cp_size = 16, cp_decode_unchecked = (\<lambda>bs. do { (n, _) \<leftarrow> get_be 16 bs; Some (be_bytes 16 n) }), cp_encode = (\<lambda>ip. ip)\<rparr>"

definition node_id_compact :: "node_id compact" where
  "node_id_compact = \<lparr>cp_size = NODE_ID_SIZE, cp_decode_unchecked = node_try_from, cp_encode = (\<lambda>a. a)\<rparr>"

definition pair_compact :: "'a compact \<Rightarrow> 'b compact \<Rightarrow> ('a \<times> 'b) compact" where
  "pair_compact c0 c1 =
     \<lparr>cp_size = cp_size c0 + cp_size c1,
      cp_decode_unchecked = (\<lambda>bs. do {
        (e0, e1) \<leftarrow> copy_to_bytes (cp_size c0) bs;
        x0 \<leftarrow> cp_decode_unchecked c0 e0;
        x1 \<leftarrow> cp_decode_unchecked c1 e1;
        Some (x0, x1)
      }),
      cp_encode = (\<lambda>(x0, x1). cp_encode c0 x0 @ cp_encode c1 x1)\<rparr>"

definition triple_compact :: "'a compact \<Rightarrow> 'b compact \<Rightarrow> 'c compact \<Rightarrow> ('a \<times> 'b \<times> 'c) compact" where
  "triple_compact c0 c1 c2 =
     \<lparr>cp_size = cp_size c0 + cp_size c1 + cp_size c2,
      cp_decode_unchecked = (\<lambda>bs. do {
        (e0, bs) \<leftarrow> copy_to_bytes (cp_size c0) bs;
        (e1, e2) \<leftarrow> copy_to_bytes (cp_size c1) bs;
        x0 \<leftarrow> cp_decode_unchecked c0 e0;
        x1 \<leftarrow> cp_decode_unchecked c1 e1;
        x2 \<leftarrow> cp_decode_unchecked c2 e2;
        Some (x0, x1, x2)
      }),
      cp_encode = (\<lambda>(x0, x1, x2). cp_encode c0 x0 @ cp_encode c1 x1 @ cp_encode c2 x2)\<rparr>"

record socket_addr_v4 =
  v4_ip :: ip_addr
  v4_port :: nat

record socket_addr_v6 =
  v6_ip :: ip_addr
  v6_port :: nat
  v6_flowinfo :: nat
  v6_scope_id :: nat

datatype socket_addr = V4 socket_addr_v4 | V6 socket_addr_v6

definition socket_v4_compact :: "socket_addr_v4 compact" where
  "socket_v4_compact =
     (let c = pair_compact ipv4_compact u16_compact in
      \<lparr>cp_size = cp_size ipv4_compact + cp_size u16_compact,
       cp_decode_unchecked = (\<lambda>bs. do { (ip, port) \<leftarrow> cp_decode_unchecked c bs; Some \<lparr>v4_ip = ip, v4_port = port\<rparr> }),
       cp_encode = (\<lambda>a. cp_encode c (v4_ip a, v4_port a))\<rparr>)"

definition socket_v6_compact :: "socket_addr_v6 compact" where
  "socket_v6_compact =
     (let c = pair_compact ipv6_compact u16_compact in
      \<lparr>cp_size = cp_size ipv6_compact + cp_size u16_compact,
       cp_decode_unchecked = (\<lambda>bs. do {
         (ip, port) \<leftarrow> cp_decode_unchecked c bs;
         Some \<lparr>v6_ip = ip, v6_port = port, v6_flowinfo = 0, v6_scope_id = 0\<rparr>
       }),
       cp_encode = (\<lambda>a. cp_encode c (v6_ip a, v6_port a))\<rparr>)"

section \<open>Peer endpoints\<close>

text \<open>The macro \<open>generate\<close> for \<open>v4\<close> and \<open>v6\<close>: a compact type and the conversions from and to it.\<close>

record 'a endpoint_format =
  ef_compact :: "'a compact"
  ef_from_compact :: "'a \<Rightarrow> socket_addr"
  ef_to_compact :: "socket_addr \<Rightarrow> 'a option"

definition v4_to_compact :: "socket_addr \<Rightarrow> socket_addr_v4 option" where
  "v4_to_compact peer = (case peer of V4 a \<Rightarrow> Some a | V6 _ \<Rightarrow> None)"

definition v6_to_compact :: "socket_addr \<Rightarrow> socket_addr_v6 option" where
  "v6_to_compact peer = (case peer of V4 _ \<Rightarrow> None | V6 a \<Rightarrow> Some a)"

definition v4_format :: "socket_addr_v4 endpoint_format" where
  "v4_format = \<lparr>ef_compact = socket_v4_compact, ef_from_compact = V4, ef_to_compact = v4_to_compact\<rparr>"

definition v6_format :: "socket_addr_v6 endpoint_format" where
  "v6_format = \<lparr>ef_compact = socket_v6_compact, ef_from_compact = V6, ef_to_compact = v6_to_compact\<rparr>"

definition pe_decode :: "'a endpoint_format \<Rightarrow> byte list \<Rightarrow> (compact_error + socket_addr) option" where
  "pe_decode f bs = map_option (map_sum id (ef_from_compact f)) (cp_decode (ef_compact f) bs)"

definition pe_decode_many :: "'a endpoint_format \<Rightarrow> byte list \<Rightarrow> (compact_error + socket_addr list) option" where
  "pe_decode_many f bs = map_option (map_sum id (map (ef_from_compact f))) (cp_decode_many (ef_compact f) bs)"

definition pe_encode_many :: "'a endpoint_format \<Rightarrow> socket_addr list \<Rightarrow> byte list option" where
  "pe_encode_many f peers = map_option (cp_encode_many (ef_compact f)) (those (map (ef_to_compact f) peers))"

definition pe_to_bytes_iter :: "'a endpoint_format \<Rightarrow> socket_addr list \<Rightarrow> byte list list option" where
  "pe_to_bytes_iter f peers = do {
     buffer \<leftarrow> pe_encode_many f peers;
     r \<leftarrow> cp_split (ef_compact f) buffer;
     (case r of Inl _ \<Rightarrow> None | Inr chunks \<Rightarrow> Some chunks)
   }"

definition pe_to_array_iter :: "'a endpoint_format \<Rightarrow> socket_addr list \<Rightarrow> byte list list option" where
  "pe_to_array_iter f peers = those (map (\<lambda>peer. map_option (cp_encode (ef_compact f)) (ef_to_compact f peer)) peers)"

section \<open>Node infos\<close>

definition node_info_compact :: "(node_id \<times> socket_addr_v4) compact" where
  "node_info_compact = pair_compact node_id_compact socket_v4_compact"

definition node_info_try_from :: "socket_addr node_info \<Rightarrow> (socket_addr node_info + node_id \<times> socket_addr_v4)" where
  "node_info_try_from info = (case ni_endpoint info of V4 a \<Rightarrow> Inr (ni_id info, a) | V6 _ \<Rightarrow> Inl info)"

definition node_info_from :: "node_id \<times> socket_addr_v4 \<Rightarrow> socket_addr node_info" where
  "node_info_from p = (case p of (a, endpoint) \<Rightarrow> \<lparr>ni_id = a, ni_endpoint = V4 endpoint\<rparr>)"

definition node_infos_decode :: "byte list \<Rightarrow> (compact_error + socket_addr node_info list) option" where
  "node_infos_decode bs = map_option (map_sum id (map node_info_from)) (cp_decode_many node_info_compact bs)"

definition encode_list_v4 :: "socket_addr node_info list \<Rightarrow> byte list option" where
  "encode_list_v4 infos = do {
     ps \<leftarrow> those (map (\<lambda>info. case node_info_try_from info of Inl _ \<Rightarrow> None | Inr p \<Rightarrow> Some p) infos);
     Some (cp_encode_many node_info_compact ps)
   }"

section \<open>What an implementation promises\<close>

text \<open>Every valid value has an encoding of the fixed size that decodes to it, and all bytes of this size are one.\<close>

locale compact_codec =
  fixes c :: "'a compact" and valid :: "'a \<Rightarrow> bool"
  assumes size_pos: "0 < cp_size c"
    and encode_size: "valid x \<Longrightarrow> length (cp_encode c x) = cp_size c"
    and decode_encode: "valid x \<Longrightarrow> cp_decode_unchecked c (cp_encode c x) = Some x"
    and decode_bytes: "length bs = cp_size c \<Longrightarrow> \<exists>x. valid x \<and> cp_decode_unchecked c bs = Some x \<and> cp_encode c x = bs"
begin

lemma decode_valid: "valid x \<Longrightarrow> cp_decode c (cp_encode c x) = Some (Inr x)"
  by (simp add: cp_decode_def cp_ensure_size_def encode_size decode_encode)

lemma chunks_valid:
  "\<forall>x \<in> set xs. valid x \<Longrightarrow> chunks_exact (cp_size c) (cp_encode_many c xs) = Some (map (cp_encode c) xs)"
proof (induction xs)
  case (Cons x xs)
  then show ?case using size_pos
    by (simp add: chunks_exact.simps [of _ "cp_encode c x @ _"] cp_encode_many_def encode_size)
qed (use size_pos in \<open>simp add: chunks_exact.simps cp_encode_many_def\<close>)

lemma split_valid:
  "\<forall>x \<in> set xs. valid x \<Longrightarrow> split_chunks (cp_size c) (cp_encode_many c xs) = Some (map (cp_encode c) xs)"
proof (induction xs)
  case (Cons x xs)
  have "cp_encode c x \<noteq> []" using Cons.prems encode_size [of x] size_pos by auto
  with Cons show ?case using size_pos
    by (simp add: split_chunks.simps [of _ "cp_encode c x @ _"] cp_encode_many_def encode_size)
qed (simp add: split_chunks.simps cp_encode_many_def)

lemma length_encode_many: "\<forall>x \<in> set xs. valid x \<Longrightarrow> length (cp_encode_many c xs) = cp_size c * length xs"
  by (induction xs) (simp_all add: cp_encode_many_def encode_size)

lemma those_decode: "\<forall>x \<in> set xs. valid x \<Longrightarrow> those (map (cp_decode_unchecked c) (map (cp_encode c) xs)) = Some xs"
  by (induction xs) (simp_all add: decode_encode)

lemma decode_many_valid: "\<forall>x \<in> set xs. valid x \<Longrightarrow> cp_decode_many c (cp_encode_many c xs) = Some (Inr xs)"
  by (simp add: cp_decode_many_def cp_ensure_array_size_def length_encode_many chunks_valid those_decode del: map_map)

lemma split_encoded:
  "\<forall>x \<in> set xs. valid x \<Longrightarrow> cp_split c (cp_encode_many c xs) = Some (Inr (map (cp_encode c) xs))"
  by (simp add: cp_split_def cp_ensure_array_size_def length_encode_many split_valid)

lemma bytes_encoded:
  "length bs = cp_size c * n \<Longrightarrow> \<exists>xs. (\<forall>x \<in> set xs. valid x) \<and> cp_encode_many c xs = bs"
proof (induction n arbitrary: bs)
  case 0
  then show ?case by (auto simp: cp_encode_many_def intro: exI [of _ "[]"])
next
  case (Suc n)
  obtain x where x: "valid x" "cp_encode c x = take (cp_size c) bs"
    using decode_bytes [of "take (cp_size c) bs"] Suc.prems by auto
  obtain xs where "\<forall>x \<in> set xs. valid x" "cp_encode_many c xs = drop (cp_size c) bs"
    using Suc.IH [of "drop (cp_size c) bs"] Suc.prems by auto
  with x show ?case by (intro exI [of _ "x # xs"]) (simp add: cp_encode_many_def)
qed

text \<open>Decoding an array never panics: it refuses a length that is not a multiple and is exact otherwise.\<close>

lemma decode_many_odd: "length bs mod cp_size c \<noteq> 0 \<Longrightarrow> cp_decode_many c bs = Some (Inl (ArraySize (length bs) (cp_size c)))"
  by (simp add: cp_decode_many_def cp_ensure_array_size_def)

lemma decode_many_bytes:
  assumes "length bs mod cp_size c = 0"
  shows "\<exists>xs. cp_decode_many c bs = Some (Inr xs) \<and> (\<forall>x \<in> set xs. valid x) \<and> cp_encode_many c xs = bs"
proof -
  obtain xs where "\<forall>x \<in> set xs. valid x" "cp_encode_many c xs = bs"
    using bytes_encoded [of bs "length bs div cp_size c"] assms by auto
  then show ?thesis using decode_many_valid by auto
qed

end

text \<open>Tuples of implementations are implementations.\<close>

locale compact_pair = fst: compact_codec c0 valid0 + snd: compact_codec c1 valid1 for c0 valid0 c1 valid1

sublocale compact_pair \<subseteq> compact_codec "pair_compact c0 c1" "\<lambda>(x0, x1). valid0 x0 \<and> valid1 x1"
proof
  fix bs :: "byte list"
  assume "length bs = cp_size (pair_compact c0 c1)"
  then have l: "length (take (cp_size c0) bs) = cp_size c0" "length (drop (cp_size c0) bs) = cp_size c1"
    by (simp_all add: pair_compact_def)
  show "\<exists>x. (case x of (x0, x1) \<Rightarrow> valid0 x0 \<and> valid1 x1) \<and>
      cp_decode_unchecked (pair_compact c0 c1) bs = Some x \<and> cp_encode (pair_compact c0 c1) x = bs"
    using fst.decode_bytes [OF l(1)] snd.decode_bytes [OF l(2)] l
    by (auto simp: pair_compact_def copy_to_bytes_def)
qed (use fst.size_pos in \<open>auto simp: pair_compact_def fst.encode_size snd.encode_size fst.decode_encode snd.decode_encode\<close>)

locale compact_triple =
  fst: compact_codec c0 valid0 + snd: compact_codec c1 valid1 + trd: compact_codec c2 valid2
  for c0 valid0 c1 valid1 c2 valid2

sublocale compact_triple \<subseteq> compact_codec "triple_compact c0 c1 c2" "\<lambda>(x0, x1, x2). valid0 x0 \<and> valid1 x1 \<and> valid2 x2"
proof
  fix bs :: "byte list"
  assume n: "length bs = cp_size (triple_compact c0 c1 c2)"
  define es where "es = drop (cp_size c0) bs"
  have l: "length (take (cp_size c0) bs) = cp_size c0" "length (take (cp_size c1) es) = cp_size c1"
    "length (drop (cp_size c1) es) = cp_size c2"
    using n by (simp_all add: triple_compact_def es_def)
  have bs: "bs = take (cp_size c0) bs @ take (cp_size c1) es @ drop (cp_size c1) es" by (simp only: es_def append_take_drop_id)
  show "\<exists>x. (case x of (x0, x1, x2) \<Rightarrow> valid0 x0 \<and> valid1 x1 \<and> valid2 x2) \<and>
      cp_decode_unchecked (triple_compact c0 c1 c2) bs = Some x \<and> cp_encode (triple_compact c0 c1 c2) x = bs"
    using fst.decode_bytes [OF l(1)] snd.decode_bytes [OF l(2)] trd.decode_bytes [OF l(3)] l bs n
    by (auto simp: triple_compact_def copy_to_bytes_def es_def)
qed (use fst.size_pos in \<open>auto simp: triple_compact_def fst.encode_size snd.encode_size trd.encode_size
  fst.decode_encode snd.decode_encode trd.decode_encode\<close>)

section \<open>The implementations keep the promise\<close>

abbreviation port_ok :: "nat \<Rightarrow> bool" where "port_ok port \<equiv> port < 2 ^ 16"

abbreviation octets_ok :: "nat \<Rightarrow> ip_addr \<Rightarrow> bool" where "octets_ok n ip \<equiv> length ip = n"

definition v4_ok :: "socket_addr_v4 \<Rightarrow> bool" where
  "v4_ok a \<longleftrightarrow> octets_ok 4 (v4_ip a) \<and> port_ok (v4_port a)"

definition v6_ok :: "socket_addr_v6 \<Rightarrow> bool" where
  "v6_ok a \<longleftrightarrow> octets_ok 16 (v6_ip a) \<and> port_ok (v6_port a) \<and> v6_flowinfo a = 0 \<and> v6_scope_id a = 0"

lemma get_be_all: "length bs = k \<Longrightarrow> get_be k bs = Some (be_val bs, [])"
  by (auto simp: get_be_def)

lemma pair_size: "cp_size (pair_compact c0 c1) = cp_size c0 + cp_size c1"
  by (simp add: pair_compact_def)

interpretation u16: compact_codec u16_compact port_ok
proof
  fix bs :: "byte list"
  assume "length bs = cp_size u16_compact"
  then show "\<exists>x. port_ok x \<and> cp_decode_unchecked u16_compact bs = Some x \<and> cp_encode u16_compact x = bs"
    using be_val_less [of bs] be_bytes_val [of bs] by (simp add: u16_compact_def get_be_all)
qed (simp_all add: u16_compact_def get_be_all be_val_bytes)

interpretation ipv4: compact_codec ipv4_compact "octets_ok 4"
  by unfold_locales (auto simp: ipv4_compact_def get_be_all be_bytes_val_append)

interpretation ipv6: compact_codec ipv6_compact "octets_ok 16"
  by unfold_locales (auto simp: ipv6_compact_def get_be_all be_bytes_val_append)

interpretation nid: compact_codec node_id_compact node_ok
  by unfold_locales (auto simp: node_id_compact_def node_try_from_def NODE_ID_SIZE_def)

interpretation ipp4: compact_pair ipv4_compact "octets_ok 4" u16_compact port_ok ..

interpretation ipp6: compact_pair ipv6_compact "octets_ok 16" u16_compact port_ok ..

interpretation nipp: compact_triple node_id_compact node_ok ipv4_compact "octets_ok 4" u16_compact port_ok ..

interpretation so4: compact_codec socket_v4_compact v4_ok
proof
  fix bs :: "byte list"
  assume "length bs = cp_size socket_v4_compact"
  then obtain ip port where "octets_ok 4 ip" "port_ok port"
    "cp_decode_unchecked (pair_compact ipv4_compact u16_compact) bs = Some (ip, port)"
    "cp_encode (pair_compact ipv4_compact u16_compact) (ip, port) = bs"
    using ipp4.decode_bytes [of bs] by (auto simp: socket_v4_compact_def pair_size Let_def)
  then show "\<exists>x. v4_ok x \<and> cp_decode_unchecked socket_v4_compact bs = Some x \<and> cp_encode socket_v4_compact x = bs"
    by (intro exI [of _ "\<lparr>v4_ip = ip, v4_port = port\<rparr>"]) (simp add: socket_v4_compact_def v4_ok_def Let_def)
qed (use ipp4.encode_size ipp4.decode_encode ipv4.size_pos in
  \<open>auto simp: socket_v4_compact_def v4_ok_def pair_size Let_def\<close>)

interpretation so6: compact_codec socket_v6_compact v6_ok
proof
  fix bs :: "byte list"
  assume "length bs = cp_size socket_v6_compact"
  then obtain ip port where "octets_ok 16 ip" "port_ok port"
    "cp_decode_unchecked (pair_compact ipv6_compact u16_compact) bs = Some (ip, port)"
    "cp_encode (pair_compact ipv6_compact u16_compact) (ip, port) = bs"
    using ipp6.decode_bytes [of bs] by (auto simp: socket_v6_compact_def pair_size Let_def)
  then show "\<exists>x. v6_ok x \<and> cp_decode_unchecked socket_v6_compact bs = Some x \<and> cp_encode socket_v6_compact x = bs"
    by (intro exI [of _ "\<lparr>v6_ip = ip, v6_port = port, v6_flowinfo = 0, v6_scope_id = 0\<rparr>"])
       (simp add: socket_v6_compact_def v6_ok_def Let_def)
qed (use ipp6.encode_size ipp6.decode_encode ipv6.size_pos in
  \<open>auto simp: socket_v6_compact_def v6_ok_def pair_size Let_def\<close>)

interpretation inf: compact_pair node_id_compact node_ok socket_v4_compact v4_ok ..

section \<open>Lists of peer endpoints\<close>

text \<open>
  A list of endpoints is carried when it is encoded without a panic and read back, as one array and as the
  pieces of it, which are the encodings one by one.
\<close>

definition carried :: "'a endpoint_format \<Rightarrow> socket_addr list \<Rightarrow> bool" where
  "carried f peers \<longleftrightarrow>
     (\<exists>bs chunks. pe_encode_many f peers = Some bs \<and> length bs = cp_size (ef_compact f) * length peers \<and>
        pe_decode_many f bs = Some (Inr peers) \<and>
        pe_to_bytes_iter f peers = Some chunks \<and> pe_to_array_iter f peers = Some chunks \<and> concat chunks = bs \<and>
        map (pe_decode f) chunks = map (Some \<circ> Inr) peers)"

locale endpoint_codec =
  fixes f :: "'a endpoint_format" and valid :: "'a \<Rightarrow> bool"
  assumes compact: "compact_codec (ef_compact f) valid"
    and to_compact: "ef_to_compact f peer = Some x \<longleftrightarrow> peer = ef_from_compact f x"

sublocale endpoint_codec \<subseteq> compact_codec "ef_compact f" valid
  by (rule compact)

context endpoint_codec
begin

lemma those_to_compact: "those (map (ef_to_compact f) (map (ef_from_compact f) xs)) = Some xs"
  by (induction xs) (simp_all add: to_compact [THEN iffD2])

lemma arrays: "pe_to_array_iter f (map (ef_from_compact f) xs) = Some (map (cp_encode (ef_compact f)) xs)"
  by (induction xs) (simp_all add: pe_to_array_iter_def to_compact [THEN iffD2])

lemma carried_valid:
  assumes "\<forall>x \<in> set xs. valid x"
  shows "carried f (map (ef_from_compact f) xs)"
proof -
  have "pe_encode_many f (map (ef_from_compact f) xs) = Some (cp_encode_many (ef_compact f) xs)"
    by (simp add: pe_encode_many_def those_to_compact del: map_map)
  moreover have "map (pe_decode f) (map (cp_encode (ef_compact f)) xs) = map (Some \<circ> Inr) (map (ef_from_compact f) xs)"
    using assms by (simp add: pe_decode_def decode_valid)
  ultimately show ?thesis
    using assms by (simp add: carried_def pe_decode_many_def pe_to_bytes_iter_def arrays decode_many_valid
      length_encode_many split_encoded cp_encode_many_def [symmetric] del: map_map)
qed

end

interpretation pe4: endpoint_codec v4_format v4_ok
  by (rule endpoint_codec.intro)
     (auto simp: v4_format_def v4_to_compact_def so4.compact_codec_axioms split: socket_addr.splits)

interpretation pe6: endpoint_codec v6_format v6_ok
  by (rule endpoint_codec.intro)
     (auto simp: v6_format_def v6_to_compact_def so6.compact_codec_axioms split: socket_addr.splits)

section \<open>Properties\<close>

text \<open>
  The compact lists of peer endpoints round-trip for both address families: encoding endpoints of the
  family panics nowhere, the array decodes to the same endpoints in the same order, and the pieces it is split
  into are the encodings of the single endpoints. An IPv6 endpoint comes back only without flow information
  and scope, which the encoding leaves out.
\<close>

theorem peer_endpoints_roundtrip:
  assumes "\<forall>a \<in> set as. v4_ok a" and "\<forall>a \<in> set bs. v6_ok a"
  shows "carried v4_format (map V4 as) \<and> carried v6_format (map V6 bs)"
  using pe4.carried_valid [OF assms(1)] pe6.carried_valid [OF assms(2)] by (simp add: v4_format_def v6_format_def)

theorem peer_endpoints_roundtrip_witness:
  "carried v4_format [V4 \<lparr>v4_ip = [127, 0, 0, 1], v4_port = 8001\<rparr>] \<and>
   carried v6_format [V6 \<lparr>v6_ip = replicate 16 1, v6_port = 6881, v6_flowinfo = 0, v6_scope_id = 0\<rparr>]"
  using peer_endpoints_roundtrip [of "[\<lparr>v4_ip = [127, 0, 0, 1], v4_port = 8001\<rparr>]"
      "[\<lparr>v6_ip = replicate 16 1, v6_port = 6881, v6_flowinfo = 0, v6_scope_id = 0\<rparr>]"]
  by (simp add: v4_ok_def v6_ok_def)

definition info_ok :: "socket_addr node_info \<Rightarrow> bool" where
  "info_ok info \<longleftrightarrow> node_ok (ni_id info) \<and> (\<exists>a. v4_ok a \<and> ni_endpoint info = V4 a)"

lemma info_ok_from: "(case p of (a, e) \<Rightarrow> node_ok a \<and> v4_ok e) \<Longrightarrow> info_ok (node_info_from p)"
  by (auto simp: info_ok_def node_info_from_def split: prod.splits)

lemma info_okE:
  assumes "info_ok info"
  obtains p where "case p of (a, e) \<Rightarrow> node_ok a \<and> v4_ok e" and "info = node_info_from p"
  using assms that [of "(ni_id info, case ni_endpoint info of V4 a \<Rightarrow> a)"]
  by (cases info) (auto simp: info_ok_def node_info_from_def)

lemma infos_from:
  "\<forall>info \<in> set infos. info_ok info \<Longrightarrow>
     \<exists>ps. (\<forall>p \<in> set ps. case p of (a, e) \<Rightarrow> node_ok a \<and> v4_ok e) \<and> infos = map node_info_from ps"
proof (induction infos)
  case (Cons info infos)
  obtain p where "case p of (a, e) \<Rightarrow> node_ok a \<and> v4_ok e" "info = node_info_from p" using Cons.prems info_okE by auto
  moreover obtain ps where "\<forall>p \<in> set ps. case p of (a, e) \<Rightarrow> node_ok a \<and> v4_ok e" "infos = map node_info_from ps"
    using Cons by auto
  ultimately show ?case by (intro exI [of _ "p # ps"]) simp
qed simp

lemma encode_list_from: "encode_list_v4 (map node_info_from ps) = Some (cp_encode_many node_info_compact ps)"
proof -
  have "those (map (\<lambda>info. case node_info_try_from info of Inl _ \<Rightarrow> None | Inr p \<Rightarrow> Some p) (map node_info_from ps)) = Some ps"
    by (induction ps) (auto simp: node_info_from_def node_info_try_from_def)
  then show ?thesis by (simp add: encode_list_v4_def del: map_map)
qed

lemma node_info_size: "cp_size node_info_compact = 26"
  by (simp add: node_info_compact_def pair_size node_id_compact_def NODE_ID_SIZE_def socket_v4_compact_def
      ipv4_compact_def u16_compact_def Let_def)

lemma infos_encoded:
  assumes "\<forall>info \<in> set infos. info_ok info"
  shows "\<exists>bs. encode_list_v4 infos = Some bs \<and> length bs = 26 * length infos \<and> node_infos_decode bs = Some (Inr infos)"
proof -
  obtain ps where ps: "\<forall>p \<in> set ps. case p of (a, e) \<Rightarrow> node_ok a \<and> v4_ok e" "infos = map node_info_from ps"
    using infos_from [OF assms] by blast
  then show ?thesis
    using inf.length_encode_many [OF ps(1)] inf.decode_many_valid [OF ps(1)] node_info_size
    by (simp add: encode_list_from node_infos_decode_def flip: node_info_compact_def)
qed

lemma infos_decoded:
  assumes "length bs mod 26 = 0"
  shows "\<exists>infos. node_infos_decode bs = Some (Inr infos) \<and> (\<forall>info \<in> set infos. info_ok info) \<and> encode_list_v4 infos = Some bs"
proof -
  obtain qs where "cp_decode_many node_info_compact bs = Some (Inr qs)"
    "\<forall>p \<in> set qs. case p of (a, e) \<Rightarrow> node_ok a \<and> v4_ok e" "cp_encode_many node_info_compact qs = bs"
    using inf.decode_many_bytes [of bs] assms node_info_size by (auto simp flip: node_info_compact_def)
  moreover from this have "\<forall>info \<in> set (map node_info_from qs). info_ok info" using info_ok_from by fastforce
  ultimately show ?thesis
    by (intro exI [of _ "map node_info_from qs"]) (simp add: node_infos_decode_def encode_list_from)
qed

text \<open>
  C37. The compact list of nodes in DHT messages round-trips: a list of nodes with IPv4 endpoints is encoded into
  26 bytes per node that decode to it, and arbitrary bytes never make the decoder panic, it refuses exactly
  those whose length is not a multiple of 26 and decodes all others to nodes that encode to the same bytes.
\<close>

theorem node_infos_roundtrip:
  assumes "\<forall>info \<in> set infos. info_ok info"
  shows "(\<exists>bs. encode_list_v4 infos = Some bs \<and> length bs = 26 * length infos \<and> node_infos_decode bs = Some (Inr infos)) \<and>
    (if length bs mod 26 \<noteq> 0 then node_infos_decode bs = Some (Inl (ArraySize (length bs) 26))
     else \<exists>infos. node_infos_decode bs = Some (Inr infos) \<and> (\<forall>info \<in> set infos. info_ok info) \<and> encode_list_v4 infos = Some bs)"
  using infos_encoded [OF assms] infos_decoded [of bs] inf.decode_many_odd [of bs] node_info_size
  by (auto simp: node_infos_decode_def simp flip: node_info_compact_def)

theorem node_infos_roundtrip_witness:
  "\<exists>bs. encode_list_v4 [\<lparr>ni_id = replicate 20 5, ni_endpoint = V4 \<lparr>v4_ip = [127, 0, 0, 1], v4_port = 8001\<rparr>\<rparr>] = Some bs \<and>
     length bs = 26"
  using node_infos_roundtrip [of "[\<lparr>ni_id = replicate 20 5, ni_endpoint = V4 \<lparr>v4_ip = [127, 0, 0, 1], v4_port = 8001\<rparr>\<rparr>]" "[]"]
  by (auto simp: info_ok_def v4_ok_def)

end
