(* ===== verification/Lookup_Spec.thy ===== *)
theory Lookup_Spec
  imports Lookup Route_Spec
begin

text \<open>
  What a lookup promises: it ends whatever the network answers, asks no node twice, has asked the closest nodes
  it has heard of when it ends, and collects exactly what the nodes that answered returned.
\<close>

section \<open>The queue\<close>

definition queue_ok :: "target \<Rightarrow> (node_distance \<times> 'e node_info) list \<Rightarrow> bool" where
  "queue_ok t q \<longleftrightarrow> sorted_wrt (<) (map fst q) \<and> (\<forall>e \<in> set q. fst e = distance (ni_id (snd e)) (to_id t) \<and> node_ok (ni_id (snd e)))"

definition queue_ids :: "(node_distance \<times> 'e node_info) list \<Rightarrow> node_id list" where
  "queue_ids q = map (\<lambda>(_, info). ni_id info) q"

definition infos_ok :: "'e node_info list \<Rightarrow> bool" where
  "infos_ok infos \<longleftrightarrow> (\<forall>info \<in> set infos. node_ok (ni_id info))"

lemma distance_inj:
  assumes "node_ok a" "node_ok b" "node_ok t" "distance a t = distance b t"
  shows "a = b"
proof -
  have "node_bits a = node_bits b"
  proof (rule nth_equalityI)
    fix i assume "i < length (node_bits a)"
    then have "i < 160" using assms(1) by simp
    then show "node_bits a ! i = node_bits b ! i"
      using nth_distance [OF assms(1,3)] nth_distance [OF assms(2,3)] assms(4) by metis
  qed (use assms in simp)
  with assms show ?thesis by (simp add: node_bits_inj)
qed

lemma queue_ids_iff:
  assumes "queue_ok t q" "node_ok (to_id t)" "node_ok a"
  shows "a \<in> set (queue_ids q) \<longleftrightarrow> distance a (to_id t) \<in> fst ` set q"
proof
  assume "a \<in> set (queue_ids q)"
  then obtain e where "e \<in> set q" "ni_id (snd e) = a" by (auto simp: queue_ids_def case_prod_unfold)
  with assms(1) show "distance a (to_id t) \<in> fst ` set q" unfolding queue_ok_def by (metis image_eqI)
next
  assume "distance a (to_id t) \<in> fst ` set q"
  then obtain e where e: "e \<in> set q" "fst e = distance a (to_id t)" by auto
  have "distance (ni_id (snd e)) (to_id t) = distance a (to_id t)" "node_ok (ni_id (snd e))"
    using assms(1) e unfolding queue_ok_def by auto
  then have "ni_id (snd e) = a" using distance_inj assms(2,3) by blast
  with e(1) show "a \<in> set (queue_ids q)" by (force simp: queue_ids_def case_prod_unfold)
qed

lemma queue_ids_distinct: "queue_ok t q \<Longrightarrow> distinct (queue_ids q)"
proof -
  assume q: "queue_ok t q"
  then have keys: "map fst q = map (\<lambda>a. distance a (to_id t)) (queue_ids q)"
    by (auto simp: queue_ok_def queue_ids_def)
  have "distinct (map fst q)" using q unfolding queue_ok_def by (simp add: strict_sorted_iff)
  then show ?thesis unfolding keys by (simp add: distinct_map)
qed

lemma bt_insert_keys: "sorted_wrt (<) (map fst m) \<Longrightarrow> fst ` set (bt_insert k v m) = insert k (fst ` set m)"
  using bt_insert_sorted [of m k v] dom_map_of_conv_image_fst [of "bt_insert k v m"] dom_map_of_conv_image_fst [of m] by simp

lemma queue_insert_ok:
  assumes "queue_ok t q" "node_ok (to_id t)" "node_ok (ni_id info)"
  defines "q' \<equiv> bt_insert (distance (ni_id info) (to_id t)) info q"
  shows "queue_ok t q'" "set (queue_ids q') = insert (ni_id info) (set (queue_ids q))"
proof -
  have s: "sorted_wrt (<) (map fst q)" using assms(1) by (simp add: queue_ok_def)
  show ok: "queue_ok t q'"
    using bt_insert_sorted [OF s, of "distance (ni_id info) (to_id t)" info] assms(1,3) unfolding queue_ok_def q'_def by auto
  have "node_ok a" if "a \<in> set (queue_ids q) \<or> a \<in> set (queue_ids q')" for a
    using that assms(1) ok by (auto simp: queue_ok_def queue_ids_def)
  moreover have "a \<in> set (queue_ids q') \<longleftrightarrow> a = ni_id info \<or> a \<in> set (queue_ids q)" if a: "node_ok a" for a
    unfolding queue_ids_iff [OF ok assms(2) a] queue_ids_iff [OF assms(1,2) a]
    unfolding q'_def bt_insert_keys [OF s] using distance_inj [OF a assms(3,2)] by blast
  ultimately show "set (queue_ids q') = insert (ni_id info) (set (queue_ids q))" using assms(3) by blast
qed

lemma extend_queue_ok:
  assumes "node_ok (to_id t)"
  shows "queue_ok t q \<Longrightarrow> infos_ok infos \<Longrightarrow>
    queue_ok t (extend_queue q t infos) \<and> set (queue_ids (extend_queue q t infos)) = set (queue_ids q) \<union> ni_id ` set infos"
proof (induction infos arbitrary: q)
  case (Cons info infos)
  have i: "node_ok (ni_id info)" "infos_ok infos" using Cons.prems(2) by (simp_all add: infos_ok_def)
  note q' = queue_insert_ok [OF Cons.prems(1) assms i(1)]
  from Cons.IH [OF q'(1) i(2)] q'(2) show ?case by simp
qed simp

section \<open>An iteration\<close>

lemma next_queries_eq:
  assumes "distinct (map ni_id infos)" "length queries < ALPHA"
  shows "next_queries q infos queried queries =
    Some (queries @ map (\<lambda>info. (info, q)) (take (ALPHA - length queries) (filter (\<lambda>info. ni_id info \<notin> queried) infos)),
      queried \<union> ni_id ` set (take (ALPHA - length queries) (filter (\<lambda>info. ni_id info \<notin> queried) infos)))"
  using assms
proof (induction infos arbitrary: queried queries)
  case (Cons info infos)
  show ?case
  proof (cases "ni_id info \<in> queried")
    case True
    with Cons show ?thesis by simp
  next
    case False
    have other: "ni_id x \<noteq> ni_id info" if "x \<in> set infos" for x
      using Cons.prems(1) image_eqI [OF _ that, of "ni_id info" ni_id] by auto
    have same: "filter (\<lambda>i. ni_id i \<notin> insert (ni_id info) queried) infos = filter (\<lambda>i. ni_id i \<notin> queried) infos"
      by (intro filter_cong) (auto dest: other)
    show ?thesis
    proof (cases "Suc (length queries) = ALPHA")
      case True
      then have "ALPHA - length queries = 1" by simp
      with False True show ?thesis by (simp add: rs_assert_def)
    next
      case less: False
      then have n: "ALPHA - length queries = Suc (ALPHA - length (queries @ [(info, q)]))" "length (queries @ [(info, q)]) < ALPHA"
        using Cons.prems(2) by simp_all
      have "distinct (map ni_id infos)" using Cons.prems(1) by simp
      note IH = Cons.IH [OF this n(2), of "insert (ni_id info) queried", unfolded same]
      show ?thesis using False less Cons.prems(2) IH unfolding n(1) by (simp add: rs_assert_def)
    qed
  qed
qed simp

definition fresh_nodes :: "'e lookup \<Rightarrow> 'e node_info list" where
  "fresh_nodes lk = take ALPHA (filter (\<lambda>info. ni_id info \<notin> lk_queried lk) (map snd (lk_queue lk)))"

lemma next_iteration_eq:
  assumes "queue_ok (lk_target lk) (lk_queue lk)"
  shows "next_iteration lk = Some
    (if take ALPHA (queue_ids (lk_queue lk)) = lk_closest lk then (None, lk)
     else (if fresh_nodes lk = [] then None else Some (map (\<lambda>info. (info, new_query (lk_target lk) (lk_self_id lk))) (fresh_nodes lk)),
       lk\<lparr>lk_closest := take ALPHA (queue_ids (lk_queue lk)), lk_queried := lk_queried lk \<union> ni_id ` set (fresh_nodes lk)\<rparr>))"
proof -
  have ids: "map ni_id (map snd (lk_queue lk)) = queue_ids (lk_queue lk)" by (simp add: queue_ids_def case_prod_unfold comp_def)
  have "distinct (map ni_id (map snd (lk_queue lk)))" unfolding ids by (rule queue_ids_distinct [OF assms])
  from next_queries_eq [OF this, where queries = "[]" and queried = "lk_queried lk"] show ?thesis
    by (simp add: next_iteration_def fresh_nodes_def ALPHA_def queue_ids_def Let_def)
qed

lemma take_filter_subset: "set (filter P (take n xs)) \<subseteq> set (take n (filter P xs))"
proof -
  have "filter P xs = filter P (take n xs) @ filter P (drop n xs)" by (metis append_take_drop_id filter_append)
  moreover have "length (filter P (take n xs)) \<le> n" by (metis length_filter_le length_take min.bounded_iff)
  ultimately show ?thesis by (metis take_all take_append UnI1 set_append subsetI)
qed

lemma fresh_cover:
  "set (take ALPHA (queue_ids (lk_queue lk))) \<subseteq> lk_queried lk \<union> ni_id ` set (fresh_nodes lk)"
proof
  fix a assume "a \<in> set (take ALPHA (queue_ids (lk_queue lk)))"
  then have "a \<in> ni_id ` set (take ALPHA (map snd (lk_queue lk)))"
    by (simp add: queue_ids_def case_prod_unfold take_map image_comp)
  then obtain info where i: "info \<in> set (take ALPHA (map snd (lk_queue lk)))" "a = ni_id info" by auto
  show "a \<in> lk_queried lk \<union> ni_id ` set (fresh_nodes lk)"
  proof (cases "a \<in> lk_queried lk")
    case False
    then have "info \<in> set (fresh_nodes lk)"
      using i take_filter_subset [of "\<lambda>info. ni_id info \<notin> lk_queried lk" ALPHA "map snd (lk_queue lk)"] unfolding fresh_nodes_def by auto
    with i(2) show ?thesis by simp
  qed simp
qed

lemma fresh_props:
  assumes "queue_ok t (lk_queue lk)"
  shows "distinct (map ni_id (fresh_nodes lk))" "ni_id ` set (fresh_nodes lk) \<inter> lk_queried lk = {}"
    "ni_id ` set (fresh_nodes lk) \<subseteq> set (queue_ids (lk_queue lk))"
proof -
  have ids: "map ni_id (map snd (lk_queue lk)) = queue_ids (lk_queue lk)" by (simp add: queue_ids_def case_prod_unfold comp_def)
  have "distinct (map ni_id (map snd (lk_queue lk)))" unfolding ids by (rule queue_ids_distinct [OF assms])
  then have "distinct (map ni_id (filter (\<lambda>info. ni_id info \<notin> lk_queried lk) (map snd (lk_queue lk))))" by (rule distinct_map_filter)
  then show "distinct (map ni_id (fresh_nodes lk))" unfolding fresh_nodes_def take_map [symmetric] by (rule distinct_take)
  show "ni_id ` set (fresh_nodes lk) \<inter> lk_queried lk = {}" by (auto simp: fresh_nodes_def dest: in_set_takeD)
  have "set (fresh_nodes lk) \<subseteq> set (map snd (lk_queue lk))" unfolding fresh_nodes_def by (auto dest: in_set_takeD)
  then show "ni_id ` set (fresh_nodes lk) \<subseteq> set (queue_ids (lk_queue lk))" unfolding ids [symmetric] by auto
qed

section \<open>What the nodes answer\<close>

definition answer :: "('e node_info \<Rightarrow> dht_query \<Rightarrow> 'x + 'e response) \<Rightarrow> node_id \<Rightarrow> target \<Rightarrow> 'e node_info \<Rightarrow> 'e response option" where
  "answer ask self t node =
     (case ask node (new_query t self) of
        Inl _ \<Rightarrow> None
      | Inr r \<Rightarrow> (case t of TargetNode _ \<Rightarrow> if rp_nodes r = None then None else Some r | TargetHash _ \<Rightarrow> Some r))"

definition answer_nodes :: "'e response \<Rightarrow> 'e node_info list" where
  "answer_nodes r = (case rp_nodes r of None \<Rightarrow> [] | Some ns \<Rightarrow> ns)"

definition answer_ids :: "'e response option \<Rightarrow> node_id set" where
  "answer_ids r = (case r of None \<Rightarrow> {} | Some r \<Rightarrow> ni_id ` set (answer_nodes r))"

definition answer_peers :: "'e response option \<Rightarrow> 'e set" where
  "answer_peers r = (case Option.bind r rp_values of None \<Rightarrow> {} | Some vs \<Rightarrow> set vs)"

definition answer_token :: "'e response option \<Rightarrow> token option" where
  "answer_token r = Option.bind r rp_token"

definition asks_ok :: "('e node_info \<Rightarrow> dht_query \<Rightarrow> 'x + 'e response) \<Rightarrow> bool" where
  "asks_ok ask \<longleftrightarrow> (\<forall>node q r. ask node q = Inr r \<longrightarrow> infos_ok (answer_nodes r))"

definition closest_is :: "('e node_info \<Rightarrow> 'e response option) \<Rightarrow> node_id \<Rightarrow> 'e node_info set \<Rightarrow> ('e node_info \<times> token) option \<Rightarrow> bool" where
  "closest_is ans h nodes closest \<longleftrightarrow>
     (case closest of
        None \<Rightarrow> \<forall>node \<in> nodes. answer_token (ans node) = None
      | Some (c, token) \<Rightarrow> c \<in> nodes \<and> answer_token (ans c) = Some token \<and>
          (\<forall>node \<in> nodes. answer_token (ans node) \<noteq> None \<longrightarrow> distance (ni_id c) h \<le> distance (ni_id node) h))"

definition acc_is :: "('e node_info \<Rightarrow> 'e response option) \<Rightarrow> target \<Rightarrow> 'e node_info set \<Rightarrow> 'e acc \<Rightarrow> bool" where
  "acc_is ans t nodes acc \<longleftrightarrow>
     (case t of
        TargetNode _ \<Rightarrow> acc = LookupNodesAcc
      | TargetHash h \<Rightarrow> \<exists>closest. acc = LookupPeersAcc (\<Union>node \<in> nodes. answer_peers (ans node)) closest \<and> closest_is ans h nodes closest)"

lemma closest_step:
  assumes "closest_is ans h nodes closest" "ans node = Some r"
  shows "closest_is ans h (insert node nodes)
    (case rp_token r of
       Some token \<Rightarrow>
         if (case closest of None \<Rightarrow> True | Some (c, _) \<Rightarrow> distance (ni_id node) h < distance (ni_id c) h)
         then Some (node, token) else closest
     | None \<Rightarrow> closest)"
proof (cases "rp_token r")
  case None
  then have "answer_token (ans node) = None" using assms(2) by (simp add: answer_token_def)
  with None assms(1) show ?thesis by (cases closest) (auto simp: closest_is_def)
next
  case (Some token)
  then have n: "answer_token (ans node) = Some token" using assms(2) by (simp add: answer_token_def)
  show ?thesis
  proof (cases closest)
    case None
    with Some n assms(1) show ?thesis by (auto simp: closest_is_def)
  next
    case (Some e)
    obtain c tok where e: "e = (c, tok)" by (cases e)
    have c: "c \<in> nodes" "answer_token (ans c) = Some tok"
      "\<And>x. x \<in> nodes \<Longrightarrow> answer_token (ans x) \<noteq> None \<Longrightarrow> distance (ni_id c) h \<le> distance (ni_id x) h"
      using assms(1) Some e by (auto simp: closest_is_def)
    show ?thesis
    proof (cases "distance (ni_id node) h < distance (ni_id c) h")
      case True
      then have "distance (ni_id node) h \<le> distance (ni_id x) h" if "x \<in> insert node nodes" "answer_token (ans x) \<noteq> None" for x
        using that c(3) [of x] by (cases "x = node") auto
      with True n Some e \<open>rp_token r = Some token\<close> show ?thesis by (simp add: closest_is_def)
    next
      case False
      with c Some e \<open>rp_token r = Some token\<close> show ?thesis by (auto simp: closest_is_def)
    qed
  qed
qed

lemma acc_step:
  assumes "acc_is (answer ask self t) t nodes acc" "ask node (new_query t self) = Inr r"
  shows "answer ask self t node = Some r \<Longrightarrow>
      \<exists>acc'. acc_update acc t node r = (Inr (answer_nodes r), acc') \<and> acc_is (answer ask self t) t (insert node nodes) acc'"
    and "answer ask self t node = None \<Longrightarrow> acc_update acc t node r = (Inl r, acc)"
proof -
  show "\<exists>acc'. acc_update acc t node r = (Inr (answer_nodes r), acc') \<and> acc_is (answer ask self t) t (insert node nodes) acc'"
    if a: "answer ask self t node = Some r"
  proof (cases t)
    case (TargetNode a)
    with assms(1) a assms(2) show ?thesis by (auto simp: acc_is_def answer_def answer_nodes_def split: if_splits)
  next
    case (TargetHash h)
    obtain closest where acc: "acc = LookupPeersAcc (\<Union>node \<in> nodes. answer_peers (answer ask self t node)) closest"
      "closest_is (answer ask self t) h nodes closest"
      using assms(1) TargetHash by (auto simp: acc_is_def)
    have "(case rp_values r of Some vs \<Rightarrow> P \<union> set vs | None \<Rightarrow> P) = answer_peers (answer ask self t node) \<union> P" for P
      using a by (auto simp: answer_peers_def split: option.split)
    with closest_step [OF acc(2) a] show ?thesis
      unfolding acc(1) using TargetHash by (simp add: acc_is_def answer_nodes_def Let_def cong: option.case_cong prod.case_cong)
  qed
  show "acc_update acc t node r = (Inl r, acc)" if "answer ask self t node = None"
    using that assms by (auto simp: answer_def acc_is_def split: target.splits if_splits)
qed

section \<open>The driver\<close>

fun upd_id :: "'e table_update \<Rightarrow> node_id" where
  "upd_id (UpdateOk info) = ni_id info"
| "upd_id (UpdateErr a) = a"

text \<open>A node is reported as good exactly when it gave a valid answer.\<close>

fun upd_right :: "('e node_info \<Rightarrow> 'e response option) \<Rightarrow> 'e table_update \<Rightarrow> bool" where
  "upd_right ans (UpdateOk info) \<longleftrightarrow> ans info \<noteq> None"
| "upd_right ans (UpdateErr a) \<longleftrightarrow> (\<exists>info. ni_id info = a \<and> ans info = None)"

fun ok_nodes :: "'e table_update list \<Rightarrow> 'e node_info list" where
  "ok_nodes [] = []"
| "ok_nodes (UpdateOk info # log) = info # ok_nodes log"
| "ok_nodes (UpdateErr a # log) = ok_nodes log"

lemma ok_nodes_append [simp]: "ok_nodes (xs @ ys) = ok_nodes xs @ ok_nodes ys"
  by (induction xs rule: ok_nodes.induct) auto

text \<open>The nodes asked, and those of the round that are still to be asked.\<close>

definition asked_ids :: "'e table_update list \<Rightarrow> 'e node_info list \<Rightarrow> node_id list" where
  "asked_ids log todo = map upd_id log @ map ni_id todo"

lemma asked_ids_step [simp]:
  "asked_ids (log @ [UpdateErr (ni_id node)]) todo = asked_ids log (node # todo)"
  "asked_ids (log @ [UpdateOk node]) todo = asked_ids log (node # todo)"
  by (simp_all add: asked_ids_def)

definition known_ids :: "('e node_info \<Rightarrow> 'e response option) \<Rightarrow> 'e node_info list \<Rightarrow> 'e node_info list \<Rightarrow> node_id set" where
  "known_ids ans boot nodes = ni_id ` set boot \<union> (\<Union>node \<in> set nodes. answer_ids (ans node))"

definition dr_inv ::
    "('e node_info \<Rightarrow> dht_query \<Rightarrow> 'x + 'e response) \<Rightarrow> node_id \<Rightarrow> target \<Rightarrow> 'e node_info list \<Rightarrow> 'e node_info list \<Rightarrow> 'e driver \<Rightarrow> bool" where
  "dr_inv ask self t boot todo st \<longleftrightarrow> (case st of (lk, nodes, log) \<Rightarrow>
     lk_self_id lk = self \<and> lk_target lk = t \<and> queue_ok t (lk_queue lk) \<and>
     set (lk_closest lk) \<subseteq> lk_queried lk \<and> lk_queried lk \<subseteq> set (queue_ids (lk_queue lk)) \<and>
     lk_queried lk = set (asked_ids log todo) \<and> distinct (asked_ids log todo) \<and>
     ok_nodes log = map fst nodes \<and> list_all (upd_right (answer ask self t)) log \<and>
     set (queue_ids (lk_queue lk)) = known_ids (answer ask self t) boot (map fst nodes) \<and>
     acc_is (answer ask self t) t (set (map fst nodes)) (lk_acc lk))"

lemma dr_inv_err:
  assumes "dr_inv ask self t boot (node # todo) (lk, nodes, log)" "answer ask self t node = None"
  shows "dr_inv ask self t boot todo (lk, nodes, log @ [UpdateErr (ni_id node)])"
  using assms unfolding dr_inv_def by auto

lemma dr_inv_ok:
  assumes "dr_inv ask self t boot (node # todo) (lk, nodes, log)" "answer ask self t node = Some r"
    and "queue_ok t q" "set (queue_ids q) = set (queue_ids (lk_queue lk)) \<union> ni_id ` set (answer_nodes r)"
    and "acc_is (answer ask self t) t (insert node (set (map fst nodes))) acc"
  shows "dr_inv ask self t boot todo (lk\<lparr>lk_acc := acc, lk_queue := q\<rparr>, nodes @ [(node, now)], log @ [UpdateOk node])"
proof -
  have "known_ids (answer ask self t) boot (map fst nodes @ [node]) = known_ids (answer ask self t) boot (map fst nodes) \<union> ni_id ` set (answer_nodes r)"
    using assms(2) by (auto simp: known_ids_def answer_ids_def)
  with assms show ?thesis unfolding dr_inv_def by auto
qed

lemma ask_node_inv:
  assumes "node_ok (to_id t)" "asks_ok ask" "dr_inv ask self t boot (node # todo) (lk, nodes, log)"
  shows "dr_inv ask self t boot todo (ask_node ask clock (node, new_query t self) (lk, nodes, log)) \<and>
    lk_queried (fst (ask_node ask clock (node, new_query t self) (lk, nodes, log))) = lk_queried lk"
proof (cases "ask node (new_query t self)")
  case (Inl x)
  then have "answer ask self t node = None" by (simp add: answer_def)
  with dr_inv_err [OF assms(3)] Inl show ?thesis by simp
next
  case (Inr r)
  have inv: "lk_target lk = t" "queue_ok t (lk_queue lk)" "acc_is (answer ask self t) t (set (map fst nodes)) (lk_acc lk)"
    using assms(3) by (simp_all add: dr_inv_def)
  note step = acc_step [OF inv(3) Inr]
  show ?thesis
  proof (cases "answer ask self t node")
    case None
    with step(2) dr_inv_err [OF assms(3)] Inr inv(1) show ?thesis by (simp add: lookup_update_def)
  next
    case (Some r')
    then have r': "r' = r" using Inr by (auto simp: answer_def split: target.splits if_splits)
    with Some obtain acc' where acc: "acc_update (lk_acc lk) t node r = (Inr (answer_nodes r), acc')"
      "acc_is (answer ask self t) t (insert node (set (map fst nodes))) acc'" using step(1) by blast
    have "infos_ok (answer_nodes r)" using assms(2) Inr unfolding asks_ok_def by blast
    note q = extend_queue_ok [OF assms(1) inv(2) this]
    note ok = dr_inv_ok [OF assms(3) Some [unfolded r'] conjunct1 [OF q] conjunct2 [OF q] acc(2), of "clock (length log)"]
    show ?thesis using Inr acc(1) inv(1) ok by (simp add: lookup_update_def)
  qed
qed

lemma ask_nodes_inv:
  assumes "node_ok (to_id t)" "asks_ok ask"
  shows "dr_inv ask self t boot todo st \<Longrightarrow>
    dr_inv ask self t boot [] (ask_nodes ask clock (map (\<lambda>info. (info, new_query t self)) todo) st) \<and>
    lk_queried (fst (ask_nodes ask clock (map (\<lambda>info. (info, new_query t self)) todo) st)) = lk_queried (fst st)"
proof (induction todo arbitrary: st)
  case (Cons node todo)
  obtain lk nodes log where st: "st = (lk, nodes, log)" by (cases st)
  note one = ask_node_inv [OF assms Cons.prems [unfolded st], of clock]
  from Cons.IH [OF conjunct1 [OF one]] one show ?case by (simp add: st)
qed simp

text \<open>A round that asks at least one more node.\<close>

lemma round_inv:
  assumes "dr_inv ask self t boot [] (lk, nodes, log)"
  shows "dr_inv ask self t boot (fresh_nodes lk)
    (lk\<lparr>lk_closest := take ALPHA (queue_ids (lk_queue lk)), lk_queried := lk_queried lk \<union> ni_id ` set (fresh_nodes lk)\<rparr>, nodes, log)"
proof -
  have q: "queue_ok t (lk_queue lk)" using assms by (simp add: dr_inv_def)
  note f = fresh_props [OF q]
  have "distinct (asked_ids log (fresh_nodes lk))" "set (asked_ids log (fresh_nodes lk)) = lk_queried lk \<union> ni_id ` set (fresh_nodes lk)"
    using assms f(1,2) by (auto simp: dr_inv_def asked_ids_def)
  then show ?thesis using assms f(3) fresh_cover [of lk] unfolding dr_inv_def by auto
qed

definition ended :: "'e lookup \<Rightarrow> bool" where
  "ended lk \<longleftrightarrow> set (take ALPHA (queue_ids (lk_queue lk))) \<subseteq> lk_queried lk"

lemma lookup_loop_returns:
  assumes "node_ok (to_id t)" "asks_ok ask"
  shows "dr_inv ask self t boot [] st \<Longrightarrow>
    \<exists>lk nodes log. lookup_loop ask clock st = Some (lk, nodes, log) \<and> dr_inv ask self t boot [] (lk, nodes, log) \<and> ended lk"
proof (induction "card ({a. node_ok a} - lk_queried (fst st))" arbitrary: st rule: less_induct)
  case less
  obtain lk nodes log where st: "st = (lk, nodes, log)" by (cases st)
  have inv: "lk_target lk = t" "lk_self_id lk = self" "queue_ok t (lk_queue lk)" "set (lk_closest lk) \<subseteq> lk_queried lk"
    using less.prems by (auto simp: dr_inv_def st)
  let ?lk = "lk\<lparr>lk_closest := take ALPHA (queue_ids (lk_queue lk)), lk_queried := lk_queried lk \<union> ni_id ` set (fresh_nodes lk)\<rparr>"
  note nxt = next_iteration_eq [of lk, unfolded inv, OF inv(3)]
  note round = round_inv [OF less.prems [unfolded st]]
  consider "take ALPHA (queue_ids (lk_queue lk)) = lk_closest lk"
    | "take ALPHA (queue_ids (lk_queue lk)) \<noteq> lk_closest lk" "fresh_nodes lk = []"
    | "take ALPHA (queue_ids (lk_queue lk)) \<noteq> lk_closest lk" "fresh_nodes lk \<noteq> []" by blast
  then show ?case
  proof cases
    case 1
    then have "lookup_loop ask clock st = Some st" by (subst lookup_loop.simps) (simp add: st nxt)
    with 1 inv(4) less.prems show ?thesis by (simp add: st ended_def)
  next
    case 2
    then have "lookup_loop ask clock st = Some (?lk, nodes, log)" by (subst lookup_loop.simps) (simp add: st nxt)
    moreover have "ended ?lk" using fresh_cover [of lk] by (simp add: ended_def)
    ultimately show ?thesis using round 2(2) by auto
  next
    case 3
    let ?st = "ask_nodes ask clock (map (\<lambda>info. (info, new_query t self)) (fresh_nodes lk)) (?lk, nodes, log)"
    have loop: "lookup_loop ask clock st = lookup_loop ask clock ?st" using 3 by (subst lookup_loop.simps) (simp add: st nxt)
    note asked = ask_nodes_inv [OF assms round, of clock]
    have "{a. node_ok a} - lk_queried (fst ?st) \<subset> {a. node_ok a} - lk_queried (fst st)"
    proof -
      obtain node where "node \<in> set (fresh_nodes lk)" using 3(2) by (cases "fresh_nodes lk") auto
      moreover have "node_ok a" if "a \<in> set (queue_ids (lk_queue lk))" for a
        using that inv(3) by (auto simp: queue_ok_def queue_ids_def)
      ultimately have "ni_id node \<in> {a. node_ok a} - lk_queried (fst st)" "ni_id node \<in> lk_queried ?lk"
        using fresh_props [OF inv(3)] by (auto simp: st)
      then show ?thesis using conjunct2 [OF asked] by (auto simp: st)
    qed
    moreover have "finite {a :: node_id. node_ok a}" using finite_lists_length_eq [of "UNIV :: byte set" 20] by simp
    ultimately have "card ({a. node_ok a} - lk_queried (fst ?st)) < card ({a. node_ok a} - lk_queried (fst st))"
      by (intro psubset_card_mono) simp_all
    from less.hyps [OF this conjunct1 [OF asked]] show ?thesis unfolding loop .
  qed
qed

lemma lookup_new_inv:
  assumes "node_ok (to_id t)" "infos_ok boot" "boot \<noteq> []"
  shows "\<exists>lk. lookup_new self t boot = Some lk \<and> dr_inv ask self t boot [] (lk, [], [])"
proof -
  have "queue_ok t ([] :: (node_distance \<times> 'a node_info) list)" by (simp add: queue_ok_def)
  from extend_queue_ok [OF assms(1) this assms(2)]
  have q: "queue_ok t (extend_queue [] t boot)" "set (queue_ids (extend_queue [] t boot)) = ni_id ` set boot"
    by (simp_all add: queue_ids_def)
  then have "extend_queue [] t boot \<noteq> []" using assms(3) by (auto simp: queue_ids_def)
  moreover have "acc_is ans t {} (acc_new t)" for ans :: "'a node_info \<Rightarrow> 'a response option"
    by (cases t) (simp_all add: acc_is_def closest_is_def)
  ultimately show ?thesis using q by (simp add: lookup_new_def dr_inv_def asked_ids_def known_ids_def rs_assert_def)
qed

lemma lookup_run_ok:
  assumes "node_ok (to_id t)" "asks_ok ask" "infos_ok boot" "boot \<noteq> []"
  shows "\<exists>lk0 lk nodes log. lookup_new self t boot = Some lk0 \<and> lookup_loop ask clock (lk0, [], []) = Some (lk, nodes, log) \<and>
    dr_inv ask self t boot [] (lk, nodes, log) \<and> ended lk"
proof -
  obtain lk0 where "lookup_new self t boot = Some lk0" "dr_inv ask self t boot [] (lk0, [], [])"
    using lookup_new_inv [OF assms(1,3,4)] by blast
  with lookup_loop_returns [OF assms(1,2)] show ?thesis by blast
qed

section \<open>Properties\<close>

text \<open>
  C7. A lookup ends, whatever the nodes answer and even if they keep naming new nodes: the loop returns, no node is asked
  twice, a node is reported as good exactly when its answer was valid, and the queue then holds every node of the bootstrap
  list and of every valid answer, sorted by its distance to the target, of which the \<open>ALPHA\<close> closest have been asked.
\<close>

theorem lookup_ends:
  assumes "node_ok (to_id t)" "asks_ok ask" "infos_ok boot" "boot \<noteq> []"
  shows "\<exists>lk0 lk nodes log. lookup_new self t boot = Some lk0 \<and> lookup_loop ask clock (lk0, [], []) = Some (lk, nodes, log) \<and>
    distinct (map upd_id log) \<and> list_all (upd_right (answer ask self t)) log \<and> ok_nodes log = map fst nodes \<and>
    set (queue_ids (lk_queue lk)) = known_ids (answer ask self t) boot (map fst nodes) \<and>
    sorted_wrt (<) (map (\<lambda>a. distance a (to_id t)) (queue_ids (lk_queue lk))) \<and>
    set (take ALPHA (queue_ids (lk_queue lk))) \<subseteq> upd_id ` set log"
proof -
  obtain lk0 lk nodes log where r: "lookup_new self t boot = Some lk0" "lookup_loop ask clock (lk0, [], []) = Some (lk, nodes, log)"
    "dr_inv ask self t boot [] (lk, nodes, log)" "ended lk"
    using lookup_run_ok [OF assms] by blast
  have "map (\<lambda>a. distance a (to_id t)) (queue_ids (lk_queue lk)) = map fst (lk_queue lk)"
    using r(3) by (auto simp: dr_inv_def queue_ok_def queue_ids_def)
  with r show ?thesis by (auto simp: dr_inv_def ended_def asked_ids_def queue_ok_def)
qed

text \<open>Two nodes: the first one names the second one, which does not answer.\<close>

definition node_ex :: "byte \<Rightarrow> nat node_info" where
  "node_ex b = \<lparr>ni_id = replicate 20 b, ni_endpoint = unat b\<rparr>"

definition ask_ex :: "nat node_info \<Rightarrow> dht_query \<Rightarrow> unit + nat response" where
  "ask_ex node q = (if ni_endpoint node = 1 then Inr \<lparr>rp_nodes = Some [node_ex 2], rp_token = Some [7], rp_values = Some [5, 4]\<rparr> else Inl ())"

lemma ask_ex_ok: "asks_ok ask_ex"
  by (simp add: asks_ok_def ask_ex_def answer_nodes_def infos_ok_def node_ex_def)

theorem lookup_ends_witness:
  "asks_ok ask_ex \<and> (\<exists>lk0 lk nodes log. lookup_new (replicate 20 0) (TargetNode (replicate 20 3)) [node_ex 1] = Some lk0 \<and>
     lookup_loop ask_ex int (lk0, [], []) = Some (lk, nodes, log) \<and> distinct (map upd_id log) \<and>
     set (take ALPHA (queue_ids (lk_queue lk))) \<subseteq> upd_id ` set log)"
proof -
  have "node_ok (to_id (TargetNode (replicate 20 3)))" "infos_ok [node_ex 1]" "[node_ex 1] \<noteq> []"
    by (simp_all add: infos_ok_def node_ex_def)
  from lookup_ends [OF this(1) ask_ex_ok this(2,3), of "replicate 20 0" int] ask_ex_ok show ?thesis by blast
qed

text \<open>
  C20. What a lookup of peers returns: the peers are exactly those that the answers of the asked nodes named, sorted and each once,
  and the node to announce to is one that sent a token, with that token, and none that sent a token is closer to the
  info hash; there is none only if no node sent a token.
\<close>

theorem lookup_peers_complete:
  fixes boot :: "'e :: linorder node_info list"
  assumes "node_ok h" "asks_ok ask" "infos_ok boot" "boot \<noteq> []"
    and "lookup_new self (TargetHash h) boot = Some lk0" "lookup_loop ask clock (lk0, [], []) = Some (lk, nodes, log)"
  shows "\<exists>closest. acc_finish (lk_acc lk) =
      Some (sorted_list_of_set (\<Union>node \<in> set (map fst nodes). answer_peers (answer ask self (TargetHash h) node)), closest) \<and>
    closest_is (answer ask self (TargetHash h)) h (set (map fst nodes)) closest"
proof -
  have "node_ok (to_id (TargetHash h))" using assms(1) by simp
  from lookup_run_ok [OF this assms(2-4), of self clock] assms(5,6) have "dr_inv ask self (TargetHash h) boot [] (lk, nodes, log)" by auto
  then have "acc_is (answer ask self (TargetHash h)) (TargetHash h) (set (map fst nodes)) (lk_acc lk)" by (simp add: dr_inv_def)
  then show ?thesis by (auto simp: acc_is_def)
qed

theorem lookup_peers_complete_witness:
  "\<exists>lk0 lk nodes log closest. lookup_new (replicate 20 0) (TargetHash (replicate 20 3)) [node_ex 1] = Some lk0 \<and>
     lookup_loop ask_ex int (lk0, [], []) = Some (lk, nodes, log) \<and>
     acc_finish (lk_acc lk) = Some (sorted_list_of_set
       (\<Union>node \<in> set (map fst nodes). answer_peers (answer ask_ex (replicate 20 0) (TargetHash (replicate 20 3)) node)), closest)"
proof -
  have ok: "node_ok (replicate 20 3 :: byte list)" "infos_ok [node_ex 1]" "[node_ex 1] \<noteq> []"
    by (simp_all add: infos_ok_def node_ex_def)
  then have "node_ok (to_id (TargetHash (replicate 20 3)))" by simp
  from lookup_run_ok [OF this ask_ex_ok ok(2,3), of "replicate 20 0" int] obtain lk0 lk nodes log where
    r: "lookup_new (replicate 20 0) (TargetHash (replicate 20 3)) [node_ex 1] = Some lk0"
      "lookup_loop ask_ex int (lk0, [], []) = Some (lk, nodes, log)" by blast
  from lookup_peers_complete [OF ok(1) ask_ex_ok ok(2,3) r] r show ?thesis by blast
qed

section \<open>Lookups and the routing table\<close>

fun table_op :: "int \<Rightarrow> 'e table_update \<Rightarrow> 'e rt_op" where
  "table_op now (UpdateOk info) = RUpdateOk info now"
| "table_op now (UpdateErr a) = RUpdateErr a"

lemma closest_infos_ok:
  assumes "tb_inv t xss"
  shows "\<exists>infos. get_closest t a = Some infos \<and> infos_ok infos"
proof -
  have w: "tb_wf (tb_self_id t) xss" using assms by (simp add: tb_inv_def)
  have "node_ok (ni_id info)" if i: "info \<in> set (take 8 (closest_pool (tb_self_id t) xss a))" for info
  proof -
    obtain y where "y \<in> set (concat xss)" "info = bi_info y" using in_set_takeD [OF i] pool_subset by blast
    with tb_wf_in_concat(1) [OF w] show ?thesis by simp
  qed
  with get_closest_ok [OF assms, of a] show ?thesis by (simp add: infos_ok_def)
qed

lemma run_lookup_ok:
  assumes "tb_inv table xss" "node_ok (to_id t)" "asks_ok ask" "infos_ok found"
  shows "\<exists>r. run_lookup ask clock table self found t = Some r \<and>
    (\<forall>lk nodes log. r = Some (lk, nodes, log) \<longrightarrow> (\<exists>boot. dr_inv ask self t boot [] (lk, nodes, log)))"
proof -
  obtain infos where i: "get_closest table (to_id t) = Some infos" "infos_ok infos" using closest_infos_ok [OF assms(1)] by blast
  define boot where "boot = (if infos \<noteq> [] then infos else found)"
  have boot: "infos_ok boot" using i(2) assms(4) by (simp add: boot_def)
  show ?thesis
  proof (cases "boot = []")
    case True
    then have "infos = []" "found = []" by (simp_all add: boot_def split: if_splits)
    with i(1) show ?thesis by (simp add: run_lookup_def lookup_bootstrap_def)
  next
    case False
    obtain lk0 lk nodes log where r: "lookup_new self t boot = Some lk0" "lookup_loop ask clock (lk0, [], []) = Some (lk, nodes, log)"
      "dr_inv ask self t boot [] (lk, nodes, log)" using lookup_run_ok [OF assms(2,3) boot False] by blast
    then have "run_lookup ask clock table self found t = Some (Some (lk, nodes, log))"
      using i(1) False by (auto simp: run_lookup_def lookup_bootstrap_def boot_def split: if_splits)
    with r(3) show ?thesis by auto
  qed
qed

lemma log_ops_ok:
  assumes "dr_inv ask self t boot [] (lk, nodes, log)"
  shows "\<forall>p \<in> set (map (table_op now) log). rt_op_ok p"
proof -
  have "node_ok (upd_id u)" if u: "u \<in> set log" for u
  proof -
    have "upd_id u \<in> set (queue_ids (lk_queue lk))" using assms u by (auto simp: dr_inv_def asked_ids_def)
    moreover have "queue_ok t (lk_queue lk)" using assms by (simp add: dr_inv_def)
    ultimately show ?thesis by (auto simp: queue_ok_def queue_ids_def)
  qed
  moreover have "rt_op_ok (table_op now u) \<longleftrightarrow> node_ok (upd_id u)" for u :: "'a table_update" by (cases u) simp_all
  ultimately show ?thesis by simp
qed



end
