(* ===== verification/Dht_Router.thy ===== *)
theory Dht_Router
  imports Token_Issuer Compact Lookup_Spec Torrent_Model_Spec
begin

text \<open>
  The task of the DHT node that answers queries (\<open>src/rust/bt/dht/node/src/route.rs\<close>), on top of the routing table,
  the issued tokens and the model of the torrents, which it shares with the other tasks of the node and of the client.

  A handler first makes up its answer and, after having sent it, updates the routing table; in between the other
  tasks may run. The order in which a hash set is iterated, the random bytes of a token and the readings of the clock
  are arguments.
\<close>

section \<open>State and handlers\<close>

record dht_node =
  dn_session :: "socket_addr session"
  dn_tokens :: "socket_addr tokens"
  dn_model :: "socket_addr model"

definition dht_node_new :: "node_id \<Rightarrow> dht_node" where
  "dht_node_new self = \<lparr>dn_session = ss_new self, dn_tokens = [], dn_model = md_new\<rparr>"

datatype dht_reply =
    ReplyPing
  | ReplyFindNode "socket_addr node_info list"
  | ReplyGetPeers token "socket_addr list option" "socket_addr node_info list option"
  | ReplyAnnouncePeer
  | ReplyProtocolError

fun query_id :: "dht_query \<Rightarrow> node_id" where
  "query_id (Ping a) = a"
| "query_id (FindNode a _) = a"
| "query_id (GetPeers a _) = a"
| "query_id (AnnouncePeer a _ _ _ _) = a"

fun set_port :: "socket_addr \<Rightarrow> nat \<Rightarrow> socket_addr" where
  "set_port (V4 a) port = V4 (a\<lparr>v4_port := port\<rparr>)"
| "set_port (V6 a) port = V6 (a\<lparr>v6_port := port\<rparr>)"

definition announced_endpoint :: "socket_addr \<Rightarrow> bool option \<Rightarrow> nat \<Rightarrow> socket_addr" where
  "announced_endpoint e implied_port port = (if \<not> (case implied_port of None \<Rightarrow> False | Some b \<Rightarrow> b) then set_port e port else e)"

fun router_answer ::
    "(socket_addr set \<Rightarrow> socket_addr list) \<Rightarrow> dht_query \<Rightarrow> socket_addr \<Rightarrow> token \<Rightarrow> int \<Rightarrow> dht_node \<Rightarrow>
     (dht_reply \<times> socket_addr table_update \<times> dht_node) option" where
  "router_answer order (Ping a) e random now d = Some (ReplyPing, UpdateOk \<lparr>ni_id = a, ni_endpoint = e\<rparr>, d)"
| "router_answer order (FindNode a target) e random now d = do {
     nodes \<leftarrow> get_closest (ss_table (dn_session d)) target;
     Some (ReplyFindNode nodes, UpdateOk \<lparr>ni_id = a, ni_endpoint = e\<rparr>, d)
   }"
| "router_answer order (GetPeers a h) e random now d = do {
     let (token, tokens) = tokens_issue (dn_tokens d) e random now;
     let peers = (case map_of (md_peers (dn_model d)) h of
         None \<Rightarrow> None
       | Some ps \<Rightarrow> let peers = order ps in if peers \<noteq> [] then Some peers else None);
     nodes \<leftarrow> get_closest (ss_table (dn_session d)) h;
     Some (ReplyGetPeers token peers (if nodes \<noteq> [] then Some nodes else None),
           UpdateOk \<lparr>ni_id = a, ni_endpoint = e\<rparr>, d\<lparr>dn_tokens := tokens\<rparr>)
   }"
| "router_answer order (AnnouncePeer a implied_port h port token) e random now d =
     (if tokens_verify (dn_tokens d) e token now
      then Some (ReplyAnnouncePeer, UpdateOk \<lparr>ni_id = a, ni_endpoint = e\<rparr>,
        d\<lparr>dn_model := snd (peers_insert (dn_model d) h (announced_endpoint e implied_port port))\<rparr>)
      else Some (ReplyProtocolError, UpdateErr a, d))"

definition router_sent :: "socket_addr table_update \<Rightarrow> int \<Rightarrow> dht_node \<Rightarrow> dht_node option" where
  "router_sent u now d = map_option (\<lambda>s. d\<lparr>dn_session := s\<rparr>) (rt_exec (table_op now u) (dn_session d))"

section \<open>The node among its tasks\<close>

datatype dht_op =
    DQuery dht_query socket_addr token int
  | DSent "socket_addr table_update" int
  | DExpire int
  | DTable "socket_addr rt_op"
  | DModel "socket_addr md_op"

fun dht_exec :: "(socket_addr set \<Rightarrow> socket_addr list) \<Rightarrow> dht_op \<Rightarrow> dht_node \<Rightarrow> dht_node option" where
  "dht_exec order (DQuery q e random now) d = map_option (snd \<circ> snd) (router_answer order q e random now d)"
| "dht_exec order (DSent u now) d = router_sent u now d"
| "dht_exec order (DExpire now) d = Some (d\<lparr>dn_tokens := tokens_expire (dn_tokens d) now\<rparr>)"
| "dht_exec order (DTable p) d = map_option (\<lambda>s. d\<lparr>dn_session := s\<rparr>) (rt_exec p (dn_session d))"
| "dht_exec order (DModel p) d = map_option (\<lambda>m. d\<lparr>dn_model := m\<rparr>) (md_exec p (dn_model d))"

text \<open>Ids and hashes have their length by their type; the calls on the model keep to their callers' obligations.\<close>

fun query_ok :: "dht_query \<Rightarrow> bool" where
  "query_ok (FindNode a target) \<longleftrightarrow> node_ok a \<and> node_ok target"
| "query_ok (GetPeers a h) \<longleftrightarrow> node_ok a \<and> node_ok h"
| "query_ok q \<longleftrightarrow> node_ok (query_id q)"

fun dht_adm :: "dht_node \<Rightarrow> dht_op \<Rightarrow> bool" where
  "dht_adm d (DQuery q e random now) \<longleftrightarrow> query_ok q"
| "dht_adm d (DSent u now) \<longleftrightarrow> node_ok (upd_id u)"
| "dht_adm d (DExpire now) \<longleftrightarrow> True"
| "dht_adm d (DTable p) \<longleftrightarrow> rt_op_ok p"
| "dht_adm d (DModel p) \<longleftrightarrow> md_adm (dn_model d) p"

definition dht_inv :: "node_id \<Rightarrow> dht_node \<Rightarrow> bool" where
  "dht_inv self d \<longleftrightarrow> ss_inv self (dn_session d) \<and> md_inv (dn_model d)"

lemma dht_inv_new: "node_ok self \<Longrightarrow> dht_inv self (dht_node_new self)"
  by (simp add: dht_inv_def dht_node_new_def ss_inv_new md_inv_new)

lemma table_op_ok: "rt_op_ok (table_op now u) \<longleftrightarrow> node_ok (upd_id u)"
  by (cases u) simp_all

lemma closest_total: "ss_inv self s \<Longrightarrow> \<exists>infos. get_closest (ss_table s) a = Some infos \<and> infos_ok infos"
  using closest_infos_ok by (auto simp: ss_inv_def)

lemma add_peer_keeps: "md_inv m \<Longrightarrow> md_inv (snd (peers_insert m h e))"
  using md.step_guarded [of m "OpAddPeer h e"] by (simp add: md_exec_def)

text \<open>Every answer is given, keeps the invariant, and leaves an update that the table takes.\<close>

lemma router_answer_ok:
  assumes "dht_inv self d" and "query_ok q"
  shows "\<exists>reply u d'. router_answer order q e random now d = Some (reply, u, d') \<and> dht_inv self d' \<and> upd_id u = query_id q"
proof (cases q)
  case (FindNode a target)
  with closest_total [of self "dn_session d" target] assms show ?thesis by (auto simp: dht_inv_def)
next
  case (GetPeers a h)
  with closest_total [of self "dn_session d" h] assms show ?thesis by (auto simp: dht_inv_def Let_def tokens_issue_def)
qed (use assms add_peer_keeps in \<open>auto simp: dht_inv_def\<close>)

interpretation dn: guarded_machine "dht_exec order" "dht_inv self" dht_adm for order self
proof
  fix d :: dht_node and p :: dht_op
  assume d: "dht_inv self d" and p: "dht_adm d p"
  note session = rt.step_safe [of self "dn_session d"]
  show "\<exists>d'. dht_exec order p d = Some d' \<and> dht_inv self d'"
  proof (cases p)
    case (DQuery q e random now)
    with p have "query_ok q" by simp
    from router_answer_ok [OF d this, of order e random now] show ?thesis using DQuery by auto
  next
    case (DSent u now)
    then show ?thesis using session [of "table_op now u"] d p by (auto simp: dht_inv_def router_sent_def table_op_ok)
  next
    case (DTable x)
    then show ?thesis using session [of x] d p by (auto simp: dht_inv_def)
  next
    case (DModel x)
    then show ?thesis using md.step_guarded [of "dn_model d" x] d p by (auto simp: dht_inv_def)
  qed (use d in \<open>auto simp: dht_inv_def\<close>)
qed

section \<open>Tokens along a run\<close>

fun token_ops :: "dht_op \<Rightarrow> socket_addr token_op list" where
  "token_ops (DQuery (GetPeers a h) e random now) = [Issue e random now]"
| "token_ops (DExpire now) = [Expire now]"
| "token_ops _ = []"

lemma token_step:
  assumes "dht_exec order p d = Some d'"
  shows "run_ops token_exec (token_ops p) (dn_tokens d) = Some (dn_tokens d')"
proof (cases p)
  case (DQuery q e random now)
  with assms show ?thesis
    by (cases q) (auto simp: Let_def tokens_issue_def split: if_splits elim!: bind_eq_SomeE)
qed (use assms in \<open>auto simp: router_sent_def\<close>)

lemma tokens_run:
  "run_ops (dht_exec order) ps d = Some d' \<Longrightarrow> run_ops token_exec (concat (map token_ops ps)) (dn_tokens d) = Some (dn_tokens d')"
proof (induction ps arbitrary: d)
  case (Cons p ps)
  then show ?case by (auto simp: run_ops_append token_step elim!: bind_eq_SomeE)
qed simp

lemma issued_in_run:
  "Issue e t at \<in> set (concat (map token_ops ps)) \<longleftrightarrow> (\<exists>a h. DQuery (GetPeers a h) e t at \<in> set ps)"
proof -
  have "Issue e t at \<in> set (token_ops p) \<longleftrightarrow> (\<exists>a h. p = DQuery (GetPeers a h) e t at)" for p
    by (cases p rule: token_ops.cases) auto
  then show ?thesis by (induction ps) auto
qed

lemma peers_after_insert:
  "peers_contains (snd (peers_insert m h e)) h' e' \<longleftrightarrow> peers_contains m h' e' \<or> (h' = h \<and> e' = e \<and> contains_torrent m h)"
  by (auto simp: peers_insert_def peers_contains_def contains_torrent_def md_send_def update_conv' split: option.splits)

section \<open>Properties\<close>

text \<open>
  C12. The node that answers queries never panics and never spoils what it shares: from a new node on, in every
  interleaving of queries of any sender, of the table updates that follow the answers, of token expiries, of all
  other tasks on the routing table and of all calls on the model that keep to their obligations, every step returns;
  and the routing table and the model then satisfy the invariants that their other users rely on.
\<close>

theorem dht_node_safe:
  assumes "node_ok self" and "admissible_run (dht_exec order) dht_adm ps (dht_node_new self)"
  shows "\<exists>d. run_ops (dht_exec order) ps (dht_node_new self) = Some d \<and> ss_inv self (dn_session d) \<and> md_inv (dn_model d)"
  using dn.run_guarded [OF dht_inv_new [OF assms(1)] assms(2)] by (simp add: dht_inv_def)

definition sender_ex :: socket_addr where
  "sender_ex = V4 \<lparr>v4_ip = [127, 0, 0, 1], v4_port = 8001\<rparr>"

definition dht_ops_ex :: "dht_op list" where
  "dht_ops_ex = [DModel (OpNewTorrent (replicate 20 3)),
     DQuery (GetPeers (replicate 20 1) (replicate 20 3)) sender_ex [1, 2, 3, 4] 0,
     DSent (UpdateOk \<lparr>ni_id = replicate 20 1, ni_endpoint = sender_ex\<rparr>) 2,
     DTable (RInsert \<lparr>ni_id = replicate 20 1, ni_endpoint = sender_ex\<rparr> (Some 2) 3), DExpire 5]"

lemma dht_ops_ex_adm: "admissible_run (dht_exec order) dht_adm dht_ops_ex d"
  by (rule admissible_run_always) (simp add: dht_ops_ex_def)

theorem dht_node_safe_witness:
  "\<exists>d. run_ops (dht_exec (\<lambda>_. [])) dht_ops_ex (dht_node_new (replicate 20 0)) = Some d \<and> md_inv (dn_model d)"
  using dht_node_safe [OF _ dht_ops_ex_adm, of "replicate 20 0" "\<lambda>_. []"] by auto

text \<open>
  C3. Announcements need a token: after any such run on a clock that does not go back, a node that announces a peer is
  believed exactly when it presents a token that was sent to the same endpoint in answer to a \<open>get_peers\<close> query at most
  ten minutes before. Then the announced endpoint, and no other, becomes a peer of the torrent if the torrent is open;
  otherwise the node is told of a protocol error, is marked as failing, and nothing changes.
\<close>

theorem announcements_need_tokens:
  assumes "node_ok self" and "admissible_run (dht_exec order) dht_adm ps (dht_node_new self)"
    and "sorted (map op_time (concat (map token_ops ps)))" and "\<forall>p \<in> set (concat (map token_ops ps)). op_time p \<le> now"
  shows "\<exists>d reply u d'. run_ops (dht_exec order) ps (dht_node_new self) = Some d \<and>
    router_answer order (AnnouncePeer a implied_port h port token) e random now d = Some (reply, u, d') \<and>
    (if \<exists>b g at. DQuery (GetPeers b g) e token at \<in> set ps \<and> now \<le> at + minutes 10
     then reply = ReplyAnnouncePeer \<and> u = UpdateOk \<lparr>ni_id = a, ni_endpoint = e\<rparr> \<and>
       (\<forall>h' e'. peers_contains (dn_model d') h' e' \<longleftrightarrow>
          peers_contains (dn_model d) h' e' \<or>
          (h' = h \<and> e' = announced_endpoint e implied_port port \<and> contains_torrent (dn_model d) h))
     else reply = ReplyProtocolError \<and> u = UpdateErr a \<and> d' = d)"
proof -
  obtain d where d: "run_ops (dht_exec order) ps (dht_node_new self) = Some d"
    using dn.run_guarded [OF dht_inv_new [OF assms(1)] assms(2)] by blast
  have "tokens_verify (dn_tokens d) e token now \<longleftrightarrow> (\<exists>at b g. DQuery (GetPeers b g) e token at \<in> set ps \<and> now \<le> at + minutes 10)"
    using tokens_live [OF assms(3,4)] tokens_run [OF d] by (auto simp: dht_node_new_def issued_in_run simp del: set_concat)
  with d show ?thesis by (auto simp: peers_after_insert)
qed

theorem announcements_need_tokens_witness:
  "\<exists>d u d'. run_ops (dht_exec (\<lambda>_. [])) dht_ops_ex (dht_node_new (replicate 20 0)) = Some d \<and>
     router_answer (\<lambda>_. []) (AnnouncePeer (replicate 20 1) None (replicate 20 3) 6881 [1, 2, 3, 4]) sender_ex [] 10 d =
       Some (ReplyAnnouncePeer, u, d')"
proof -
  have "sorted (map op_time (concat (map token_ops dht_ops_ex)))" "\<forall>p \<in> set (concat (map token_ops dht_ops_ex)). op_time p \<le> 10"
    by (simp_all add: dht_ops_ex_def)
  moreover have "\<exists>b g at. DQuery (GetPeers b g) sender_ex [1, 2, 3, 4] at \<in> set dht_ops_ex \<and> 10 \<le> at + minutes 10"
    by (auto simp: dht_ops_ex_def minutes_def)
  ultimately show ?thesis
    using announcements_need_tokens [where self = "replicate 20 0" and ps = dht_ops_ex and order = "\<lambda>_. []" and now = 10
        and a = "replicate 20 1" and implied_port = None and h = "replicate 20 3" and port = 6881 and token = "[1, 2, 3, 4]"
        and e = sender_ex and random = "[]", OF _ dht_ops_ex_adm]
    by (simp del: router_answer.simps) metis
qed

end
