(* ===== verification/Spec2Isabelle.thy ===== *)
theory Spec2Isabelle
  imports Route_Spec Bencode_Spec Scheduler_Spec Upload Push Interest Dht_Router
begin

text \<open>
  A verification library for the BitTorrent stack of the repository, in \<open>src/rust\<close>.

  \<^bold>\<open>The program.\<close> A BitTorrent client: a distributed hash table finds peers, connections to them are opened
  with a handshake and carry framed messages, a shared model records torrents, connections and the pieces both
  sides have, a scheduler derives from it which pieces to fetch from whom, a download actor requests their
  blocks and stores what arrives, and other actors serve the peers' requests and tell them what we have and want. Below are general collections (a list in a vector, an ordered hash map, sets
  with deadlines, a bounded array) and the wire formats (big-endian integers, Bencode).

  \<^bold>\<open>How Rust is read.\<close> \<open>Prelude\<close> fixes it: a computation that may panic returns an \<open>option\<close>, with \<open>None\<close> for a failed
  assertion, an \<open>unwrap\<close> of nothing, an index out of bounds or an overflow in a build that checks for it; a
  \<open>Result\<close> is a sum with the error on the left. Bytes are 8-bit words. Integers of a wider type are natural numbers, and the
  definitions write out the range where the code depends on it (\<open>add_u32\<close>, the sizes of a torrent). Vectors are
  lists, a \<open>HashMap\<close> is an association list, a \<open>BTreeMap\<close> one sorted by key. An instant is an integer number of
  nanoseconds and the clock is an argument: a handler reads it once. An endpoint is of any type, except where its bytes matter
  (\<open>socket_addr\<close> in \<open>Compact\<close>). Code of other crates is a
  parameter: where a hash table puts a new element (\<open>place\<close>, assumed only to keep the others), the random
  bits of a refresh id, how \<open>rand\<close> shuffles candidates, what storing a block answers.
  \<open>Machine\<close> has what the properties over whole executions share: runs over lists of operations, the
  callers' obligations along a run, and the locales \<open>guarded_machine\<close> and \<open>safe_machine\<close>, from whose single step law safety
  over every run follows. The routing table, the torrent model, the download actor, the peer connections and the DHT node
  interpret them.

  \<^bold>\<open>Collections.\<close>
  \<open>Vec_List\<close> and \<open>Vec_List_Spec\<close> (\<open>g1/base/src/collections/vec_list.rs\<close>): both circular lists in the node array,
  index by index, refine a sequence of pairs of cursor and value; operations panic on dead cursors only; the iterators
  hand out every value once from either end. The locale \<open>cursor_list\<close> is the contract its client uses.
  \<open>Ordered_Map\<close> (\<open>ordered.rs\<close>, with the lookup of \<open>index_map.rs\<close>): the hash index beside such a list refines an
  ordered dictionary (locale \<open>ordered_dict\<close>); the two equalities.
  \<open>Delay_Set\<close> (\<open>g1/tokio/src/time/set/naive.rs\<close>) on top: with a clock that does not go back, looking only at the
  front expires exactly what is due. \<open>Timers\<close> states this as the contract \<open>deadline_set\<close> for the download actor.
  \<open>Bounded_Array\<close> (\<open>array.rs\<close>): down to its uninitialised cells, a list of bounded length (locale \<open>bounded_vec\<close>); no
  uninitialised cell is read, and the iterator by value neither loses nor duplicates an element.

  \<^bold>\<open>Torrents on paper.\<close> \<open>Layout\<close> (\<open>bt/base/src/layout.rs\<close>, \<open>bitfield.rs\<close>): blocks and pieces tile a torrent, offsets convert
  back and forth, what decoding a bit field does on every input, and the overflow of the constructor. \<open>Node_Id\<close>
  (\<open>node_id.rs\<close>): the metric, and that a refresh id lies in its bucket. \<open>Compact\<close> (\<open>compact.rs\<close>, \<open>peer_endpoint.rs\<close>,
  \<open>bt/dht/proto/src/node_info.rs\<close>): an implementation of the compact traits is a record, what it promises is the locale
  \<open>compact_codec\<close>, of which tuples are sublocales; the lists of peers and of nodes round-trip and never make the decoder panic.

  \<^bold>\<open>The hash table of nodes.\<close> \<open>Route\<close> and \<open>Route_Spec\<close> (\<open>bt/dht/route/src\<close>, driven as \<open>bt/dht/node/src/insert.rs\<close> drives it):
  any interleaving of insertions, outcomes of pings, updates, refreshes and lookups runs without a panic and keeps the
  invariant; insertion tasks end after at most \<open>K\<close> pings; a lookup is sorted by distance and has the target's own bucket, whose nodes
  are the closest. A table has at most 158 buckets, which bounds the splitting of an insertion.
  \<open>Lookup\<close> and \<open>Lookup_Spec\<close> (\<open>bt/dht/lookup/src\<close>, \<open>bt/dht/node/src/lookup.rs\<close>): an iterative lookup over any network returns, asks no node twice,
  and reports all peers it was told of; the routing table takes the updates it makes.
  \<open>Token_Issuer\<close> (\<open>bt/dht/node/src/token.rs\<close>): a token is accepted for ten minutes from the endpoint it was issued to and
  expiry drops exactly the others. \<open>Dht_Router\<close> (\<open>route.rs\<close>) composes table, tokens and torrent model into the node that answers
  queries: it is safe in any interleaving with their other users, and a peer is announced only with a valid token.

  \<^bold>\<open>The wire.\<close> \<open>Buffer\<close> (\<open>g1/bytes\<close>), \<open>Frames\<close> (\<open>g1/tokio/src/frame\<close>; locale \<open>frame_codec\<close>) and \<open>Peer_Message\<close> (\<open>bt/proto/src/message.rs\<close>):
  messages given to a sink arrive unchanged and in order at the stream at the other end, whatever the partial writes, the chunks and the
  pending polls; decoding accepts exactly the canonical encodings and never panics; the checks of a message are exact.
  \<open>Handshake\<close> (\<open>handshake.rs\<close>): two sides never deadlock, every interleaving takes eight steps and ends with both
  knowing the other; what one side does on any input. \<open>Bencode\<close> and \<open>Bencode_Spec\<close> (\<open>bittorrent/bencode/src\<close>): values
  survive encoding and decoding in both modes with their raw bytes, decoding returns on every input, strict decoding is a
  restriction of lenient decoding, conversions are inverse. The decoder's fuel is \<open>2 * length + 1\<close>: each call consumes a byte or is the
  one extra call per nesting level, and the theorem on decoding shows that it never runs out.

  \<^bold>\<open>Downloading.\<close> \<open>Torrent_Model\<close> and \<open>Torrent_Model_Spec\<close> (\<open>bt/model/src\<close>): under the callers' obligations the model stays consistent
  and does not panic; the broadcast updates determine its state; an update is sent exactly on a change. \<open>Download_State\<close> and
  \<open>Download_Spec\<close> (\<open>bt/txrx/src/download/state.rs\<close>, \<open>time.rs\<close>): the window of peers, each with its requests in flight, and the queue of
  blocks; every operation returns and keeps the invariant that the queue's counters count the window. \<open>Download_Actor\<close> and
  \<open>Download_Actor_Spec\<close> (\<open>mod.rs\<close>, \<open>schedule.rs\<close>): the handlers in any interleaving with each other and with changes of the model never panic;
  outstanding requests are exactly those with a running timeout; the bounds on peers and requests; every request ends within its
  timeout. \<open>Scheduler\<close> and \<open>Scheduler_Spec\<close> (\<open>bt/schedule/src/lib.rs\<close>): merging the torrents' sub-schedules is sorting all their entries by
  priority, the sub-schedules keep their form, what is handed on is what the download actor requires (\<open>schedule_ok\<close> in both), and when
  the update of a peer panics.

  \<^bold>\<open>Talking to peers.\<close> \<open>Peer_Conn\<close> and \<open>Peer_Conn_Spec\<close> (\<open>bt/peer/src/conn.rs\<close>, \<open>bt/model/src/stat.rs\<close>): opening and closing a connection, the checks
  of messages in both directions and their effect on the model and on the byte counters, which are a store indexed by torrent and
  connection; whatever peers send, nothing panics. \<open>Upload\<close> (\<open>bt/txrx/src/upload.rs\<close>): what is served is accepted by the connection,
  is a piece we have, and goes to peers that are not choked. \<open>Push\<close> (\<open>bt/txrx/src/push.rs\<close>): a new connection is told our bit field in one message,
  in its long or short form. \<open>Interest\<close> (\<open>bt/txrx/src/download/push.rs\<close>): peers are told whether we are interested exactly when that changes or they
  choke us, and choking peers are asked again when their timer is due.

  \<^bold>\<open>What the proofs brought to light.\<close> Constructing a layout overflows on hostile sizes; a short bit field panics instead of being
  refused; strict Bencode accepts padded integers; closing a connection that was opened before its torrent was
  initialised panics; so does the scheduler on the second peer of a torrent of which the first has only some pieces.
  Requests for unchoking are throttled only by the timer: a change of a choking peer sends one at once, however recent the last.

  \<^bold>\<open>Termination.\<close> Loops are structural recursions or functions with a measure: bytes left to read, entries left to merge,
  nodes left to visit. The only fuel is the one of the Bencode decoder. The loop of a lookup depends on what the network
  answers: it is a \<open>partial_function\<close> whose result \<open>None\<close> would be a panic or a loop without end, and the theorem on its end
  excludes both, since every iteration asks a node that was not asked before.

  \<^bold>\<open>What is not modelled.\<close> The runtime under the handlers: tasks, channels, wakers and the loops that the actor macros
  generate; a handler is one step, and where it awaits something in between (a ping, the storage), the answer is an argument or the
  handler is several steps. Sockets, files and databases (\<open>bt/net\<close>, \<open>bt/storage\<close>, \<open>bt/tracker\<close>, the half-open connections and the connection manager of
  \<open>bt/peer\<close>), which call the operating system and other crates; the moving averages of the transfer rates, which are in
  floating point and steer nothing that is modelled. The serde framework of \<open>bt/bencode\<close> and \<open>bt/serde\<close>, whose behaviour is in derived code. The older crates under
  \<open>bittorrent\<close> other than Bencode, which the crates under \<open>bt\<close> replace. The caches, the etcd client and the
  general libraries that no modelled component uses, and the programs in other languages (Python, Java, C++), which share
  nothing with the client.
\<close>

end
